(* ===== verification/Prelude.thy ===== *)
theory Prelude
  imports Main "HOL-Library.Word"
begin

text \<open>
  What every component theory shares: the machine types of the target (an ESP32 is an ILP32
  little-endian machine), the faults that undefined behaviour and failed assertions are turned
  into, the state-and-fault monad in which the C functions are written, the \<open>for\<close> loop with its
  total-correctness rule, and C strings in fixed-size arrays.

  A C function that reads or writes the state is a function \<open>world \<Rightarrow> fault + 'a \<times> world\<close>: \<open>Inl f\<close>
  says that the execution reaches the undefined behaviour (or the failed assertion) \<open>f\<close>,
  \<open>Inr (x, s)\<close> that it returns \<open>x\<close> in state \<open>s\<close>.
\<close>

section \<open>Machine types\<close>

type_synonym u8 = "8 word"
type_synonym i32 = "32 word" \<comment> \<open>\<open>int\<close>, \<open>long\<close> and \<open>int32_t\<close>; read with \<open>sint\<close>\<close>
type_synonym u32 = "32 word"
type_synonym u64 = "64 word"
type_synonym addr = nat \<comment> \<open>a pointer; \<open>0\<close> is \<open>NULL\<close>\<close>

section \<open>Faults and the monad\<close>

datatype fault =
    NullDeref     \<comment> \<open>a \<open>NULL\<close> pointer is read, written or passed to a string function\<close>
  | UseAfterFree  \<comment> \<open>an object is read, written or freed after it was freed\<close>
  | WildPointer   \<comment> \<open>a pointer to no object is followed\<close>
  | WrongObject   \<comment> \<open>a pointer is followed at a type its object does not have\<close>
  | OutOfBounds   \<comment> \<open>an access past the end of an array or of an allocated block\<close>
  | BadUnion      \<comment> \<open>a union member is read that is not the one stored\<close>
  | BadVararg     \<comment> \<open>\<open>va_arg\<close> past the end of the arguments, or at another type\<close>
  | AssertFailed  \<comment> \<open>an \<open>assert\<close> or an \<open>ESP_ERROR_CHECK\<close> aborts\<close>
  | NoFuel        \<comment> \<open>a loop did not end within the iterations it was given\<close>

type_synonym ('s, 'a) prog = "'s \<Rightarrow> fault + 'a \<times> 's"

named_theorems prog_simps \<open>execution of the monad's operations on a state\<close>

definition ret :: "'a \<Rightarrow> ('s, 'a) prog" where
  "ret x = (\<lambda>s. Inr (x, s))"

definition raise :: "fault \<Rightarrow> ('s, 'a) prog" where
  "raise f = (\<lambda>s. Inl f)"

definition bnd :: "('s, 'a) prog \<Rightarrow> ('a \<Rightarrow> ('s, 'b) prog) \<Rightarrow> ('s, 'b) prog" where
  "bnd m f = (\<lambda>s. case m s of Inl e \<Rightarrow> Inl e | Inr (x, s') \<Rightarrow> f x s')"

definition andthen :: "('s, 'a) prog \<Rightarrow> ('s, 'b) prog \<Rightarrow> ('s, 'b) prog" where
  "andthen m n = bnd m (\<lambda>_. n)"

definition gets :: "('s \<Rightarrow> 'a) \<Rightarrow> ('s, 'a) prog" where
  "gets f = (\<lambda>s. Inr (f s, s))"

definition modify :: "('s \<Rightarrow> 's) \<Rightarrow> ('s, unit) prog" where
  "modify f = (\<lambda>s. Inr ((), f s))"

definition check :: "bool \<Rightarrow> fault \<Rightarrow> ('s, unit) prog" where
  "check b f = (if b then ret () else raise f)"

lemma ret_app [prog_simps]: "ret x s = Inr (x, s)"
  by (simp add: ret_def)

lemma raise_app [prog_simps]: "raise f s = Inl f"
  by (simp add: raise_def)

lemma bnd_app [prog_simps]: "bnd m f s = (case m s of Inl e \<Rightarrow> Inl e | Inr (x, s') \<Rightarrow> f x s')"
  by (simp add: bnd_def)

lemma andthen_app [prog_simps]:
  "andthen m n s = (case m s of Inl e \<Rightarrow> Inl e | Inr (x, s') \<Rightarrow> n s')"
  by (simp add: andthen_def bnd_def)

lemma gets_app [prog_simps]: "gets f s = Inr (f s, s)"
  by (simp add: gets_def)

lemma modify_app [prog_simps]: "modify f s = Inr ((), f s)"
  by (simp add: modify_def)

lemma check_app [prog_simps]: "check b f s = (if b then Inr ((), s) else Inl f)"
  by (simp add: check_def ret_def raise_def)

lemma bnd_Inr_iff:
  "bnd m f s = Inr r \<longleftrightarrow> (\<exists>x s'. m s = Inr (x, s') \<and> f x s' = Inr r)"
  by (auto simp: bnd_def split: sum.splits)

lemma andthen_Inr_iff:
  "andthen m n s = Inr r \<longleftrightarrow> (\<exists>x s'. m s = Inr (x, s') \<and> n s' = Inr r)"
  by (auto simp: andthen_def bnd_def split: sum.splits)

lemma bnd_assoc: "bnd (bnd m f) g = bnd m (\<lambda>x. bnd (f x) g)"
  by (rule ext) (auto simp: bnd_def split: sum.splits)

lemma bnd_ret_left: "bnd (ret x) f = f x"
  by (simp add: bnd_def ret_def)

text \<open>A fault that a computation never ends in, whatever the state; the rules follow the syntax.\<close>

definition never :: "fault \<Rightarrow> ('s, 'a) prog \<Rightarrow> bool" where
  "never f m \<longleftrightarrow> (\<forall>s. m s \<noteq> Inl f)"

named_theorems never_intros \<open>computations that never end in a fault\<close>

lemma never_ret [never_intros]: "never f (ret x)"
  by (simp add: never_def ret_def)

lemma never_raise [never_intros]: "g \<noteq> f \<Longrightarrow> never f (raise g)"
  by (simp add: never_def raise_def)

lemma never_bnd [never_intros]: "never f m \<Longrightarrow> (\<And>x. never f (k x)) \<Longrightarrow> never f (bnd m k)"
  by (auto simp: never_def bnd_def split: sum.splits)

lemma never_andthen [never_intros]: "never f m \<Longrightarrow> never f k \<Longrightarrow> never f (andthen m k)"
  unfolding andthen_def by (intro never_intros)

lemma never_gets [never_intros]: "never f (gets g)"
  by (simp add: never_def gets_def)

lemma never_modify [never_intros]: "never f (modify g)"
  by (simp add: never_def modify_def)

lemma never_check [never_intros]: "g \<noteq> f \<Longrightarrow> never f (check b g)"
  by (simp add: check_def never_intros)

lemma never_if [never_intros]: "(b \<Longrightarrow> never f m) \<Longrightarrow> (\<not> b \<Longrightarrow> never f k) \<Longrightarrow> never f (if b then m else k)"
  by simp

text \<open>What holds of the state before a computation that returns holds of the state after it.\<close>

definition preserves :: "('s \<Rightarrow> bool) \<Rightarrow> ('s, 'a) prog \<Rightarrow> bool" where
  "preserves I m \<longleftrightarrow> (\<forall>s r s'. I s \<longrightarrow> m s = Inr (r, s') \<longrightarrow> I s')"

named_theorems preserves_intros \<open>computations that preserve a property of the state\<close>

lemma preservesD: "preserves I m \<Longrightarrow> I s \<Longrightarrow> m s = Inr (r, s') \<Longrightarrow> I s'"
  unfolding preserves_def by blast

lemma preserves_pure [preserves_intros]:
  "preserves I (ret x)" "preserves I (raise f)" "preserves I (gets g)" "preserves I (check b f)"
  by (auto simp: preserves_def ret_app raise_app gets_app check_app split: if_splits)

lemma preserves_bnd [preserves_intros]: "preserves I m \<Longrightarrow> (\<And>x. preserves I (k x)) \<Longrightarrow> preserves I (bnd m k)"
  unfolding preserves_def bnd_Inr_iff by blast

lemma preserves_andthen [preserves_intros]: "preserves I m \<Longrightarrow> preserves I k \<Longrightarrow> preserves I (andthen m k)"
  unfolding preserves_def andthen_Inr_iff by blast

lemma preserves_if [preserves_intros]: "preserves I m \<Longrightarrow> preserves I k \<Longrightarrow> preserves I (if b then m else k)"
  by simp

section \<open>Loops\<close>

text \<open>
  \<open>for_from k i b\<close> runs the body at the \<open>k\<close> indices from \<open>i\<close> on; \<open>for_loop n b\<close> is
  \<open>for (i = 0; i < n; i++)\<close>.
\<close>

primrec for_from :: "nat \<Rightarrow> nat \<Rightarrow> (nat \<Rightarrow> ('s, unit) prog) \<Rightarrow> ('s, unit) prog" where
  "for_from 0 i b = ret ()"
| "for_from (Suc k) i b = andthen (b i) (for_from k (Suc i) b)"

definition for_loop :: "nat \<Rightarrow> (nat \<Rightarrow> ('s, unit) prog) \<Rightarrow> ('s, unit) prog" where
  "for_loop n b = for_from n 0 b"

lemma for_from_total:
  assumes "I i s"
    and "\<And>j s. I j s \<Longrightarrow> i \<le> j \<Longrightarrow> j < i + k \<Longrightarrow> \<exists>s'. b j s = Inr ((), s') \<and> I (Suc j) s'"
  shows "\<exists>s'. for_from k i b s = Inr ((), s') \<and> I (i + k) s'"
  using assms
proof (induction k arbitrary: i s)
  case 0
  then show ?case by (simp add: prog_simps)
next
  case (Suc k)
  from Suc.prems(1) Suc.prems(2) [of i s]
  obtain s1 where s1: "b i s = Inr ((), s1)" "I (Suc i) s1" by auto
  have "\<exists>s'. for_from k (Suc i) b s1 = Inr ((), s') \<and> I (Suc i + k) s'"
    by (rule Suc.IH) (use s1 Suc.prems(2) in auto)
  with s1 show ?case by (simp add: prog_simps)
qed

text \<open>The rule for \<open>for\<close> loops: an invariant over the index that every iteration re-establishes.\<close>

lemma for_loop_total:
  assumes "I 0 s"
    and "\<And>j s. I j s \<Longrightarrow> j < n \<Longrightarrow> \<exists>s'. b j s = Inr ((), s') \<and> I (Suc j) s'"
  shows "\<exists>s'. for_loop n b s = Inr ((), s') \<and> I n s'"
  using for_from_total [of I 0 s n b] assms by (auto simp: for_loop_def)

section \<open>Lists, options and words\<close>

text \<open>A checked array read.\<close>

definition idx :: "'a list \<Rightarrow> nat \<Rightarrow> ('s, 'a) prog" where
  "idx xs i = (if i < length xs then ret (xs ! i) else raise OutOfBounds)"

lemma idx_app [prog_simps]: "idx xs i s = (if i < length xs then Inr (xs ! i, s) else Inl OutOfBounds)"
  by (simp add: idx_def ret_def raise_def)

text \<open>The first index whose element satisfies a predicate.\<close>

primrec first_idx :: "('a \<Rightarrow> bool) \<Rightarrow> 'a list \<Rightarrow> nat option" where
  "first_idx P [] = None"
| "first_idx P (x # xs) = (if P x then Some 0 else map_option Suc (first_idx P xs))"

lemma first_idx_None [simp]: "first_idx P xs = None \<longleftrightarrow> (\<forall>x \<in> set xs. \<not> P x)"
  by (induction xs) auto

lemma first_idx_Some:
  "first_idx P xs = Some i \<longleftrightarrow> i < length xs \<and> P (xs ! i) \<and> (\<forall>j < i. \<not> P (xs ! j))"
proof (induction xs arbitrary: i)
  case Nil
  then show ?case by simp
next
  case (Cons x xs)
  show ?case
    by (cases i) (auto simp: Cons.IH less_Suc_eq_0_disj)
qed

lemma first_idx_map: "first_idx P (map f xs) = first_idx (\<lambda>x. P (f x)) xs"
  by (induction xs) simp_all

lemma first_idx_cong: "(\<And>x. x \<in> set xs \<Longrightarrow> P x = Q x) \<Longrightarrow> first_idx P xs = first_idx Q xs"
  by (induction xs) auto

lemma first_idx_pointwise:
  "length xs = length ys \<Longrightarrow> (\<And>i. i < length ys \<Longrightarrow> P (xs ! i) = Q (ys ! i)) \<Longrightarrow>
    first_idx P xs = first_idx Q ys"
proof (induction xs ys rule: list_induct2')
  case (4 x xs y ys)
  then have "P x = Q y" "first_idx P xs = first_idx Q ys" by force+
  then show ?case by simp
qed auto

text \<open>A filtered list around one of its places.\<close>

lemma filter_around:
  "i < length xs \<Longrightarrow> filter P (xs[i := y]) = filter P (take i xs) @ (if P y then [y] else []) @ filter P (drop (Suc i) xs)"
  "i < length xs \<Longrightarrow> filter P xs = filter P (take i xs) @ (if P (xs ! i) then [xs ! i] else []) @ filter P (drop (Suc i) xs)"
proof -
  show upd: "i < length xs \<Longrightarrow> filter P (xs[i := y]) =
      filter P (take i xs) @ (if P y then [y] else []) @ filter P (drop (Suc i) xs)" for y
    by (simp add: upd_conv_take_nth_drop)
  show "i < length xs \<Longrightarrow> filter P xs =
      filter P (take i xs) @ (if P (xs ! i) then [xs ! i] else []) @ filter P (drop (Suc i) xs)"
    using upd [of "xs ! i"] by simp
qed

lemma length_filter_update:
  assumes "i < length xs" "\<not> P (xs ! i)" "P y"
  shows "length (filter P (xs[i := y])) = Suc (length (filter P xs))"
proof -
  have "filter P xs = filter P (take i xs @ xs ! i # drop (Suc i) xs)"
    using assms(1) by (simp add: id_take_nth_drop [symmetric])
  also have "\<dots> = filter P (take i xs) @ filter P (drop (Suc i) xs)"
    using assms(2) by simp
  finally have "length (filter P xs) = length (filter P (take i xs)) + length (filter P (drop (Suc i) xs))"
    by simp
  then show ?thesis
    using assms(1,3) by (simp add: upd_conv_take_nth_drop)
qed

lemma length_filter_remove:
  assumes "i < length xs" "P (xs ! i)" "\<not> P y"
  shows "Suc (length (filter P (xs[i := y]))) = length (filter P xs)"
  using length_filter_update [of i "xs[i := y]" P "xs ! i"] assms by simp

lemma unat_of_nat_word32 [simp]: "n < 2 ^ 31 \<Longrightarrow> unat (of_nat n :: 32 word) = n"
  by (simp add: unat_of_nat take_bit_nat_eq_self)

lemma sint_of_nat_word32 [simp]: "n < 2 ^ 31 \<Longrightarrow> sint (of_nat n :: 32 word) = int n"
  by (simp add: sint_uint unsigned_of_nat signed_take_bit_int_eq_self take_bit_nat_eq_self
      flip: take_bit_of_nat)

lemma sint_of_int_word32: "- (2 ^ 31) \<le> i \<Longrightarrow> i < 2 ^ 31 \<Longrightarrow> sint (of_int i :: 32 word) = i"
  by (simp add: signed_of_int signed_take_bit_int_eq_self)

lemma uint_u64_bounds: "0 \<le> uint (w :: 64 word) \<and> uint w < 2 ^ 64"
  using uint_lt2p [of w] by simp

lemma sint_i32_bounds: "- (2 ^ 31) \<le> sint (x :: 32 word) \<and> sint x < 2 ^ 31"
  using sint_ge [of x] sint_lt [of x] by simp

text \<open>An \<open>int\<close> widened to 64 bits, and 64 bits cut to an \<open>int\<close>.\<close>

lemma ucast_scast_32 [simp]: "ucast (scast (y :: 32 word) :: 64 word) = y"
  by (rule bit_word_eqI) (simp add: bit_simps)

lemma scast_ucast_small: "tid < 2 ^ 31 \<Longrightarrow> scast (ucast tid :: 32 word) = (tid :: 64 word)"
proof -
  assume "tid < 2 ^ 31"
  then have "uint tid < 2 ^ 31" by (simp add: word_less_def)
  moreover have "- (2 ^ 31) \<le> uint tid" by (rule order_trans [of _ 0]) simp_all
  ultimately have "signed_take_bit 31 (uint tid) = uint tid"
    by (intro signed_take_bit_int_eq_self) simp_all
  then have "sint (ucast tid :: 32 word) = uint tid" by (simp add: signed_ucast_eq)
  then show ?thesis by (simp add: scast_eq)
qed

section \<open>C strings in arrays\<close>

abbreviation NUL :: char where
  "NUL \<equiv> CHR 0x00"

text \<open>The string an array holds: its characters up to the first \<open>NUL\<close>.\<close>

definition c_str :: "char list \<Rightarrow> string" where
  "c_str b = takeWhile (\<lambda>c. c \<noteq> NUL) b"

text \<open>A string function reads the array up to its \<open>NUL\<close>; without one it reads past the end.\<close>

definition read_str :: "char list \<Rightarrow> ('s, string) prog" where
  "read_str b = (if NUL \<in> set b then ret (c_str b) else raise OutOfBounds)"

lemma read_str_app [prog_simps]:
  "read_str b s = (if NUL \<in> set b then Inr (c_str b, s) else Inl OutOfBounds)"
  by (simp add: read_str_def ret_def raise_def)

text \<open>A value that a C string can have.\<close>

definition is_cstr :: "string \<Rightarrow> bool" where
  "is_cstr x \<longleftrightarrow> NUL \<notin> set x"

lemma is_cstr_c_str [simp]: "is_cstr (c_str b)"
  by (auto simp: is_cstr_def c_str_def dest: set_takeWhileD)

lemma c_str_append_NUL [simp]: "is_cstr x \<Longrightarrow> c_str (x @ NUL # r) = x"
  by (auto simp: c_str_def is_cstr_def takeWhile_append)

lemma c_str_terminated: "is_cstr x \<Longrightarrow> c_str (x @ [NUL]) = x"
  by simp

lemma c_str_append_zeros [simp]: "is_cstr x \<Longrightarrow> c_str (x @ replicate n NUL) = x"
  by (cases n) (auto simp: c_str_def is_cstr_def takeWhile_append)

lemma c_str_append_hd: "is_cstr x \<Longrightarrow> r \<noteq> [] \<Longrightarrow> hd r = NUL \<Longrightarrow> c_str (x @ r) = x"
  by (metis c_str_append_NUL list.collapse)

lemma c_str_replicate [simp]: "c_str (replicate n NUL) = []"
  by (cases n) (simp_all add: c_str_def)

lemma is_cstr_take [simp]: "is_cstr x \<Longrightarrow> is_cstr (take n x)"
  by (auto simp: is_cstr_def dest: in_set_takeD)

text \<open>
  \<open>strncpy(dst, src, n)\<close> on an array of at least \<open>n\<close> characters: at most \<open>n\<close> characters of the
  string, padded with \<open>NUL\<close> up to \<open>n\<close>; the rest of the array is untouched.
\<close>

definition strncpy :: "char list \<Rightarrow> string \<Rightarrow> nat \<Rightarrow> char list" where
  "strncpy dst src n = take n (src @ replicate n NUL) @ drop n dst"

lemma length_strncpy [simp]: "n \<le> length dst \<Longrightarrow> length (strncpy dst src n) = length dst"
  by (simp add: strncpy_def)

text \<open>Whether the array holds exactly this string: what \<open>strcmp(b, x) == 0\<close> decides.\<close>

definition str_is :: "char list \<Rightarrow> string \<Rightarrow> bool" where
  "str_is b x \<longleftrightarrow> take (Suc (length x)) b = x @ [NUL]"

lemma str_is_iff:
  assumes "is_cstr x" "NUL \<in> set b"
  shows "str_is b x \<longleftrightarrow> c_str b = x"
proof
  assume "str_is b x"
  then have "b = x @ [NUL] @ drop (Suc (length x)) b"
    by (metis append.assoc append_take_drop_id str_is_def)
  with assms(1) show "c_str b = x" by (metis append_Cons c_str_append_NUL)
next
  assume x: "c_str b = x"
  from assms(2) have "b = c_str b @ dropWhile (\<lambda>c. c \<noteq> NUL) b" "dropWhile (\<lambda>c. c \<noteq> NUL) b \<noteq> []"
    by (auto simp: c_str_def)
  moreover from this(2) have "hd (dropWhile (\<lambda>c. c \<noteq> NUL) b) = NUL"
    using hd_dropWhile [of "\<lambda>c. c \<noteq> NUL" b] by simp
  ultimately obtain r where "b = x @ NUL # r"
    using x by (metis list.collapse)
  then show "str_is b x" by (simp add: str_is_def)
qed

lemma str_is_same: "str_is b x \<Longrightarrow> str_is b y \<Longrightarrow> is_cstr x \<Longrightarrow> is_cstr y \<Longrightarrow> x = y"
proof -
  assume x: "str_is b x" "is_cstr x" and y: "str_is b y" "is_cstr y"
  from x(1) have "NUL \<in> set (take (Suc (length x)) b)" by (simp add: str_is_def)
  then have "NUL \<in> set b" by (rule in_set_takeD)
  with x y show ?thesis using str_is_iff by blast
qed

end
