(* ===== verification/Data_Model.thy ===== *)
theory Data_Model
  imports Prelude
begin

text \<open>
  The data of the program: the enumerations, structs and unions of the headers under \<open>inc/\<close>, the
  objects a pointer can refer to, and the state of the machine.

  Structs keep their field names; a field whose name another struct or HOL also uses carries a
  prefix (\<open>t_\<close> for \<open>task_t\<close>, \<open>i_\<close> for \<open>task_instance_t\<close>, \<open>c_\<close> for \<open>command_t\<close>, \<open>tb_\<close> for
  \<open>tboard_t\<close>, \<open>cn_\<close> for \<open>cnode_t\<close>, \<open>cs_\<close> for \<open>corestate_t\<close>). A \<open>char*\<close> that the code only ever
  sets to a string literal of the application (a task's name and signature) is a \<open>string\<close>; every
  other pointer is an address into the heap.
\<close>

section \<open>\<open>command.h\<close>\<close>

datatype jamcommand_t =
    CMD_PING | CMD_REXEC | CMD_REXEC_ACK | CMD_REXEC_RES | CMD_REXEC_ERR
  | CMD_GET_REXEC_RES | CMD_CLOSE_PORT

text \<open>
  The number the compiler gives each enumerator. A decoded command holds whatever number came
  from the wire, so \<open>command_t\<close> stores the number.
\<close>

primrec cmd_code :: "jamcommand_t \<Rightarrow> i32" where
  "cmd_code CMD_PING = 0"
| "cmd_code CMD_REXEC = 1"
| "cmd_code CMD_REXEC_ACK = 2"
| "cmd_code CMD_REXEC_RES = 3"
| "cmd_code CMD_REXEC_ERR = 4"
| "cmd_code CMD_GET_REXEC_RES = 5"
| "cmd_code CMD_CLOSE_PORT = 6"

lemma cmd_code_inject [simp]: "cmd_code a = cmd_code b \<longleftrightarrow> a = b"
  by (cases a; cases b) simp_all

text \<open>The enumerators are ordered as their numbers are.\<close>

instantiation jamcommand_t :: linorder
begin

definition less_eq_jamcommand_t :: "jamcommand_t \<Rightarrow> jamcommand_t \<Rightarrow> bool" where
  "less_eq_jamcommand_t a b \<longleftrightarrow> cmd_code a \<le> cmd_code b"

definition less_jamcommand_t :: "jamcommand_t \<Rightarrow> jamcommand_t \<Rightarrow> bool" where
  "less_jamcommand_t a b \<longleftrightarrow> cmd_code a < cmd_code b"

instance
  by standard (auto simp: less_eq_jamcommand_t_def less_jamcommand_t_def intro: le_neq_trans)

end

datatype argtype_t =
    NULL_TYPE | STRING_TYPE | INT_TYPE | LONG_TYPE | DOUBLE_TYPE | NVOID_TYPE | VOID_TYPE

abbreviation SMALL_CMD_STR_LEN :: nat where "SMALL_CMD_STR_LEN \<equiv> 32"
abbreviation LARGE_CMD_STR_LEN :: nat where "LARGE_CMD_STR_LEN \<equiv> 128"
abbreviation HUGE_CMD_STR_LEN :: nat where "HUGE_CMD_STR_LEN \<equiv> 1024"

text \<open>
  The union of an argument: \<open>ival\<close> and \<open>lval\<close> have one representation on the target, and so have
  the three pointer members. \<open>ZVal\<close> is the all-zero union that \<open>calloc\<close> leaves, which every member
  reads as zero. A double is its IEEE bit pattern; the code never computes with one.
\<close>

datatype argvalue_t = ZVal | IVal i32 | DVal u64 | PVal addr

record arg_t =
  nargs :: i32
  arg_type :: argtype_t
  arg_val :: argvalue_t

definition zero_arg :: arg_t where
  "zero_arg = \<lparr>nargs = 0, arg_type = NULL_TYPE, arg_val = ZVal\<rparr>"

record command_t =
  c_cmd :: i32
  c_subcmd :: i32
  c_fn_name :: "char list"   \<comment> \<open>\<open>SMALL_CMD_STR_LEN\<close> characters\<close>
  c_task_id :: u64
  c_node_id :: "char list"   \<comment> \<open>\<open>LARGE_CMD_STR_LEN\<close> characters\<close>
  c_fn_argsig :: "char list" \<comment> \<open>\<open>SMALL_CMD_STR_LEN\<close> characters\<close>
  c_buffer :: "u8 list"      \<comment> \<open>\<open>HUGE_CMD_STR_LEN\<close> bytes\<close>
  c_length :: i32
  c_args :: addr
  c_refcount :: i32
  c_id :: i32

definition zero_command :: command_t where
  "zero_command = \<lparr>c_cmd = 0, c_subcmd = 0, c_fn_name = replicate SMALL_CMD_STR_LEN NUL,
     c_task_id = 0, c_node_id = replicate LARGE_CMD_STR_LEN NUL,
     c_fn_argsig = replicate SMALL_CMD_STR_LEN NUL, c_buffer = replicate HUGE_CMD_STR_LEN 0,
     c_length = 0, c_args = 0, c_refcount = 0, c_id = 0\<rparr>"

record internal_command_t =
  ic_cmd :: i32
  ic_task_id :: u32
  ic_args :: addr

section \<open>\<open>nvoid.h\<close>\<close>

record nvoid_t =
  nv_size :: u32 \<comment> \<open>the size of the block the struct was allocated in\<close>
  nv_len :: i32
  nv_data :: addr

section \<open>\<open>task.h\<close>\<close>

abbreviation MAX_ARGS :: nat where "MAX_ARGS \<equiv> 20"
abbreviation MAX_TASKS :: nat where "MAX_TASKS \<equiv> 20"
abbreviation MAX_INSTANCES :: nat where "MAX_INSTANCES \<equiv> 5"

record task_t =
  t_name :: string
  t_return_type :: argtype_t
  t_fn_argsig :: string
  t_entry_point :: nat          \<comment> \<open>the address of the stub\<close>
  instances :: "addr list"      \<comment> \<open>\<open>MAX_INSTANCES\<close> pointers\<close>
  num_instances :: u32

record task_instance_t =
  is_running :: bool
  has_finished :: bool
  serial_id :: u32
  task_handle_frtos :: nat
  i_return_arg :: addr
  i_args :: addr
  parent_task :: addr

section \<open>\<open>tboard.h\<close>\<close>

record tboard_t =
  tb_tasks :: "addr list"       \<comment> \<open>\<open>MAX_TASKS\<close> pointers\<close>
  num_tasks :: u32
  num_dead_tasks :: u32
  last_dead_task_id :: u32

section \<open>\<open>core.h\<close>\<close>

record corestate_t =
  cs_device_id :: addr
  cs_serial_num :: i32

section \<open>\<open>system_manager.h\<close>\<close>

record system_manager_t =
  connection_attempts :: i32
  wifi_connection :: bool
  wifi_any_event_handle :: nat
  got_ip_event_handle :: nat

section \<open>\<open>zenoh.h\<close>, \<open>cnode.h\<close>\<close>

record zenoh_pub_t =
  pub_keyexpr :: string \<comment> \<open>empty until the publisher is declared\<close>

record cnode_t =
  cn_tboard :: addr
  cn_system_manager :: addr
  cn_node_id :: addr
  cn_zenoh :: addr
  cn_zenoh_pub_reply :: addr
  cn_zenoh_pub_request :: addr
  cn_commandQueue :: nat
  cn_core_state :: addr
  cn_initialized :: bool
  cn_message_received :: bool

section \<open>Objects and the state of the machine\<close>

text \<open>
  What an address refers to. A pointer to an array of arguments refers to the whole array, a
  \<open>char*\<close> to the whole block of characters.
\<close>

datatype obj =
    OChars "char list"
  | OBytes "u8 list"
  | OArgs "arg_t list"
  | ONvoid nvoid_t
  | OCmd command_t
  | OIcmd internal_command_t
  | OTask task_t
  | OInst task_instance_t
  | OTboard tboard_t
  | OCore corestate_t
  | OZenoh
  | OPub zenoh_pub_t
  | OCnode cnode_t
  | OSysman system_manager_t

text \<open>
  The calls into libraries whose effect outside the program matters, in the order they are made:
  a message handed to \<open>z_publisher_put\<close>, a key expression subscribed to or declared for publishing,
  what a queue operation did, a FreeRTOS task started (with its parameter), the Wi-Fi driver asked to
  connect, the bit set that says the network is up, a value stored in flash; \<open>Lib\<close> is any other call
  whose result the code looks at, by the name of the function.
\<close>

datatype ext_call =
    Z_put string "u8 list"
  | Z_sub string
  | Z_pub string
  | Q_send addr
  | Q_full addr
  | Q_recv addr
  | Q_empty
  | Rtos_task addr
  | Wifi_connect
  | Wifi_up
  | Nvs_set_str string string
  | Nvs_set_i32 string i32
  | Lib string

text \<open>
  \<open>heap\<close> holds the live objects and \<open>brk\<close> the number of allocations so far, so that an address is
  never used twice and \<open>0\<close> never; \<open>oom n\<close> says that the allocation after \<open>n\<close> others fails.
  \<open>total_mem_usage\<close> is the counter of \<open>utils.c\<close>, \<open>cmd_id\<close> the static \<open>id\<close> of \<open>command.c\<close>,
  \<open>global_tboard\<close> the static of \<open>tboard.c\<close>; \<open>s_retry_count\<close>, \<open>s_is_wifi_connected\<close> and
  \<open>system_initialized\<close> are those of \<open>system_manager.c\<close>, \<open>flake_counter\<close> the one of \<open>discountflake\<close>.
  \<open>rtos_handle\<close> is the handle that FreeRTOS gives the task created by the last of some calls; nothing
  but the instance's field depends on it.
\<close>

record world =
  heap :: "addr \<Rightarrow> obj option"
  brk :: nat
  oom :: "nat \<Rightarrow> bool"
  total_mem_usage :: i32
  cmd_id :: i32
  global_tboard :: addr
  trace :: "ext_call list"
  s_retry_count :: i32
  s_is_wifi_connected :: bool
  system_initialized :: bool
  flake_counter :: i32
  rtos_handle :: "ext_call list \<Rightarrow> nat"

type_synonym 'a c_prog = "(world, 'a) prog"

text \<open>The state when the firmware starts, with an allocator that never fails.\<close>

definition start_world :: world where
  "start_world = \<lparr>heap = (\<lambda>_. None), brk = 0, oom = (\<lambda>_. False), total_mem_usage = 0, cmd_id = 1,
     global_tboard = 0, trace = [], s_retry_count = 0, s_is_wifi_connected = False,
     system_initialized = False, flake_counter = 0, rtos_handle = (\<lambda>_. 1)\<rparr>"

end
