(* ===== verification/Memory.thy ===== *)
theory Memory
  imports Data_Model
begin

text \<open>
  The heap: allocation and release as the macros of \<open>inc/utils.h\<close> do them (with the count of
  allocated bytes in \<open>total_mem_usage\<close>), reads and writes through a pointer, \<open>strdup\<close>, and the
  facts about them that every component uses: what a fresh object does to the rest of the heap
  (\<open>extends\<close>), and the loops of allocations that only add objects.
\<close>

section \<open>Reads and writes through a pointer\<close>

definition bad_ptr :: "addr \<Rightarrow> world \<Rightarrow> fault" where
  "bad_ptr p s = (if p = 0 then NullDeref else if p \<le> brk s then UseAfterFree else WildPointer)"

definition deref :: "addr \<Rightarrow> obj c_prog" where
  "deref p = (\<lambda>s. case heap s p of Some ob \<Rightarrow> Inr (ob, s) | None \<Rightarrow> Inl (bad_ptr p s))"

text \<open>Reads at a type: the selector says which objects have it.\<close>

definition load :: "(obj \<Rightarrow> 'a option) \<Rightarrow> addr \<Rightarrow> 'a c_prog" where
  "load sel p = bnd (deref p) (\<lambda>ob. case sel ob of Some x \<Rightarrow> ret x | None \<Rightarrow> raise WrongObject)"

definition store :: "addr \<Rightarrow> obj \<Rightarrow> unit c_prog" where
  "store p ob = bnd (deref p) (\<lambda>_. modify (\<lambda>s. s\<lparr>heap := (heap s)(p := Some ob)\<rparr>))"

fun as_chars :: "obj \<Rightarrow> char list option" where
  "as_chars (OChars b) = Some b" | "as_chars _ = None"
fun as_bytes :: "obj \<Rightarrow> u8 list option" where
  "as_bytes (OBytes b) = Some b" | "as_bytes _ = None"
fun as_args :: "obj \<Rightarrow> arg_t list option" where
  "as_args (OArgs a) = Some a" | "as_args _ = None"
fun as_nvoid :: "obj \<Rightarrow> nvoid_t option" where
  "as_nvoid (ONvoid n) = Some n" | "as_nvoid _ = None"
fun as_cmd :: "obj \<Rightarrow> command_t option" where
  "as_cmd (OCmd c) = Some c" | "as_cmd _ = None"
fun as_icmd :: "obj \<Rightarrow> internal_command_t option" where
  "as_icmd (OIcmd c) = Some c" | "as_icmd _ = None"
fun as_task :: "obj \<Rightarrow> task_t option" where
  "as_task (OTask t) = Some t" | "as_task _ = None"
fun as_inst :: "obj \<Rightarrow> task_instance_t option" where
  "as_inst (OInst i) = Some i" | "as_inst _ = None"
fun as_tboard :: "obj \<Rightarrow> tboard_t option" where
  "as_tboard (OTboard t) = Some t" | "as_tboard _ = None"
fun as_core :: "obj \<Rightarrow> corestate_t option" where
  "as_core (OCore t) = Some t" | "as_core _ = None"
fun as_pub :: "obj \<Rightarrow> zenoh_pub_t option" where
  "as_pub (OPub t) = Some t" | "as_pub _ = None"
fun as_sysman :: "obj \<Rightarrow> system_manager_t option" where
  "as_sysman (OSysman t) = Some t" | "as_sysman _ = None"
fun as_zenoh :: "obj \<Rightarrow> unit option" where
  "as_zenoh OZenoh = Some ()" | "as_zenoh _ = None"
fun as_cnode :: "obj \<Rightarrow> cnode_t option" where
  "as_cnode (OCnode t) = Some t" | "as_cnode _ = None"

text \<open>A write to one field of a struct: read it, change it, write it back.\<close>

definition update_cmd :: "addr \<Rightarrow> (command_t \<Rightarrow> command_t) \<Rightarrow> unit c_prog" where
  "update_cmd p f = bnd (load as_cmd p) (\<lambda>c. store p (OCmd (f c)))"

definition update_task :: "addr \<Rightarrow> (task_t \<Rightarrow> task_t) \<Rightarrow> unit c_prog" where
  "update_task p f = bnd (load as_task p) (\<lambda>c. store p (OTask (f c)))"

definition update_inst :: "addr \<Rightarrow> (task_instance_t \<Rightarrow> task_instance_t) \<Rightarrow> unit c_prog" where
  "update_inst p f = bnd (load as_inst p) (\<lambda>c. store p (OInst (f c)))"

definition update_tboard :: "addr \<Rightarrow> (tboard_t \<Rightarrow> tboard_t) \<Rightarrow> unit c_prog" where
  "update_tboard p f = bnd (load as_tboard p) (\<lambda>c. store p (OTboard (f c)))"

definition update_core :: "addr \<Rightarrow> (corestate_t \<Rightarrow> corestate_t) \<Rightarrow> unit c_prog" where
  "update_core p f = bnd (load as_core p) (\<lambda>c. store p (OCore (f c)))"

definition update_sysman :: "addr \<Rightarrow> (system_manager_t \<Rightarrow> system_manager_t) \<Rightarrow> unit c_prog" where
  "update_sysman p f = bnd (load as_sysman p) (\<lambda>c. store p (OSysman (f c)))"

definition update_pub :: "addr \<Rightarrow> (zenoh_pub_t \<Rightarrow> zenoh_pub_t) \<Rightarrow> unit c_prog" where
  "update_pub p f = bnd (load as_pub p) (\<lambda>c. store p (OPub (f c)))"

definition update_cnode :: "addr \<Rightarrow> (cnode_t \<Rightarrow> cnode_t) \<Rightarrow> unit c_prog" where
  "update_cnode p f = bnd (load as_cnode p) (\<lambda>c. store p (OCnode (f c)))"

text \<open>One element of an array of arguments, read or written.\<close>

definition get_arg :: "addr \<Rightarrow> nat \<Rightarrow> arg_t c_prog" where
  "get_arg p i = bnd (load as_args p) (\<lambda>as. idx as i)"

definition update_arg :: "addr \<Rightarrow> nat \<Rightarrow> (arg_t \<Rightarrow> arg_t) \<Rightarrow> unit c_prog" where
  "update_arg p i f = bnd (load as_args p) (\<lambda>as.
     bnd (idx as i) (\<lambda>a. store p (OArgs (as[i := f a]))))"

text \<open>The members of an argument's union.\<close>

fun get_ival :: "argvalue_t \<Rightarrow> i32 c_prog" where
  "get_ival (IVal i) = ret i"
| "get_ival ZVal = ret 0"
| "get_ival _ = raise BadUnion"

fun get_dval :: "argvalue_t \<Rightarrow> u64 c_prog" where
  "get_dval (DVal d) = ret d"
| "get_dval ZVal = ret 0"
| "get_dval _ = raise BadUnion"

fun get_ptr :: "argvalue_t \<Rightarrow> addr c_prog" where
  "get_ptr (PVal p) = ret p"
| "get_ptr ZVal = ret 0"
| "get_ptr _ = raise BadUnion"

section \<open>Allocation and release\<close>

text \<open>The C library's allocator: a fresh object, or \<open>NULL\<close>.\<close>

definition alloc :: "obj \<Rightarrow> addr c_prog" where
  "alloc ob = (\<lambda>s.
     if oom s (brk s) then Inr (0, s\<lparr>brk := Suc (brk s)\<rparr>)
     else Inr (Suc (brk s), s\<lparr>brk := Suc (brk s), heap := (heap s)(Suc (brk s) := Some ob)\<rparr>))"

text \<open>
  The macros \<open>calloc\<close> and \<open>malloc\<close> of \<open>utils.h\<close> count the bytes asked for, whether or not they
  were allocated.
\<close>

definition calloc :: "obj \<Rightarrow> u32 \<Rightarrow> addr c_prog" where
  "calloc ob sz = bnd (alloc ob) (\<lambda>p.
     andthen (modify (\<lambda>s. s\<lparr>total_mem_usage := total_mem_usage s + sz\<rparr>)) (ret p))"

text \<open>The C library's \<open>free\<close>: of \<open>NULL\<close> it does nothing, of a freed object it is undefined.\<close>

definition free_raw :: "addr \<Rightarrow> unit c_prog" where
  "free_raw p = (if p = 0 then ret ()
     else bnd (deref p) (\<lambda>_. modify (\<lambda>s. s\<lparr>heap := (heap s)(p := None)\<rparr>)))"

text \<open>
  The macro \<open>free\<close>: it also subtracts the size of what the pointer's static type points to, and for
  a \<open>char*\<close> the length of the string (which it reads, so that the pointer must not be \<open>NULL\<close>).
\<close>

definition free_sized :: "addr \<Rightarrow> u32 \<Rightarrow> unit c_prog" where
  "free_sized p sz = andthen (free_raw p)
     (modify (\<lambda>s. s\<lparr>total_mem_usage := total_mem_usage s - sz\<rparr>))"

definition free_chars :: "addr \<Rightarrow> unit c_prog" where
  "free_chars p = bnd (load as_chars p) (\<lambda>b. bnd (read_str b) (\<lambda>x.
     free_sized p (of_nat (length x + 1))))"

text \<open>\<open>strdup\<close> allocates without the macro, so its block is not counted.\<close>

definition strdup_str :: "string \<Rightarrow> addr c_prog" where
  "strdup_str x = alloc (OChars (x @ [NUL]))"

definition strdup :: "addr \<Rightarrow> addr c_prog" where
  "strdup p = bnd (load as_chars p) (\<lambda>b. bnd (read_str b) strdup_str)"

section \<open>Execution\<close>

text \<open>An allocator that does not fail.\<close>

definition no_oom :: "world \<Rightarrow> bool" where
  "no_oom s \<longleftrightarrow> (\<forall>n. \<not> oom s n)"

lemma no_oomD [simp]: "no_oom s \<Longrightarrow> oom s n = False"
  by (simp add: no_oom_def)

lemma no_oom_upd [simp]:
  "no_oom (s\<lparr>heap := h\<rparr>) = no_oom s" "no_oom (s\<lparr>brk := n\<rparr>) = no_oom s"
  "no_oom (s\<lparr>total_mem_usage := u\<rparr>) = no_oom s" "no_oom (s\<lparr>cmd_id := i\<rparr>) = no_oom s"
  "no_oom (s\<lparr>trace := tr\<rparr>) = no_oom s" "no_oom (s\<lparr>global_tboard := g\<rparr>) = no_oom s"
  "no_oom (s\<lparr>s_retry_count := r\<rparr>) = no_oom s" "no_oom (s\<lparr>s_is_wifi_connected := w\<rparr>) = no_oom s"
  "no_oom (s\<lparr>system_initialized := si\<rparr>) = no_oom s" "no_oom (s\<lparr>flake_counter := fc\<rparr>) = no_oom s"
  by (simp_all add: no_oom_def)

text \<open>No object lives beyond the allocations made so far, nor at \<open>NULL\<close>.\<close>

definition wf_mem :: "world \<Rightarrow> bool" where
  "wf_mem s \<longleftrightarrow> heap s 0 = None \<and> (\<forall>p. brk s < p \<longrightarrow> heap s p = None)"

lemma wf_mem_start: "wf_mem start_world"
  by (simp add: wf_mem_def start_world_def)

lemma wf_memD: "wf_mem s \<Longrightarrow> heap s p = Some ob \<Longrightarrow> 0 < p \<and> p \<le> brk s"
  unfolding wf_mem_def by (metis gr0I not_le_imp_less option.distinct(1))

lemma wf_mem_fresh [simp]: "wf_mem s \<Longrightarrow> heap s (Suc (brk s)) = None"
  by (simp add: wf_mem_def)

lemma deref_app [prog_simps]:
  "deref p s = (case heap s p of Some ob \<Rightarrow> Inr (ob, s) | None \<Rightarrow> Inl (bad_ptr p s))"
  by (simp add: deref_def)

lemma load_app:
  "load sel p s = (case heap s p of None \<Rightarrow> Inl (bad_ptr p s)
     | Some ob \<Rightarrow> (case sel ob of None \<Rightarrow> Inl WrongObject | Some x \<Rightarrow> Inr (x, s)))"
  by (simp add: load_def prog_simps split: option.splits)

lemma load_ok [prog_simps]: "heap s p = Some ob \<Longrightarrow> sel ob = Some x \<Longrightarrow> load sel p s = Inr (x, s)"
  by (simp add: load_app)

lemma load_bad [prog_simps]: "heap s p = None \<Longrightarrow> load sel p s = Inl (bad_ptr p s)"
  by (simp add: load_app)

lemma store_ok [prog_simps]:
  "heap s p = Some ob' \<Longrightarrow> store p ob s = Inr ((), s\<lparr>heap := (heap s)(p := Some ob)\<rparr>)"
  by (simp add: store_def prog_simps)

lemma store_bad [prog_simps]: "heap s p = None \<Longrightarrow> store p ob s = Inl (bad_ptr p s)"
  by (simp add: store_def prog_simps)

lemma update_ok [prog_simps]:
  "heap s p = Some (OCmd c) \<Longrightarrow> update_cmd p f s = Inr ((), s\<lparr>heap := (heap s)(p := Some (OCmd (f c)))\<rparr>)"
  "heap s p = Some (OTask t) \<Longrightarrow> update_task p g s = Inr ((), s\<lparr>heap := (heap s)(p := Some (OTask (g t)))\<rparr>)"
  "heap s p = Some (OInst i) \<Longrightarrow> update_inst p h s = Inr ((), s\<lparr>heap := (heap s)(p := Some (OInst (h i)))\<rparr>)"
  "heap s p = Some (OTboard b) \<Longrightarrow>
     update_tboard p k s = Inr ((), s\<lparr>heap := (heap s)(p := Some (OTboard (k b)))\<rparr>)"
  "heap s p = Some (OCore cs) \<Longrightarrow>
     update_core p l s = Inr ((), s\<lparr>heap := (heap s)(p := Some (OCore (l cs)))\<rparr>)"
  "heap s p = Some (OSysman sm) \<Longrightarrow>
     update_sysman p m s = Inr ((), s\<lparr>heap := (heap s)(p := Some (OSysman (m sm)))\<rparr>)"
  "heap s p = Some (OPub pu) \<Longrightarrow>
     update_pub p n s = Inr ((), s\<lparr>heap := (heap s)(p := Some (OPub (n pu)))\<rparr>)"
  "heap s p = Some (OCnode cn) \<Longrightarrow>
     update_cnode p r s = Inr ((), s\<lparr>heap := (heap s)(p := Some (OCnode (r cn)))\<rparr>)"
  by (simp_all add: update_cmd_def update_task_def update_inst_def update_tboard_def update_core_def
      update_sysman_def update_pub_def update_cnode_def prog_simps)

lemma update_bad [prog_simps]:
  "heap s p = None \<Longrightarrow> update_cmd p f s = Inl (bad_ptr p s)"
  "heap s p = None \<Longrightarrow> update_task p g s = Inl (bad_ptr p s)"
  "heap s p = None \<Longrightarrow> update_inst p h s = Inl (bad_ptr p s)"
  "heap s p = None \<Longrightarrow> update_tboard p k s = Inl (bad_ptr p s)"
  "heap s p = None \<Longrightarrow> update_core p l s = Inl (bad_ptr p s)"
  "heap s p = None \<Longrightarrow> update_sysman p m s = Inl (bad_ptr p s)"
  "heap s p = None \<Longrightarrow> update_pub p n s = Inl (bad_ptr p s)"
  "heap s p = None \<Longrightarrow> update_cnode p r s = Inl (bad_ptr p s)"
  by (simp_all add: update_cmd_def update_task_def update_inst_def update_tboard_def update_core_def
      update_sysman_def update_pub_def update_cnode_def prog_simps)

lemma get_arg_ok [prog_simps]:
  "heap s p = Some (OArgs as) \<Longrightarrow> i < length as \<Longrightarrow> get_arg p i s = Inr (as ! i, s)"
  by (simp add: get_arg_def prog_simps)

lemma get_arg_out [prog_simps]:
  "heap s p = Some (OArgs as) \<Longrightarrow> \<not> i < length as \<Longrightarrow> get_arg p i s = Inl OutOfBounds"
  by (simp add: get_arg_def prog_simps)

lemma get_arg_bad [prog_simps]: "heap s p = None \<Longrightarrow> get_arg p i s = Inl (bad_ptr p s)"
  by (simp add: get_arg_def prog_simps)

lemma update_arg_ok [prog_simps]:
  "heap s p = Some (OArgs as) \<Longrightarrow> i < length as \<Longrightarrow>
     update_arg p i f s = Inr ((), s\<lparr>heap := (heap s)(p := Some (OArgs (as[i := f (as ! i)])))\<rparr>)"
  by (simp add: update_arg_def prog_simps)

lemma update_arg_out [prog_simps]:
  "heap s p = Some (OArgs as) \<Longrightarrow> \<not> i < length as \<Longrightarrow> update_arg p i f s = Inl OutOfBounds"
  by (simp add: update_arg_def prog_simps)

lemma update_arg_bad [prog_simps]: "heap s p = None \<Longrightarrow> update_arg p i f s = Inl (bad_ptr p s)"
  by (simp add: update_arg_def prog_simps)

lemma alloc_app [prog_simps]:
  "alloc ob s = (if oom s (brk s) then Inr (0, s\<lparr>brk := Suc (brk s)\<rparr>)
     else Inr (Suc (brk s), s\<lparr>brk := Suc (brk s), heap := (heap s)(Suc (brk s) := Some ob)\<rparr>))"
  by (simp add: alloc_def)

lemma calloc_app [prog_simps]:
  "calloc ob sz s = (if oom s (brk s)
     then Inr (0, s\<lparr>brk := Suc (brk s), total_mem_usage := total_mem_usage s + sz\<rparr>)
     else Inr (Suc (brk s), s\<lparr>brk := Suc (brk s), heap := (heap s)(Suc (brk s) := Some ob),
                              total_mem_usage := total_mem_usage s + sz\<rparr>))"
  by (simp add: calloc_def prog_simps)

lemma free_raw_ok [prog_simps]:
  "heap s p = Some ob \<Longrightarrow> p \<noteq> 0 \<Longrightarrow> free_raw p s = Inr ((), s\<lparr>heap := (heap s)(p := None)\<rparr>)"
  by (simp add: free_raw_def prog_simps)

lemma free_sized_ok [prog_simps]:
  "heap s p = Some ob \<Longrightarrow> p \<noteq> 0 \<Longrightarrow> free_sized p sz s =
     Inr ((), s\<lparr>heap := (heap s)(p := None), total_mem_usage := total_mem_usage s - sz\<rparr>)"
  by (simp add: free_sized_def prog_simps)

lemma free_sized_freed [prog_simps]:
  "heap s p = None \<Longrightarrow> p \<noteq> 0 \<Longrightarrow> free_sized p sz s = Inl (bad_ptr p s)"
  by (simp add: free_sized_def free_raw_def prog_simps)

lemma free_chars_ok [prog_simps]:
  "heap s p = Some (OChars b) \<Longrightarrow> NUL \<in> set b \<Longrightarrow> p \<noteq> 0 \<Longrightarrow> free_chars p s =
     Inr ((), s\<lparr>heap := (heap s)(p := None),
                total_mem_usage := total_mem_usage s - of_nat (length (c_str b) + 1)\<rparr>)"
  by (simp add: free_chars_def prog_simps)

lemma strdup_ok [prog_simps]:
  "heap s p = Some (OChars b) \<Longrightarrow> NUL \<in> set b \<Longrightarrow> strdup p s = alloc (OChars (c_str b @ [NUL])) s"
  by (simp add: strdup_def strdup_str_def prog_simps)

lemma strdup_bad [prog_simps]: "heap s p = None \<Longrightarrow> strdup p s = Inl (bad_ptr p s)"
  by (simp add: strdup_def prog_simps)

section \<open>Heaps that grow\<close>

text \<open>
  \<open>s'\<close> comes from \<open>s\<close> by allocations and by changes to the objects of \<open>A\<close> alone: every other object
  of \<open>s\<close> is still there, unchanged, and so are the statics. \<open>extends\<close>: nothing at all was changed.
\<close>

definition other_statics :: "world \<Rightarrow> i32 \<times> bool \<times> bool \<times> i32" where
  "other_statics s = (s_retry_count s, s_is_wifi_connected s, system_initialized s, flake_counter s)"

lemma other_statics_upd [simp]:
  "other_statics (s\<lparr>heap := h\<rparr>) = other_statics s" "other_statics (s\<lparr>brk := n\<rparr>) = other_statics s"
  "other_statics (s\<lparr>total_mem_usage := u\<rparr>) = other_statics s" "other_statics (s\<lparr>cmd_id := i\<rparr>) = other_statics s"
  "other_statics (s\<lparr>trace := tr\<rparr>) = other_statics s" "other_statics (s\<lparr>global_tboard := g\<rparr>) = other_statics s"
  by (simp_all add: other_statics_def)

definition grows :: "addr set \<Rightarrow> world \<Rightarrow> world \<Rightarrow> bool" where
  "grows A s s' \<longleftrightarrow> brk s \<le> brk s' \<and> oom s' = oom s
     \<and> (\<forall>p. p \<le> brk s \<longrightarrow> p \<notin> A \<longrightarrow> heap s' p = heap s p)
     \<and> cmd_id s' = cmd_id s \<and> global_tboard s' = global_tboard s \<and> trace s' = trace s
     \<and> other_statics s' = other_statics s"

abbreviation extends :: "world \<Rightarrow> world \<Rightarrow> bool" where
  "extends \<equiv> grows {}"

lemma grows_refl [simp]: "grows A s s"
  by (simp add: grows_def)

lemma grows_trans: "grows A s t \<Longrightarrow> grows A t u \<Longrightarrow> grows A s u"
  by (auto simp: grows_def)

lemma extends_trans [trans]: "extends s t \<Longrightarrow> extends t u \<Longrightarrow> extends s u"
  by (rule grows_trans)

lemma grows_mono: "grows A s t \<Longrightarrow> A \<subseteq> B \<Longrightarrow> grows B s t"
  by (auto simp: grows_def)

text \<open>Changes to objects that did not exist yet do not count.\<close>

lemma grows_fresh: "grows A s t \<Longrightarrow> (\<And>p. p \<in> A \<Longrightarrow> brk s < p) \<Longrightarrow> extends s t"
  unfolding grows_def by (metis empty_iff leD)

lemma grows_heap: "grows A s s' \<Longrightarrow> p \<le> brk s \<Longrightarrow> p \<notin> A \<Longrightarrow> heap s' p = heap s p"
  by (simp add: grows_def)

lemma grows_brk: "grows A s s' \<Longrightarrow> brk s \<le> brk s'"
  by (simp add: grows_def)

lemma grows_live: "grows A s s' \<Longrightarrow> wf_mem s \<Longrightarrow> heap s p = Some ob \<Longrightarrow> p \<notin> A \<Longrightarrow> heap s' p = Some ob"
  by (auto simp: grows_def dest: wf_memD)

lemmas extends_live = grows_live [of "{}", simplified]

lemma grows_no_oom: "grows A s s' \<Longrightarrow> no_oom s' = no_oom s"
  by (simp add: grows_def no_oom_def)

lemma grows_alloc:
  "grows A s s' \<Longrightarrow> grows A s (s'\<lparr>brk := Suc (brk s'), heap := (heap s')(Suc (brk s') := Some ob)\<rparr>)"
  by (simp add: grows_def)

lemma grows_usage [simp]: "grows A s (s'\<lparr>total_mem_usage := u\<rparr>) = grows A s s'"
  by (simp add: grows_def)

lemma grows_store:
  "grows A s s' \<Longrightarrow> brk s < p \<or> p \<in> A \<Longrightarrow> grows A s (s'\<lparr>heap := (heap s')(p := ob)\<rparr>)"
  by (auto simp: grows_def)

text \<open>The objects that are in \<open>s'\<close> and were allocated after \<open>s\<close> are all in \<open>A\<close>.\<close>

definition new_objs :: "world \<Rightarrow> world \<Rightarrow> addr set \<Rightarrow> bool" where
  "new_objs s s' A \<longleftrightarrow> (\<forall>p. brk s < p \<longrightarrow> heap s' p \<noteq> None \<longrightarrow> p \<in> A)"

lemma new_objs_mono: "new_objs s s' A \<Longrightarrow> A \<subseteq> B \<Longrightarrow> new_objs s s' B"
  unfolding new_objs_def by blast

lemma new_objs_Suc:
  "new_objs t s' A \<Longrightarrow> brk t = Suc (brk s) \<Longrightarrow> Suc (brk s) \<in> A \<Longrightarrow> new_objs s s' A"
  unfolding new_objs_def by (metis Suc_lessI)

lemma wf_mem_alloc: "wf_mem s \<Longrightarrow>
    wf_mem (s\<lparr>brk := Suc (brk s), heap := (heap s)(Suc (brk s) := Some ob)\<rparr>)"
  by (simp add: wf_mem_def)

lemma wf_mem_store: "wf_mem s \<Longrightarrow> heap s p = Some ob' \<Longrightarrow> wf_mem (s\<lparr>heap := (heap s)(p := ob)\<rparr>)"
  by (auto simp: wf_mem_def)

lemma wf_mem_free [simp]: "wf_mem s \<Longrightarrow> wf_mem (s\<lparr>heap := (heap s)(p := None)\<rparr>)"
  by (simp add: wf_mem_def)

lemma wf_mem_upd [simp]:
  "wf_mem (s\<lparr>total_mem_usage := u\<rparr>) = wf_mem s" "wf_mem (s\<lparr>cmd_id := i\<rparr>) = wf_mem s"
  "wf_mem (s\<lparr>trace := tr\<rparr>) = wf_mem s" "wf_mem (s\<lparr>global_tboard := g\<rparr>) = wf_mem s"
  "wf_mem (s\<lparr>s_retry_count := r\<rparr>) = wf_mem s" "wf_mem (s\<lparr>s_is_wifi_connected := w\<rparr>) = wf_mem s"
  "wf_mem (s\<lparr>system_initialized := si\<rparr>) = wf_mem s" "wf_mem (s\<lparr>flake_counter := fc\<rparr>) = wf_mem s"
  by (simp_all add: wf_mem_def)

lemma wf_mem_preserved [preserves_intros]:
  "preserves wf_mem (load sel p)" "preserves wf_mem (read_str b)" "preserves wf_mem (store p ob)"
  "preserves wf_mem (alloc ob)" "preserves wf_mem (calloc ob n)" "preserves wf_mem (strdup_str x)" "preserves wf_mem (idx xs i)"
  by (auto simp: preserves_def load_app read_str_def store_def deref_app alloc_app calloc_app idx_app
      strdup_str_def bnd_Inr_iff modify_app ret_app raise_app split: option.splits if_splits intro: wf_mem_store)
    (simp_all add: wf_mem_def)

lemma wf_mem_updates [preserves_intros]: "preserves wf_mem (update_cmd p f)" "preserves wf_mem (update_arg p i g)"
  unfolding update_cmd_def update_arg_def by (intro preserves_intros)+

section \<open>No operation on memory runs out of fuel\<close>

lemma never_idx [never_intros]: "never NoFuel (idx xs i)"
  by (simp add: idx_def never_intros)

lemma never_read_str [never_intros]: "never NoFuel (read_str b)"
  by (simp add: read_str_def never_intros)

lemma never_deref [never_intros]: "never NoFuel (deref p)"
  by (simp add: never_def deref_def bad_ptr_def split: option.splits)

lemma never_load [never_intros]: "never NoFuel (load sel p)"
  unfolding load_def by (intro never_intros) (simp split: option.splits add: never_intros)

lemma never_store [never_intros]: "never NoFuel (store p ob)"
  unfolding store_def by (intro never_intros)

lemma never_update [never_intros]:
  "never NoFuel (update_cmd p f)" "never NoFuel (update_arg p i g)"
  unfolding update_cmd_def update_arg_def by (intro never_intros)+

lemma never_alloc [never_intros]: "never NoFuel (alloc ob)" "never NoFuel (calloc ob n)"
  unfolding calloc_def by (intro never_intros | simp add: never_def alloc_def)+

lemma never_strdup [never_intros]: "never NoFuel (strdup_str x)"
  unfolding strdup_str_def by (intro never_intros)

section \<open>What is freed stays freed\<close>

text \<open>The allocator never hands out an address twice: a freed object does not come back.\<close>

definition keeps_freed :: "addr \<Rightarrow> 'a c_prog \<Rightarrow> bool" where
  "keeps_freed p m \<longleftrightarrow> (\<forall>s r s'. p \<le> brk s \<longrightarrow> heap s p = None \<longrightarrow> m s = Inr (r, s') \<longrightarrow> p \<le> brk s' \<and> heap s' p = None)"

named_theorems freed_intros \<open>computations that bring no freed object back\<close>

lemma freed_pure [freed_intros]:
  "keeps_freed p (ret x)" "keeps_freed p (raise f)" "keeps_freed p (gets g)" "keeps_freed p (check b f)"
  by (auto simp: keeps_freed_def prog_simps)

lemma freed_bnd [freed_intros]: "keeps_freed p m \<Longrightarrow> (\<And>x. keeps_freed p (k x)) \<Longrightarrow> keeps_freed p (bnd m k)"
  unfolding keeps_freed_def bnd_Inr_iff by blast

lemma freed_andthen [freed_intros]: "keeps_freed p m \<Longrightarrow> keeps_freed p k \<Longrightarrow> keeps_freed p (andthen m k)"
  unfolding andthen_def by (intro freed_intros)

lemma freed_if [freed_intros]: "keeps_freed p m \<Longrightarrow> keeps_freed p k \<Longrightarrow> keeps_freed p (if b then m else k)"
  by simp

lemma freed_modify:
  "(\<And>s. brk (f s) = brk s \<and> heap (f s) = heap s) \<Longrightarrow> keeps_freed p (modify f)"
  by (auto simp: keeps_freed_def prog_simps)

lemma freed_memory [freed_intros]:
  "keeps_freed p (deref q)" "keeps_freed p (load sel q)" "keeps_freed p (store q ob)" "keeps_freed p (alloc ob)"
  "keeps_freed p (calloc ob n)" "keeps_freed p (update_core q f)" "keeps_freed p (strdup_str x)"
  "keeps_freed p (read_str b)" "keeps_freed p (free_raw q)" "keeps_freed p (free_sized q n)"
  by (auto simp: keeps_freed_def deref_def load_app store_def alloc_app calloc_app update_core_def strdup_str_def
      read_str_def free_raw_def free_sized_def bnd_Inr_iff andthen_Inr_iff modify_app ret_app raise_app
      split: option.splits if_splits)

end
