(* ===== verification/Nvoid.thy ===== *)
theory Nvoid
  imports Memory
begin

text \<open>
  The byte blobs of \<open>src/nvoid.c\<close>. A blob is built in a block of \<open>sizeof(int) + len\<close> bytes, while
  the struct holds an \<open>int\<close> and a pointer; the accesses to the two fields are checked against the
  size of the block.
\<close>

text \<open>
  \<open>memcpy\<close> into an object of bytes; \<open>src\<close> is the read of the bytes the source pointer refers to.
  Copying nothing accesses nothing.
\<close>

definition memcpy :: "addr \<Rightarrow> u8 list c_prog \<Rightarrow> nat \<Rightarrow> unit c_prog" where
  "memcpy d src n = (if n = 0 then ret ()
     else bnd (load as_bytes d) (\<lambda>b. bnd src (\<lambda>x.
       if n \<le> length x \<and> n \<le> length b then store d (OBytes (take n x @ drop n b))
       else raise OutOfBounds)))"

text \<open>An access to the field that ends at byte \<open>hi\<close> of the struct.\<close>

definition nvoid_field :: "addr \<Rightarrow> u32 \<Rightarrow> nvoid_t c_prog" where
  "nvoid_field nv hi = bnd (load as_nvoid nv) (\<lambda>n.
     andthen (check (hi \<le> nv_size n) OutOfBounds) (ret n))"

definition nvoid_new :: "u8 list c_prog \<Rightarrow> i32 \<Rightarrow> addr c_prog" where
  "nvoid_new data len =
     bnd (calloc (ONvoid \<lparr>nv_size = 4 + len, nv_len = 0, nv_data = 0\<rparr>) (4 + len)) (\<lambda>nv.
     andthen (check (nv \<noteq> 0) AssertFailed)
     (bnd (nvoid_field nv 4) (\<lambda>n.
     andthen (store nv (ONvoid (n\<lparr>nv_len := len\<rparr>)))
     (bnd (nvoid_field nv 8) (\<lambda>n.
     andthen (memcpy (nv_data n) data (unat len))
     (ret nv))))))"

definition nvoid_null :: "addr c_prog" where
  "nvoid_null =
     bnd (calloc (ONvoid \<lparr>nv_size = 8, nv_len = 0, nv_data = 0\<rparr>) 8) (\<lambda>nv.
     if nv = 0 then ret 0
     else bnd (nvoid_field nv 8) (\<lambda>n.
       andthen (store nv (ONvoid (n\<lparr>nv_len := 0, nv_data := 0\<rparr>))) (ret nv)))"

text \<open>The macro \<open>nvoid_free\<close>: one release of the struct's own size.\<close>

definition nvoid_free :: "addr \<Rightarrow> unit c_prog" where
  "nvoid_free nv = free_sized nv 8"

section \<open>Building a blob\<close>

lemma nvoid_field_ok [prog_simps]:
  "heap s p = Some (ONvoid n) \<Longrightarrow> hi \<le> nv_size n \<Longrightarrow> nvoid_field p hi s = Inr (n, s)"
  "heap s p = Some (ONvoid n) \<Longrightarrow> \<not> hi \<le> nv_size n \<Longrightarrow> nvoid_field p hi s = Inl OutOfBounds"
  by (simp_all add: nvoid_field_def prog_simps)

lemma memcpy_null [prog_simps]:
  "heap s 0 = None \<Longrightarrow> n \<noteq> 0 \<Longrightarrow> memcpy 0 src n s = Inl NullDeref"
  by (simp add: memcpy_def prog_simps bad_ptr_def)

text \<open>
  The struct's \<open>data\<close> pointer is never set: with a block that can hold the struct the copy goes to
  \<open>NULL\<close>, with a smaller one the pointer's own read is out of the block.
\<close>

lemma nvoid_new_faults:
  assumes "wf_mem s"
  shows "nvoid_new data len s =
    Inl (if oom s (brk s) then AssertFailed
         else if 8 \<le> 4 + len then NullDeref else OutOfBounds)"
proof -
  have null: "heap s 0 = None" and fresh: "heap s (Suc (brk s)) = None"
    using assms by (simp_all add: wf_mem_def)
  have len: "len \<noteq> 0" if "8 \<le> 4 + len"
    using that by auto
  have four: "4 \<le> 4 + len" if "8 \<le> 4 + len"
    by (rule order_trans [OF _ that]) simp
  show ?thesis
  proof (cases "oom s (brk s)")
    case True
    then show ?thesis by (simp add: nvoid_new_def prog_simps)
  next
    case False
    then show ?thesis
      using null len four unat_eq_zero [of len]
      by (cases "4 \<le> 4 + len"; cases "8 \<le> 4 + len")
        (auto simp: nvoid_new_def prog_simps bad_ptr_def)
  qed
qed

lemma nvoid_null_ok:
  assumes "\<not> oom s (brk s)"
  shows "nvoid_null s = Inr (Suc (brk s), s\<lparr>brk := Suc (brk s),
     heap := (heap s)(Suc (brk s) := Some (ONvoid \<lparr>nv_size = 8, nv_len = 0, nv_data = 0\<rparr>)),
     total_mem_usage := total_mem_usage s + 8\<rparr>)"
  using assms by (simp add: nvoid_null_def prog_simps)

end
