(* ===== verification/Args.thy ===== *)
theory Args
  imports Nvoid
begin

text \<open>
  The arrays of arguments of \<open>src/command.c\<close>: filling one from variadic arguments
  (\<open>command_qargs_alloc\<close> and the loop of \<open>command_new\<close>), \<open>command_args_clone\<close>,
  \<open>command_arg_inner_free\<close> and \<open>command_args_free\<close>. \<open>args_view\<close> reads an array as the list of the
  values it holds; the lemmas say that a clone has the same view in fresh memory and that a release
  frees exactly what the array owns.
\<close>

section \<open>Allocation\<close>

text \<open>
  \<open>calloc(n, sizeof(arg_t))\<close>: an \<open>arg_t\<close> has 16 bytes, and the call fails when \<open>n\<close> of them (read
  as a \<open>size_t\<close>, so that a negative \<open>n\<close> is huge) are more than an address can count.
\<close>

definition calloc_args :: "i32 \<Rightarrow> addr c_prog" where
  "calloc_args n =
     (if unat n < 2 ^ 28 then calloc (OArgs (replicate (unat n) zero_arg)) (n * 16)
      else andthen (modify (\<lambda>s. s\<lparr>total_mem_usage := total_mem_usage s + n * 16\<rparr>)) (ret 0))"

text \<open>The number of iterations of \<open>for (int i = 0; i < n; i++)\<close>.\<close>

definition iterations :: "i32 \<Rightarrow> nat" where
  "iterations n = nat (sint n)"

section \<open>Variadic arguments\<close>

datatype vararg = VaInt i32 | VaDouble u64 | VaPtr addr

fun va_int :: "vararg list \<Rightarrow> (i32 \<times> vararg list) c_prog" where
  "va_int (VaInt i # vs) = ret (i, vs)" | "va_int _ = raise BadVararg"
fun va_double :: "vararg list \<Rightarrow> (u64 \<times> vararg list) c_prog" where
  "va_double (VaDouble d # vs) = ret (d, vs)" | "va_double _ = raise BadVararg"
fun va_ptr :: "vararg list \<Rightarrow> (addr \<times> vararg list) c_prog" where
  "va_ptr (VaPtr p # vs) = ret (p, vs)" | "va_ptr _ = raise BadVararg"

text \<open>One case of the switch: take an argument, store it and its type.\<close>

definition fill_int :: "addr \<Rightarrow> nat \<Rightarrow> vararg list \<Rightarrow> vararg list c_prog" where
  "fill_int q i vs = bnd (va_int vs) (\<lambda>(x, vs').
     andthen (update_arg q i (\<lambda>a. a\<lparr>arg_val := IVal x, arg_type := INT_TYPE\<rparr>)) (ret vs'))"

definition fill_double :: "addr \<Rightarrow> nat \<Rightarrow> vararg list \<Rightarrow> vararg list c_prog" where
  "fill_double q i vs = bnd (va_double vs) (\<lambda>(d, vs').
     andthen (update_arg q i (\<lambda>a. a\<lparr>arg_val := DVal d, arg_type := DOUBLE_TYPE\<rparr>)) (ret vs'))"

definition fill_string :: "addr \<Rightarrow> nat \<Rightarrow> vararg list \<Rightarrow> vararg list c_prog" where
  "fill_string q i vs = bnd (va_ptr vs) (\<lambda>(p, vs'). bnd (strdup p) (\<lambda>p'.
     andthen (update_arg q i (\<lambda>a. a\<lparr>arg_val := PVal p', arg_type := STRING_TYPE\<rparr>)) (ret vs')))"

definition fill_ptr :: "argtype_t \<Rightarrow> addr \<Rightarrow> nat \<Rightarrow> vararg list \<Rightarrow> vararg list c_prog" where
  "fill_ptr ty q i vs = bnd (va_ptr vs) (\<lambda>(p, vs').
     andthen (update_arg q i (\<lambda>a. a\<lparr>arg_val := PVal p, arg_type := ty\<rparr>)) (ret vs'))"

text \<open>The switch of \<open>command_new\<close> and that of \<open>command_qargs_alloc\<close>.\<close>

definition new_switch :: "char \<Rightarrow> addr \<Rightarrow> nat \<Rightarrow> vararg list \<Rightarrow> vararg list c_prog" where
  "new_switch c q i vs =
     (if c = CHR ''n'' then fill_ptr NVOID_TYPE q i vs
      else if c = CHR ''s'' then fill_string q i vs
      else if c = CHR ''i'' then fill_int q i vs
      else if c = CHR ''f'' then fill_double q i vs
      else ret vs)"

definition qargs_switch :: "char \<Rightarrow> addr \<Rightarrow> nat \<Rightarrow> vararg list \<Rightarrow> vararg list c_prog" where
  "qargs_switch c q i vs =
     (if c = CHR ''n'' then fill_ptr NVOID_TYPE q i vs
      else if c = CHR ''s'' then fill_string q i vs
      else if c = CHR ''i'' then fill_int q i vs
      else if c = CHR ''p'' then fill_ptr VOID_TYPE q i vs
      else if c = CHR ''d'' \<or> c = CHR ''f'' then fill_double q i vs
      else ret vs)"

primrec fill_loop :: "(char \<Rightarrow> addr \<Rightarrow> nat \<Rightarrow> vararg list \<Rightarrow> vararg list c_prog) \<Rightarrow>
    string \<Rightarrow> addr \<Rightarrow> nat \<Rightarrow> i32 \<Rightarrow> vararg list \<Rightarrow> unit c_prog" where
  "fill_loop sw [] q i n vs = ret ()"
| "fill_loop sw (c # cs) q i n vs = bnd (sw c q i vs) (\<lambda>vs'.
     andthen (update_arg q i (\<lambda>a. a\<lparr>nargs := n\<rparr>)) (fill_loop sw cs q (Suc i) n vs'))"

text \<open>\<open>false\<close> is \<open>None\<close>, \<open>true\<close> with the array written through \<open>rargs\<close> is \<open>Some\<close>.\<close>

definition command_qargs_alloc :: "string \<Rightarrow> vararg list \<Rightarrow> addr option c_prog" where
  "command_qargs_alloc fmt vs =
     (let flen = of_nat (length fmt) in
      if 0 < sint flen then bnd (calloc_args flen) (\<lambda>qargs.
        andthen (fill_loop qargs_switch fmt qargs 0 flen vs) (ret (Some qargs)))
      else ret None)"

section \<open>Copy and release\<close>

definition clone_elem :: "addr \<Rightarrow> addr \<Rightarrow> nat \<Rightarrow> unit c_prog" where
  "clone_elem src dst i = bnd (get_arg src i) (\<lambda>a.
     andthen (update_arg dst i (\<lambda>v. v\<lparr>arg_type := arg_type a, nargs := nargs a\<rparr>))
     (case arg_type a of
        INT_TYPE \<Rightarrow> bnd (get_ival (arg_val a)) (\<lambda>x. update_arg dst i (\<lambda>v. v\<lparr>arg_val := IVal x\<rparr>))
      | LONG_TYPE \<Rightarrow> bnd (get_ival (arg_val a)) (\<lambda>x. update_arg dst i (\<lambda>v. v\<lparr>arg_val := IVal x\<rparr>))
      | DOUBLE_TYPE \<Rightarrow> bnd (get_dval (arg_val a)) (\<lambda>d. update_arg dst i (\<lambda>v. v\<lparr>arg_val := DVal d\<rparr>))
      | STRING_TYPE \<Rightarrow> bnd (get_ptr (arg_val a)) (\<lambda>p. bnd (strdup p) (\<lambda>q.
          update_arg dst i (\<lambda>v. v\<lparr>arg_val := PVal q\<rparr>)))
      | NVOID_TYPE \<Rightarrow> bnd (get_ptr (arg_val a)) (\<lambda>p. bnd (nvoid_field p 8) (\<lambda>n.
          bnd (nvoid_new (load as_bytes (nv_data n)) (nv_len n)) (\<lambda>q.
          update_arg dst i (\<lambda>v. v\<lparr>arg_val := PVal q\<rparr>))))
      | NULL_TYPE \<Rightarrow> update_arg dst i (\<lambda>v. v\<lparr>arg_val := IVal 0\<rparr>)
      | VOID_TYPE \<Rightarrow> ret ()))"

definition command_args_clone :: "addr \<Rightarrow> addr c_prog" where
  "command_args_clone arg =
     (if arg = 0 then ret 0
      else bnd (get_arg arg 0) (\<lambda>a0.
        bnd (calloc_args (nargs a0)) (\<lambda>val.
        andthen (check (val \<noteq> 0) AssertFailed)
        (andthen (for_loop (iterations (nargs a0)) (clone_elem arg val))
        (ret val)))))"

definition free_elem :: "addr \<Rightarrow> nat \<Rightarrow> unit c_prog" where
  "free_elem arg i = bnd (get_arg arg i) (\<lambda>a.
     case arg_type a of
       STRING_TYPE \<Rightarrow> bnd (get_ptr (arg_val a)) free_chars
     | NVOID_TYPE \<Rightarrow> bnd (get_ptr (arg_val a)) nvoid_free
     | _ \<Rightarrow> ret ())"

definition command_arg_inner_free :: "addr \<Rightarrow> unit c_prog" where
  "command_arg_inner_free arg =
     (if arg = 0 then ret ()
      else bnd (get_arg arg 0) (\<lambda>a0. for_loop (iterations (nargs a0)) (free_elem arg)))"

definition command_args_free :: "addr \<Rightarrow> unit c_prog" where
  "command_args_free arg =
     (if arg \<noteq> 0 then
        andthen (command_arg_inner_free arg)
        (bnd (get_arg arg 0) (\<lambda>a0.
        andthen (modify (\<lambda>s. s\<lparr>total_mem_usage := total_mem_usage s - (nargs a0 - 1) * 16\<rparr>))
        (free_sized arg 16)))
      else ret ())"


section \<open>What an array holds\<close>

datatype argv = VNull | VInt i32 | VLong i32 | VDouble u64 | VStr string | VVoid

text \<open>
  The value of an argument, where it has one that can be copied: a string must be a live,
  terminated block; a blob never can be (\<open>nvoid_new_faults\<close>).
\<close>

definition int_view :: "argvalue_t \<Rightarrow> i32 option" where
  "int_view v = (case v of IVal i \<Rightarrow> Some i | ZVal \<Rightarrow> Some 0 | _ \<Rightarrow> None)"

definition dbl_view :: "argvalue_t \<Rightarrow> u64 option" where
  "dbl_view v = (case v of DVal i \<Rightarrow> Some i | ZVal \<Rightarrow> Some 0 | _ \<Rightarrow> None)"

definition str_view :: "world \<Rightarrow> argvalue_t \<Rightarrow> string option" where
  "str_view s v = (case v of
     PVal p \<Rightarrow> (case heap s p of
       Some (OChars b) \<Rightarrow> if p \<noteq> 0 \<and> NUL \<in> set b then Some (c_str b) else None
     | _ \<Rightarrow> None)
   | _ \<Rightarrow> None)"

definition arg_view :: "world \<Rightarrow> arg_t \<Rightarrow> argv option" where
  "arg_view s a = (case arg_type a of
     NULL_TYPE \<Rightarrow> Some VNull
   | VOID_TYPE \<Rightarrow> Some VVoid
   | INT_TYPE \<Rightarrow> map_option VInt (int_view (arg_val a))
   | LONG_TYPE \<Rightarrow> map_option VLong (int_view (arg_val a))
   | DOUBLE_TYPE \<Rightarrow> map_option VDouble (dbl_view (arg_val a))
   | STRING_TYPE \<Rightarrow> map_option VStr (str_view s (arg_val a))
   | NVOID_TYPE \<Rightarrow> None)"

text \<open>The strings an argument owns: at most one.\<close>

definition arg_ptrs :: "arg_t \<Rightarrow> addr list" where
  "arg_ptrs a = (case arg_type a of STRING_TYPE \<Rightarrow> (case arg_val a of PVal p \<Rightarrow> [p] | _ \<Rightarrow> []) | _ \<Rightarrow> [])"

definition args_ptrs :: "arg_t list \<Rightarrow> addr list" where
  "args_ptrs as = concat (map arg_ptrs as)"

text \<open>
  \<open>args_at s p as vs\<close>: at \<open>p\<close> is the array \<open>as\<close>, every element of which carries the array's
  length, and its values are \<open>vs\<close>.
\<close>

definition args_at :: "world \<Rightarrow> addr \<Rightarrow> arg_t list \<Rightarrow> argv list \<Rightarrow> bool" where
  "args_at s p as vs \<longleftrightarrow> heap s p = Some (OArgs as) \<and> as \<noteq> [] \<and> length as < 2 ^ 28
     \<and> list_all (\<lambda>a. nargs a = of_nat (length as)) as \<and> map (arg_view s) as = map Some vs"

text \<open>The bytes of the strings among the values, terminators included.\<close>

fun str_size :: "argv \<Rightarrow> nat" where
  "str_size (VStr x) = Suc (length x)"
| "str_size _ = 0"

definition str_bytes :: "argv list \<Rightarrow> nat" where
  "str_bytes vs = sum_list (map str_size vs)"

lemma str_bytes_simps [simp]:
  "str_bytes [] = 0" "str_bytes (v # vs) = str_size v + str_bytes vs"
  "str_bytes (vs @ ws) = str_bytes vs + str_bytes ws"
  by (simp_all add: str_bytes_def)

lemma args_ptrs_simps [simp]:
  "args_ptrs [] = []" "args_ptrs (a # as) = arg_ptrs a @ args_ptrs as"
  "args_ptrs (as @ bs) = args_ptrs as @ args_ptrs bs"
  by (simp_all add: args_ptrs_def)

lemma arg_view_cong:
  "(\<And>p. p \<in> set (arg_ptrs a) \<Longrightarrow> heap s' p = heap s p) \<Longrightarrow> arg_view s' a = arg_view s a"
  by (auto simp: arg_view_def arg_ptrs_def str_view_def split: argtype_t.splits argvalue_t.splits)

lemma arg_ptrs_live:
  "arg_view s a = Some v \<Longrightarrow> p \<in> set (arg_ptrs a) \<Longrightarrow>
     p \<noteq> 0 \<and> (\<exists>b. heap s p = Some (OChars b) \<and> NUL \<in> set b)"
  by (auto simp: arg_view_def arg_ptrs_def str_view_def
      split: argtype_t.splits argvalue_t.splits option.splits obj.splits if_splits)

text \<open>A view depends only on the array and on the strings it owns.\<close>

lemma args_at_cong:
  assumes "args_at s p as vs" "heap s' p = heap s p"
    and "\<And>q. q \<in> set (args_ptrs as) \<Longrightarrow> heap s' q = heap s q"
  shows "args_at s' p as vs"
proof -
  have "arg_view s' a = arg_view s a" if "a \<in> set as" for a
    by (rule arg_view_cong) (use that assms(3) in \<open>auto simp: args_ptrs_def\<close>)
  then have "map (arg_view s') as = map (arg_view s) as"
    by simp
  with assms(1,2) show ?thesis unfolding args_at_def by metis
qed

lemma args_at_length:
  assumes "args_at s p as vs"
  shows "length vs = length as"
proof -
  have "length (map (arg_view s) as) = length (map Some vs)"
    using assms unfolding args_at_def by metis
  then show ?thesis by simp
qed

lemma args_at_nth:
  assumes "args_at s p as vs" "i < length as"
  shows "arg_view s (as ! i) = Some (vs ! i)" "nargs (as ! i) = of_nat (length as)"
proof -
  have "map (arg_view s) as ! i = map Some vs ! i"
    using assms unfolding args_at_def by metis
  with assms show "arg_view s (as ! i) = Some (vs ! i)"
    by (simp add: args_at_length)
  have "list_all (\<lambda>a. nargs a = of_nat (length as)) as"
    using assms unfolding args_at_def by metis
  with assms(2) show "nargs (as ! i) = of_nat (length as)"
    by (simp add: list_all_length)
qed

lemma args_at_heap: "args_at s p as vs \<Longrightarrow> heap s p = Some (OArgs as)"
  by (simp add: args_at_def)

lemma args_at_bounds: "args_at s p as vs \<Longrightarrow> 0 < length as \<and> length as < 2 ^ 28"
  by (simp add: args_at_def)

lemma args_at_ptrs_live:
  assumes "args_at s p as vs" "q \<in> set (args_ptrs as)"
  shows "q \<noteq> 0 \<and> (\<exists>b. heap s q = Some (OChars b) \<and> NUL \<in> set b)"
proof -
  from assms(2) obtain a where a: "a \<in> set as" "q \<in> set (arg_ptrs a)"
    by (auto simp: args_ptrs_def)
  from a(1) assms(1) obtain v where "arg_view s a = Some v"
    by (auto simp: in_set_conv_nth args_at_nth(1))
  with a(2) show ?thesis by (auto dest: arg_ptrs_live)
qed

lemma args_at_extends:
  assumes "args_at s p as vs" "extends s s'" "wf_mem s"
  shows "args_at s' p as vs"
proof (rule args_at_cong [OF assms(1)])
  from assms(1) have "heap s p = Some (OArgs as)"
    by (simp add: args_at_def)
  with assms(2,3) show "heap s' p = heap s p"
    by (simp add: extends_live)
  fix q assume "q \<in> set (args_ptrs as)"
  with assms(1) obtain b where "heap s q = Some (OChars b)"
    by (blast dest: args_at_ptrs_live)
  with assms(2,3) show "heap s' q = heap s q"
    by (simp add: extends_live)
qed

lemma iterations_of_nat [simp]: "n < 2 ^ 31 \<Longrightarrow> iterations (of_nat n) = n"
  by (simp add: iterations_def)


section \<open>A clone\<close>

lemma int_viewD: "int_view v = Some x \<Longrightarrow> get_ival v = ret x"
  by (cases v) (auto simp: int_view_def)

lemma dbl_viewD: "dbl_view v = Some x \<Longrightarrow> get_dval v = ret x"
  by (cases v) (auto simp: dbl_view_def)

lemma str_viewD:
  "str_view s v = Some x \<Longrightarrow> \<exists>r b. v = PVal r \<and> r \<noteq> 0 \<and> heap s r = Some (OChars b)
     \<and> NUL \<in> set b \<and> c_str b = x"
  by (auto simp: str_view_def split: argvalue_t.splits option.splits obj.splits if_splits)

text \<open>
  What one iteration of the copy leaves: element \<open>i\<close> of the new array has the count and the value
  of the source's element; only the new array and the fresh copy of a string are touched.
\<close>

definition clone_post :: "world \<Rightarrow> world \<Rightarrow> addr \<Rightarrow> arg_t list \<Rightarrow> nat \<Rightarrow> arg_t \<Rightarrow> argv \<Rightarrow> arg_t \<Rightarrow> bool" where
  "clone_post s s' q ds i a v d \<longleftrightarrow> grows {q} s s' \<and> wf_mem s'
    \<and> total_mem_usage s' = total_mem_usage s
    \<and> heap s' q = Some (OArgs (ds[i := d])) \<and> nargs d = nargs a \<and> arg_view s' d = Some v
    \<and> set (arg_ptrs d) \<subseteq> {brk s<..brk s'} \<and> distinct (arg_ptrs d)
    \<and> new_objs s s' (set (arg_ptrs d))"

lemma clone_post_scalar:
  assumes "wf_mem s" "heap s q = Some (OArgs ds)" "nargs d = nargs a"
    and "arg_ptrs d = []" "arg_view s d = Some v"
  shows "clone_post s (s\<lparr>heap := (heap s)(q := Some (OArgs (ds[i := d])))\<rparr>) q ds i a v d"
proof -
  let ?s = "s\<lparr>heap := (heap s)(q := Some (OArgs (ds[i := d])))\<rparr>"
  have "arg_view ?s d = arg_view s d"
    by (rule arg_view_cong) (simp add: assms(4))
  moreover have "wf_mem ?s"
    using assms(1,2) by (rule wf_mem_store)
  moreover have "q \<le> brk s"
    using assms(1,2) by (auto dest: wf_memD)
  ultimately show ?thesis
    using assms by (auto simp: clone_post_def new_objs_def wf_mem_def intro!: grows_store)
qed

lemma clone_post_string:
  assumes "wf_mem s" "heap s q = Some (OArgs ds)"
    and d: "nargs d = nargs a" "arg_type d = STRING_TYPE" "arg_val d = PVal (Suc (brk s))"
  shows "clone_post s (s\<lparr>brk := Suc (brk s), heap := (heap s)
      (Suc (brk s) := Some (OChars (c_str b @ [NUL])), q := Some (OArgs (ds[i := d])))\<rparr>)
    q ds i a (VStr (c_str b)) d"
proof -
  have "q \<le> brk s" "q \<noteq> 0"
    using assms(1,2) by (auto dest: wf_memD)
  then show ?thesis
    using assms(1) d
    by (auto simp: clone_post_def new_objs_def wf_mem_def grows_def arg_ptrs_def arg_view_def
        str_view_def)
qed

lemma clone_elem_ok:
  assumes src: "heap s p = Some (OArgs as)" "i < length as" "arg_view s (as ! i) = Some v"
    and dst: "heap s q = Some (OArgs ds)" "i < length ds" "p \<noteq> q"
    and mem: "wf_mem s" "no_oom s"
  shows "\<exists>s' d. clone_elem p q i s = Inr ((), s') \<and> clone_post s s' q ds i (as ! i) v d"
proof -
  let ?a = "as ! i"
  let ?base = "(ds ! i)\<lparr>arg_type := arg_type ?a, nargs := nargs ?a\<rparr>"
  let ?d = "\<lambda>val. ?base\<lparr>arg_val := val\<rparr>"
  note run = clone_elem_def prog_simps arg_view_def
  have scalar: "\<exists>s' d. clone_elem p q i s = Inr ((), s') \<and> clone_post s s' q ds i ?a v d"
    if "clone_elem p q i s = Inr ((), s\<lparr>heap := (heap s)(q := Some (OArgs (ds[i := d])))\<rparr>)"
      "nargs d = nargs ?a" "arg_ptrs d = []" "arg_view s d = Some v" for d
    using clone_post_scalar [OF mem(1) dst(1) that(2-4)] that(1) by blast
  show ?thesis
  proof (cases "arg_type ?a")
    case NULL_TYPE
    then show ?thesis using src dst
      by (intro scalar [of "?d (IVal 0)"]) (auto simp: run arg_ptrs_def)
  next
    case VOID_TYPE
    then show ?thesis using src dst
      by (intro scalar [of "?base"]) (auto simp: run arg_ptrs_def)
  next
    case INT_TYPE
    with src(3) obtain x where "int_view (arg_val ?a) = Some x" "v = VInt x"
      by (auto simp: arg_view_def)
    with INT_TYPE show ?thesis using src dst
      by (intro scalar [of "?d (IVal x)"]) (auto simp: run arg_ptrs_def int_viewD int_view_def)
  next
    case LONG_TYPE
    with src(3) obtain x where "int_view (arg_val ?a) = Some x" "v = VLong x"
      by (auto simp: arg_view_def)
    with LONG_TYPE show ?thesis using src dst
      by (intro scalar [of "?d (IVal x)"]) (auto simp: run arg_ptrs_def int_viewD int_view_def)
  next
    case DOUBLE_TYPE
    with src(3) obtain x where "dbl_view (arg_val ?a) = Some x" "v = VDouble x"
      by (auto simp: arg_view_def)
    with DOUBLE_TYPE show ?thesis using src dst
      by (intro scalar [of "?d (DVal x)"]) (auto simp: run arg_ptrs_def dbl_viewD dbl_view_def)
  next
    case STRING_TYPE
    with src(3) obtain r b where rb: "arg_val ?a = PVal r" "heap s r = Some (OChars b)"
      "NUL \<in> set b" "v = VStr (c_str b)"
      by (auto simp: arg_view_def dest!: str_viewD)
    have q: "q \<noteq> Suc (brk s)" "r \<noteq> q"
      using dst(1) mem(1) rb(2) by (auto dest: wf_memD)
    have "clone_elem p q i s = Inr ((), s\<lparr>brk := Suc (brk s), heap := (heap s)
      (Suc (brk s) := Some (OChars (c_str b @ [NUL])),
       q := Some (OArgs (ds[i := ?d (PVal (Suc (brk s)))])))\<rparr>)"
      using STRING_TYPE rb src dst mem q by (simp add: run fun_upd_twist)
    with clone_post_string [OF mem(1) dst(1), of "?d (PVal (Suc (brk s)))" ?a b i] STRING_TYPE rb(4)
    show ?thesis by (intro exI conjI) simp_all
  next
    case NVOID_TYPE
    with src(3) show ?thesis by (simp add: arg_view_def)
  qed
qed


text \<open>
  The loop's invariant: after \<open>j\<close> iterations the first \<open>j\<close> elements are written and the others zero, the strings they own
  are distinct and allocated after the array, and nothing else was.
\<close>

definition clone_inv :: "world \<Rightarrow> addr \<Rightarrow> nat \<Rightarrow> argv list \<Rightarrow> nat \<Rightarrow> world \<Rightarrow> bool" where
  "clone_inv s q n vs j t \<longleftrightarrow> (\<exists>ds. length ds = n \<and> grows {q} s t \<and> wf_mem t
    \<and> total_mem_usage t = total_mem_usage s \<and> heap t q = Some (OArgs ds)
    \<and> drop j ds = replicate (n - j) zero_arg
    \<and> map (arg_view t) (take j ds) = map Some (take j vs)
    \<and> list_all (\<lambda>a. nargs a = of_nat n) (take j ds)
    \<and> distinct (args_ptrs (take j ds)) \<and> set (args_ptrs (take j ds)) \<subseteq> {brk s<..brk t}
    \<and> new_objs s t (set (args_ptrs (take j ds))))"

lemma take_Suc_update: "j < length ds \<Longrightarrow> take (Suc j) (ds[j := d]) = take j ds @ [d]"
  by (simp add: take_Suc_conv_app_nth)

lemma args_at_grows:
  assumes "args_at s p as vs" "grows {q} s t" "wf_mem s" "heap s q = Some (OArgs ds)" "p \<noteq> q"
  shows "args_at t p as vs"
proof (rule args_at_cong [OF assms(1)])
  show "heap t p = heap s p"
    using assms args_at_heap [OF assms(1)] by (auto dest: grows_live)
  fix r assume "r \<in> set (args_ptrs as)"
  with assms(1) obtain b where "heap s r = Some (OChars b)"
    by (blast dest: args_at_ptrs_live)
  with assms show "heap t r = heap s r"
    by (auto dest: grows_live)
qed

text \<open>One more element, however it was made.\<close>

lemma clone_inv_extend:
  assumes inv: "clone_inv s q n vs j t" and j: "j < n" and q: "q \<le> brk s" and vs: "length vs = n"
    and step: "\<And>ds. length ds = n \<Longrightarrow> heap t q = Some (OArgs ds) \<Longrightarrow> wf_mem t \<Longrightarrow> grows {q} s t \<Longrightarrow>
      ds ! j = zero_arg \<Longrightarrow>
      \<exists>t' d. run t = Inr (x, t') \<and> clone_post t t' q ds j a (vs ! j) d"
    and a: "nargs a = of_nat n"
  shows "\<exists>t'. run t = Inr (x, t') \<and> clone_inv s q n vs (Suc j) t' \<and> grows {q} t t'"
proof -
  from inv obtain ds where ds: "length ds = n" "grows {q} s t" "wf_mem t"
    "total_mem_usage t = total_mem_usage s" "heap t q = Some (OArgs ds)"
    and zero: "drop j ds = replicate (n - j) zero_arg" and made: "map (arg_view t) (take j ds) = map Some (take j vs)"
    "list_all (\<lambda>a. nargs a = of_nat n) (take j ds)" "distinct (args_ptrs (take j ds))"
    "set (args_ptrs (take j ds)) \<subseteq> {brk s<..brk t}" "new_objs s t (set (args_ptrs (take j ds)))"
    unfolding clone_inv_def by blast
  have "ds ! j = drop j ds ! 0" using j ds(1) by simp
  with zero j have "ds ! j = zero_arg" by simp
  from step [OF ds(1,5,3,2) this] obtain t' d where run: "run t = Inr (x, t')"
    and post: "clone_post t t' q ds j a (vs ! j) d"
    by blast
  have old: "arg_view t' a = arg_view t a" if "a \<in> set (take j ds)" for a
  proof (rule arg_view_cong)
    fix r assume "r \<in> set (arg_ptrs a)"
    with that made(4) have "brk s < r" "r \<le> brk t" by (auto simp: args_ptrs_def)
    then show "heap t' r = heap t r"
      using post q by (auto simp: clone_post_def grows_def)
  qed
  have "clone_inv s q n vs (Suc j) t'"
    unfolding clone_inv_def
  proof (intro exI conjI)
    show "length (ds[j := d]) = n" "heap t' q = Some (OArgs (ds[j := d]))"
      using ds(1) post by (auto simp: clone_post_def)
    have "drop (Suc j) (ds[j := d]) = drop 1 (drop j ds)" by simp
    also have "\<dots> = replicate (n - Suc j) zero_arg" using zero by (simp only: drop_replicate) simp
    finally show "drop (Suc j) (ds[j := d]) = replicate (n - Suc j) zero_arg" .
    show "grows {q} s t'" "wf_mem t'" "total_mem_usage t' = total_mem_usage s"
      using ds(2,4) post by (auto simp: clone_post_def intro: grows_trans)
    have "map (arg_view t') (take j ds) = map (arg_view t) (take j ds)"
      using old by simp
    then show "map (arg_view t') (take (Suc j) (ds[j := d])) = map Some (take (Suc j) vs)"
      using ds(1) made(1) j post vs by (simp add: take_Suc_update clone_post_def take_Suc_conv_app_nth)
    show "list_all (\<lambda>a. nargs a = of_nat n) (take (Suc j) (ds[j := d]))"
      using ds(1) made(2) j post a by (simp add: take_Suc_update clone_post_def)
    show "distinct (args_ptrs (take (Suc j) (ds[j := d])))"
      using ds(1) made(3,4) j post by (fastforce simp: take_Suc_update clone_post_def)
    show "set (args_ptrs (take (Suc j) (ds[j := d]))) \<subseteq> {brk s<..brk t'}"
      using ds(1,2) made(4) j post by (fastforce simp: take_Suc_update clone_post_def grows_def)
    show "new_objs s t' (set (args_ptrs (take (Suc j) (ds[j := d]))))"
      unfolding new_objs_def
    proof (intro allI impI)
      fix r assume r: "brk s < r" "heap t' r \<noteq> None"
      have "q \<noteq> r" using q r(1) by simp
      with r post have "heap t r \<noteq> None \<or> r \<in> set (arg_ptrs d)"
        unfolding clone_post_def grows_def new_objs_def
        by (metis empty_iff insert_iff not_le_imp_less)
      with r ds(1) made(5) j show "r \<in> set (args_ptrs (take (Suc j) (ds[j := d])))"
        by (auto simp: take_Suc_update new_objs_def)
    qed
  qed
  with run post show ?thesis by (auto simp: clone_post_def)
qed

text \<open>The invariant's start, and what it gives at the end of the array.\<close>

lemma clone_inv_start:
  assumes "wf_mem s" "q = brk s" "heap s q = Some (OArgs (replicate n zero_arg))"
  shows "clone_inv s q n vs 0 s"
  using assms unfolding clone_inv_def
  by (intro exI [of _ "replicate n zero_arg"]) (auto simp: new_objs_def wf_mem_def)

lemma clone_inv_done:
  assumes "clone_inv s q n vs n t" "length vs = n" "0 < n" "n < 2 ^ 28"
  shows "\<exists>ds. args_at t q ds vs \<and> length ds = n \<and> distinct (args_ptrs ds)
    \<and> set (args_ptrs ds) \<subseteq> {brk s<..brk t} \<and> new_objs s t (set (args_ptrs ds))
    \<and> grows {q} s t \<and> wf_mem t \<and> total_mem_usage t = total_mem_usage s"
  using assms unfolding clone_inv_def args_at_def by auto

lemma clone_inv_step:
  assumes inv: "clone_inv s q n vs j t" and j: "j < n" and q: "heap s q = Some (OArgs ds0)" "p \<noteq> q"
    and src: "args_at s p as vs" "length as = n" and mem: "wf_mem s" "no_oom s"
  shows "\<exists>t'. clone_elem p q j t = Inr ((), t') \<and> clone_inv s q n vs (Suc j) t'"
proof -
  have vs: "length vs = n" "q \<le> brk s"
    using src q(1) mem(1) by (auto dest: args_at_length wf_memD)
  have "\<exists>t' d. clone_elem p q j t = Inr ((), t') \<and> clone_post t t' q ds j (as ! j) (vs ! j) d"
    if "length ds = n" "heap t q = Some (OArgs ds)" "wf_mem t" "grows {q} s t" for ds
  proof -
    have at: "args_at t p as vs"
      using src(1) that(4) mem(1) q by (rule args_at_grows)
    have "j < length as" "j < length ds" "no_oom t"
      using that(1,4) mem(2) j src(2) by (simp_all add: grows_no_oom)
    with clone_elem_ok [OF args_at_heap [OF at] _ args_at_nth(1) [OF at] that(2) _ q(2) that(3)]
    show ?thesis by blast
  qed
  with clone_inv_extend [OF inv j vs(2,1), of "clone_elem p q j" "()" "as ! j"]
    args_at_nth(2) [OF src(1)] j src(2)
  show ?thesis by blast
qed

text \<open>
  The clone of an array with values \<open>vs\<close>: a fresh array with the same values, whose strings are
  distinct fresh copies; nothing that existed is touched, and nothing else is allocated. Only the
  array is counted in \<open>total_mem_usage\<close>.
\<close>

lemma command_args_clone_ok:
  assumes src: "args_at s p as vs" and mem: "wf_mem s" "no_oom s"
  shows "\<exists>q s' ds. command_args_clone p s = Inr (q, s') \<and> extends s s' \<and> wf_mem s'
    \<and> args_at s' q ds vs \<and> distinct (q # args_ptrs ds)
    \<and> set (q # args_ptrs ds) \<subseteq> {brk s<..brk s'} \<and> new_objs s s' (set (q # args_ptrs ds))
    \<and> total_mem_usage s' = total_mem_usage s + of_nat (length as) * 16"
proof -
  let ?n = "length as"
  define q where "q = Suc (brk s)"
  define s1 where "s1 = s\<lparr>brk := q, heap := (heap s)(q := Some (OArgs (replicate ?n zero_arg))),
    total_mem_usage := total_mem_usage s + of_nat ?n * 16\<rparr>"
  have n: "0 < ?n" "?n < 2 ^ 28" using args_at_bounds [OF src] by auto
  have n0: "nargs (as ! 0) = of_nat ?n" using args_at_nth(2) [OF src n(1)] .
  have p: "p \<le> brk s" "p \<noteq> 0" using args_at_heap [OF src] mem(1) by (auto dest: wf_memD)
  have mem1: "wf_mem s1" "no_oom s1" "heap s1 q = Some (OArgs (replicate ?n zero_arg))" "brk s1 = q"
    using mem by (auto simp: s1_def q_def wf_mem_def)
  have ext: "extends s s1" by (simp add: s1_def q_def grows_def)
  have src1: "args_at s1 p as vs" using src ext mem(1) by (rule args_at_extends)
  have vs: "length vs = ?n" using src by (rule args_at_length)
  have "\<exists>t. for_loop ?n (clone_elem p q) s1 = Inr ((), t) \<and> clone_inv s1 q ?n vs ?n t"
  proof (rule for_loop_total [of "clone_inv s1 q ?n vs"])
    show "clone_inv s1 q ?n vs 0 s1" using mem1(1) mem1(4) [symmetric] mem1(3) by (rule clone_inv_start)
    fix j t assume "clone_inv s1 q ?n vs j t" "j < ?n"
    then show "\<exists>t'. clone_elem p q j t = Inr ((), t') \<and> clone_inv s1 q ?n vs (Suc j) t'"
      using clone_inv_step [OF _ _ mem1(3) _ src1] p mem1 by (simp add: q_def)
  qed
  then obtain t where t: "for_loop ?n (clone_elem p q) s1 = Inr ((), t)" "clone_inv s1 q ?n vs ?n t"
    by blast
  from clone_inv_done [OF t(2) vs n] obtain ds where ds: "args_at t q ds vs" "length ds = ?n"
    "distinct (args_ptrs ds)" "set (args_ptrs ds) \<subseteq> {brk s1<..brk t}" "new_objs s1 t (set (args_ptrs ds))"
    "grows {q} s1 t" "wf_mem t" "total_mem_usage t = total_mem_usage s1"
    by blast
  have "command_args_clone p s = Inr (q, t)"
    using p n n0 t(1) args_at_heap [OF src] mem(2)
    by (simp add: command_args_clone_def calloc_args_def prog_simps s1_def q_def)
  moreover have "extends s t"
    using grows_trans [OF grows_mono [OF ext] ds(6)] by (rule grows_fresh) (auto simp: q_def)
  moreover have "new_objs s t (set (q # args_ptrs ds))"
    using ds(5) mem1(4) unfolding new_objs_def q_def by (metis Suc_lessI list.set_intros)
  moreover have "q \<le> brk t" using ds(6) mem1(4) by (auto dest: grows_brk)
  ultimately show ?thesis
    using ds mem1(4) by (intro exI [of _ q] exI [of _ t] exI [of _ ds]) (auto simp: q_def s1_def)
qed

section \<open>A release\<close>

text \<open>The objects of \<open>A\<close> are released and \<open>n\<close> bytes are subtracted.\<close>

definition released :: "addr set \<Rightarrow> i32 \<Rightarrow> world \<Rightarrow> world" where
  "released A n s = s\<lparr>heap := (\<lambda>r. if r \<in> A then None else heap s r),
     total_mem_usage := total_mem_usage s - n\<rparr>"

lemma released_simps [simp]:
  "heap (released A n s) r = (if r \<in> A then None else heap s r)"
  "brk (released A n s) = brk s" "oom (released A n s) = oom s"
  "total_mem_usage (released A n s) = total_mem_usage s - n"
  "trace (released A n s) = trace s" "cmd_id (released A n s) = cmd_id s"
  "global_tboard (released A n s) = global_tboard s"
  "no_oom (released A n s) = no_oom s" "other_statics (released A n s) = other_statics s"
  by (simp_all add: released_def no_oom_def)

lemma released_none [simp]: "released {} 0 s = s"
  by (simp add: released_def)

lemma released_released: "released A m (released B n s) = released (A \<union> B) (n + m) s"
  by (auto simp: released_def fun_eq_iff algebra_simps intro!: arg_cong2 [where f = heap_update])

lemma wf_mem_released [simp]: "wf_mem s \<Longrightarrow> wf_mem (released A n s)"
  by (simp add: wf_mem_def)

lemma free_elem_ok:
  assumes "heap s p = Some (OArgs as)" "i < length as" "arg_view s (as ! i) = Some v"
  shows "free_elem p i s = Inr ((), released (set (arg_ptrs (as ! i))) (of_nat (str_size v)) s)"
proof (cases "arg_type (as ! i) = STRING_TYPE")
  case True
  with assms(3) obtain r b where rb: "arg_val (as ! i) = PVal r" "r \<noteq> 0" "heap s r = Some (OChars b)"
    "NUL \<in> set b" "v = VStr (c_str b)"
    by (auto simp: arg_view_def dest!: str_viewD)
  have "(heap s)(r := None) = (\<lambda>x. if x = r then None else heap s x)"
    by auto
  with True rb assms show ?thesis
    by (simp add: free_elem_def prog_simps arg_ptrs_def released_def)
next
  case False
  with assms show ?thesis
    by (auto simp: free_elem_def prog_simps arg_view_def arg_ptrs_def split: argtype_t.splits)
qed

text \<open>
  A loop that releases, at every index, the string of that element. The strings an array owns are
  pairwise distinct, and not the array.
\<close>

lemma free_loop_ok:
  assumes at: "args_at s p as vs" and dist: "distinct (p # args_ptrs as)"
    and elem: "\<And>t i v. heap t p = Some (OArgs as) \<Longrightarrow> i < length as \<Longrightarrow> arg_view t (as ! i) = Some v \<Longrightarrow>
      fe i t = Inr ((), released (set (arg_ptrs (as ! i))) (of_nat (str_size v)) t)"
  shows "for_loop (length as) fe s = Inr ((), released (set (args_ptrs as)) (of_nat (str_bytes vs)) s)"
proof -
  let ?n = "length as"
  let ?I = "\<lambda>j t. t = released (set (args_ptrs (take j as))) (of_nat (str_bytes (take j vs))) s"
  have vs: "length vs = ?n" using at by (rule args_at_length)
  have "\<exists>t. for_loop ?n fe s = Inr ((), t) \<and> ?I ?n t"
  proof (rule for_loop_total [of ?I])
    show "?I 0 s" by simp
    fix j t assume t: "?I j t" and j: "j < ?n"
    have split: "args_ptrs as = args_ptrs (take j as) @ arg_ptrs (as ! j) @ args_ptrs (drop (Suc j) as)"
      using j by (metis append.assoc args_ptrs_simps(2,3) append_take_drop_id Cons_nth_drop_Suc)
    have "p \<notin> set (args_ptrs (take j as))"
      using dist by (metis distinct.simps(2) split UnCI set_append)
    then have "heap t p = Some (OArgs as)"
      using t args_at_heap [OF at] by simp
    moreover have "arg_view t (as ! j) = Some (vs ! j)"
    proof -
      have "set (arg_ptrs (as ! j)) \<inter> set (args_ptrs (take j as)) = {}"
        using dist by (subst (asm) split) auto
      then have "arg_view t (as ! j) = arg_view s (as ! j)"
        using t by (intro arg_view_cong) auto
      with args_at_nth(1) [OF at j] show ?thesis by simp
    qed
    ultimately have "fe j t = Inr ((), released (set (arg_ptrs (as ! j))) (of_nat (str_size (vs ! j))) t)"
      using elem j by blast
    moreover have "released (set (arg_ptrs (as ! j))) (of_nat (str_size (vs ! j))) t
        = released (set (args_ptrs (take (Suc j) as))) (of_nat (str_bytes (take (Suc j) vs))) s"
      using t j vs by (simp add: released_released take_Suc_conv_app_nth Un_commute)
    ultimately show "\<exists>t'. fe j t = Inr ((), t') \<and> ?I (Suc j) t'" by blast
  qed
  with vs show ?thesis by simp
qed

lemma inner_free_ok:
  assumes at: "args_at s p as vs" and dist: "distinct (p # args_ptrs as)" and p: "p \<noteq> 0"
  shows "command_arg_inner_free p s = Inr ((), released (set (args_ptrs as)) (of_nat (str_bytes vs)) s)"
proof -
  have "for_loop (length as) (free_elem p) s
      = Inr ((), released (set (args_ptrs as)) (of_nat (str_bytes vs)) s)"
    using at dist free_elem_ok by (rule free_loop_ok)
  then show ?thesis
    using p args_at_bounds [OF at] args_at_nth(2) [OF at, of 0] args_at_heap [OF at]
    by (simp add: command_arg_inner_free_def prog_simps)
qed

text \<open>A release frees the array and the strings it owns, no more and no less.\<close>

lemma command_args_free_ok:
  assumes at: "args_at s p as vs" and dist: "distinct (p # args_ptrs as)" and p: "p \<noteq> 0"
  shows "command_args_free p s = Inr ((), released (set (p # args_ptrs as))
     (of_nat (length as) * 16 + of_nat (str_bytes vs)) s)"
proof -
  have "heap s p = Some (OArgs as)" "0 < length as" "nargs (as ! 0) = of_nat (length as)"
    using args_at_heap [OF at] args_at_bounds [OF at] args_at_nth(2) [OF at, of 0] by auto
  then show ?thesis
    using inner_free_ok [OF at dist p] p dist
    by (auto simp: command_args_free_def prog_simps released_def fun_eq_iff algebra_simps
        intro!: arg_cong2 [where f = heap_update])
qed

section \<open>An array filled from variadic arguments\<close>

text \<open>
  The values a signature of strings, integers and doubles takes from the variadic arguments;
  \<open>None\<close> if they do not match it, or a string is not a live terminated block.
\<close>

fun va_vals :: "world \<Rightarrow> string \<Rightarrow> vararg list \<Rightarrow> argv list option" where
  "va_vals s [] vs = Some []"
| "va_vals s (c # cs) (VaPtr p # vs) = (if c = CHR ''s'' then
     (case str_view s (PVal p) of Some x \<Rightarrow> map_option (Cons (VStr x)) (va_vals s cs vs) | None \<Rightarrow> None)
     else None)"
| "va_vals s (c # cs) (VaInt i # vs) = (if c = CHR ''i'' then map_option (Cons (VInt i)) (va_vals s cs vs)
     else None)"
| "va_vals s (c # cs) (VaDouble d # vs) = (if c = CHR ''f'' then map_option (Cons (VDouble d)) (va_vals s cs vs)
     else None)"
| "va_vals s (c # cs) [] = None"

lemma va_vals_length: "va_vals s cs vs = Some ws \<Longrightarrow> length ws = length cs"
  by (induction s cs vs arbitrary: ws rule: va_vals.induct) (auto split: if_splits option.splits)

lemma va_vals_extends:
  "va_vals s cs vs = Some ws \<Longrightarrow> extends s t \<Longrightarrow> wf_mem s \<Longrightarrow> va_vals t cs vs = Some ws"
proof (induction s cs vs arbitrary: ws rule: va_vals.induct)
  case (2 s c cs p vs)
  then obtain x xs where x: "c = CHR ''s''" "str_view s (PVal p) = Some x" "va_vals s cs vs = Some xs"
    "ws = VStr x # xs"
    by (auto split: if_splits option.splits)
  then have "str_view t (PVal p) = Some x"
    using 2(3,4) by (auto simp: str_view_def dest: extends_live split: option.splits obj.splits if_splits)
  with x 2 show ?case by simp
qed (auto split: if_splits)

text \<open>What the loop relies on: how the switch treats these three letters.\<close>

locale vararg_switch =
  fixes sw :: "char \<Rightarrow> addr \<Rightarrow> nat \<Rightarrow> vararg list \<Rightarrow> vararg list c_prog"
  assumes sw_string: "sw (CHR ''s'') = fill_string"
    and sw_int: "sw (CHR ''i'') = fill_int"
    and sw_double: "sw (CHR ''f'') = fill_double"
begin

lemma fill_elem:
  assumes vals: "va_vals s (c # cs) vs = Some (v # ws)"
    and q: "heap s q = Some (OArgs ds0)" and t: "grows {q} s t" "wf_mem t" "wf_mem s" "no_oom s"
    and ds: "heap t q = Some (OArgs ds)" "i < length ds"
  shows "\<exists>vs' t' d. bnd (sw c q i vs) (\<lambda>vs'. andthen (update_arg q i (\<lambda>a. a\<lparr>nargs := n\<rparr>)) (ret vs')) t
      = Inr (vs', t') \<and> clone_post t t' q ds i (zero_arg\<lparr>nargs := n\<rparr>) v d \<and> va_vals s cs vs' = Some ws"
proof (cases vs)
  case Nil
  with vals show ?thesis by simp
next
  case (Cons a vs')
  let ?a = "zero_arg\<lparr>nargs := n\<rparr>"
  let ?d = "\<lambda>val ty. (ds ! i)\<lparr>arg_val := val, arg_type := ty, nargs := n\<rparr>"
  have oom: "no_oom t" using t by (simp add: grows_no_oom)
  show ?thesis
  proof (cases a)
    case (VaInt x)
    with Cons vals have c: "c = CHR ''i''" "v = VInt x" "va_vals s cs vs' = Some ws"
      by (auto split: if_splits)
    have "clone_post t (t\<lparr>heap := (heap t)(q := Some (OArgs (ds[i := ?d (IVal x) INT_TYPE])))\<rparr>)
        q ds i ?a v (?d (IVal x) INT_TYPE)"
      using t(2) ds(1) c by (intro clone_post_scalar) (auto simp: arg_ptrs_def arg_view_def int_view_def)
    moreover have "bnd (sw c q i vs) (\<lambda>vs'. andthen (update_arg q i (\<lambda>a. a\<lparr>nargs := n\<rparr>)) (ret vs')) t
        = Inr (vs', t\<lparr>heap := (heap t)(q := Some (OArgs (ds[i := ?d (IVal x) INT_TYPE])))\<rparr>)"
      using Cons VaInt c ds by (simp add: sw_int fill_int_def prog_simps)
    ultimately show ?thesis using c(3) by blast
  next
    case (VaDouble x)
    with Cons vals have c: "c = CHR ''f''" "v = VDouble x" "va_vals s cs vs' = Some ws"
      by (auto split: if_splits)
    have "clone_post t (t\<lparr>heap := (heap t)(q := Some (OArgs (ds[i := ?d (DVal x) DOUBLE_TYPE])))\<rparr>)
        q ds i ?a v (?d (DVal x) DOUBLE_TYPE)"
      using t(2) ds(1) c by (intro clone_post_scalar) (auto simp: arg_ptrs_def arg_view_def dbl_view_def)
    moreover have "bnd (sw c q i vs) (\<lambda>vs'. andthen (update_arg q i (\<lambda>a. a\<lparr>nargs := n\<rparr>)) (ret vs')) t
        = Inr (vs', t\<lparr>heap := (heap t)(q := Some (OArgs (ds[i := ?d (DVal x) DOUBLE_TYPE])))\<rparr>)"
      using Cons VaDouble c ds by (simp add: sw_double fill_double_def prog_simps)
    ultimately show ?thesis using c(3) by blast
  next
    case (VaPtr r)
    with Cons vals obtain x where c: "c = CHR ''s''" "v = VStr x" "va_vals s cs vs' = Some ws"
      "str_view s (PVal r) = Some x"
      by (auto split: if_splits option.splits)
    from str_viewD [OF c(4)] obtain b where b: "heap s r = Some (OChars b)" "NUL \<in> set b" "c_str b = x"
      by auto
    have r: "heap t r = Some (OChars b)"
      by (rule grows_live [OF t(1,3) b(1)]) (use b(1) q in auto)
    have "q \<noteq> Suc (brk t)" using ds(1) t(2) by (auto dest: wf_memD)
    then have "bnd (sw c q i vs) (\<lambda>vs'. andthen (update_arg q i (\<lambda>a. a\<lparr>nargs := n\<rparr>)) (ret vs')) t
        = Inr (vs', t\<lparr>brk := Suc (brk t), heap := (heap t)(Suc (brk t) := Some (OChars (c_str b @ [NUL])),
            q := Some (OArgs (ds[i := ?d (PVal (Suc (brk t))) STRING_TYPE])))\<rparr>)"
      using Cons VaPtr c ds b r oom by (simp add: sw_string fill_string_def prog_simps)
    with clone_post_string [OF t(2) ds(1), of "?d (PVal (Suc (brk t))) STRING_TYPE" ?a b i] b(3) c
    show ?thesis by (intro exI conjI) simp_all
  qed
qed

lemma fill_loop:
  assumes q: "heap s q = Some (OArgs ds0)" "wf_mem s" "no_oom s" and vals: "length vals = n"
  shows "clone_inv s q n vals i t \<Longrightarrow> i + length cs = n \<Longrightarrow> va_vals s cs vs = Some (drop i vals) \<Longrightarrow>
    \<exists>t'. fill_loop sw cs q i (of_nat n) vs t = Inr ((), t') \<and> clone_inv s q n vals n t'"
proof (induction cs arbitrary: i vs t)
  case Nil
  then show ?case by (simp add: prog_simps)
next
  case (Cons c cs)
  let ?run = "bnd (sw c q i vs) (\<lambda>vs'. andthen (update_arg q i (\<lambda>a. a\<lparr>nargs := of_nat n\<rparr>)) (ret vs'))"
  have i: "i < n" using Cons.prems(2) by simp
  then have split: "drop i vals = vals ! i # drop (Suc i) vals"
    using vals by (simp add: Cons_nth_drop_Suc)
  have inv: "\<exists>ds. length ds = n \<and> heap t q = Some (OArgs ds) \<and> wf_mem t \<and> grows {q} s t"
    using Cons.prems(1) unfolding clone_inv_def by blast
  have step: "\<exists>vs' t' d. ?run t = Inr (vs', t')
      \<and> clone_post t t' q ds i (zero_arg\<lparr>nargs := of_nat n\<rparr>) (vals ! i) d
      \<and> va_vals s cs vs' = Some (drop (Suc i) vals)"
    if "length ds = n" "heap t q = Some (OArgs ds)" "wf_mem t" "grows {q} s t" for ds
    using Cons.prems(3) that i q unfolding split by (intro fill_elem) auto
  from inv step obtain vs' t' where run: "?run t = Inr (vs', t')" "va_vals s cs vs' = Some (drop (Suc i) vals)"
    by blast
  have "\<exists>t'. ?run t = Inr (vs', t') \<and> clone_inv s q n vals (Suc i) t' \<and> grows {q} t t'"
  proof (rule clone_inv_extend [OF Cons.prems(1) i _ vals])
    show "q \<le> brk s" using q by (auto dest: wf_memD)
    show "nargs (zero_arg\<lparr>nargs := of_nat n\<rparr>) = of_nat n" by simp
    fix ds assume "length ds = n" "heap t q = Some (OArgs ds)" "wf_mem t" "grows {q} s t"
    from step [OF this] run(1)
    show "\<exists>t' d. ?run t = Inr (vs', t') \<and> clone_post t t' q ds i (zero_arg\<lparr>nargs := of_nat n\<rparr>) (vals ! i) d"
      by (metis Inr_inject prod.inject)
  qed
  with run(1) have inv': "clone_inv s q n vals (Suc i) t'" by auto
  have "Suc i + length cs = n" using Cons.prems(2) by simp
  with Cons.IH [OF inv' this run(2)] run(1) show ?case
    by (auto simp: prog_simps split: sum.splits)
qed

lemma filled:
  assumes mem: "wf_mem s" "no_oom s" and vals: "va_vals s cs vs = Some vals"
    and n: "0 < length cs" "length cs < 2 ^ 28"
  shows "\<exists>q t ds. bnd (calloc_args (of_nat (length cs))) (\<lambda>q.
        andthen (fill_loop sw cs q 0 (of_nat (length cs)) vs) (ret q)) s = Inr (q, t)
    \<and> extends s t \<and> wf_mem t \<and> args_at t q ds vals \<and> distinct (q # args_ptrs ds)
    \<and> set (q # args_ptrs ds) \<subseteq> {brk s<..brk t} \<and> new_objs s t (set (q # args_ptrs ds))
    \<and> total_mem_usage t = total_mem_usage s + of_nat (length cs) * 16 \<and> length ds = length cs"
proof -
  let ?n = "length cs"
  define q where "q = Suc (brk s)"
  define s1 where "s1 = s\<lparr>brk := q, heap := (heap s)(q := Some (OArgs (replicate ?n zero_arg))),
    total_mem_usage := total_mem_usage s + of_nat ?n * 16\<rparr>"
  have mem1: "wf_mem s1" "no_oom s1" "heap s1 q = Some (OArgs (replicate ?n zero_arg))" "q = brk s1"
    using mem by (auto simp: s1_def q_def wf_mem_def)
  have ext: "extends s s1" by (simp add: s1_def q_def grows_def)
  have len: "length vals = ?n" using vals by (rule va_vals_length)
  have "va_vals s1 cs vs = Some (drop 0 vals)" using va_vals_extends [OF vals ext mem(1)] by simp
  from fill_loop [OF mem1(3,1,2) len clone_inv_start [OF mem1(1,4,3)] _ this]
  obtain t where t: "fill_loop sw cs q 0 (of_nat ?n) vs s1 = Inr ((), t)" "clone_inv s1 q ?n vals ?n t"
    by auto
  from clone_inv_done [OF t(2) len n] obtain ds where ds: "args_at t q ds vals" "length ds = ?n"
    "distinct (args_ptrs ds)" "set (args_ptrs ds) \<subseteq> {brk s1<..brk t}" "new_objs s1 t (set (args_ptrs ds))"
    "grows {q} s1 t" "wf_mem t" "total_mem_usage t = total_mem_usage s1"
    by blast
  have "bnd (calloc_args (of_nat ?n)) (\<lambda>q. andthen (fill_loop sw cs q 0 (of_nat ?n) vs) (ret q)) s
      = Inr (q, t)"
    using t(1) n mem(2) by (simp add: calloc_args_def prog_simps q_def s1_def)
  moreover have "extends s t"
    using grows_trans [OF grows_mono [OF ext] ds(6)] by (rule grows_fresh) (auto simp: q_def)
  moreover have "new_objs s t (set (q # args_ptrs ds))"
    using ds(5) mem1(4) unfolding new_objs_def q_def by (metis Suc_lessI list.set_intros)
  moreover have "q \<le> brk t" using ds(6) mem1(4) by (auto dest: grows_brk)
  ultimately show ?thesis
    using ds mem1(4) by (intro exI [of _ q] exI [of _ t] exI [of _ ds]) (auto simp: q_def s1_def)
qed

end

interpretation new_sw: vararg_switch new_switch
  by unfold_locales (simp_all add: new_switch_def fun_eq_iff)

interpretation qargs_sw: vararg_switch qargs_switch
  by unfold_locales (simp_all add: qargs_switch_def fun_eq_iff)

text \<open>
  \<open>command_qargs_alloc\<close> on a matching signature: a fresh array with the values, its strings copied.
\<close>

lemma command_qargs_alloc_ok:
  assumes "wf_mem s" "no_oom s" "va_vals s fmt vs = Some vals" "0 < length fmt" "length fmt < 2 ^ 28"
  shows "\<exists>q t ds. command_qargs_alloc fmt vs s = Inr (Some q, t)
    \<and> extends s t \<and> wf_mem t \<and> args_at t q ds vals \<and> distinct (q # args_ptrs ds)
    \<and> set (q # args_ptrs ds) \<subseteq> {brk s<..brk t} \<and> new_objs s t (set (q # args_ptrs ds))
    \<and> total_mem_usage t = total_mem_usage s + of_nat (length fmt) * 16"
proof -
  from qargs_sw.filled [OF assms] obtain q t ds where run:
    "bnd (calloc_args (of_nat (length fmt))) (\<lambda>q.
        andthen (fill_loop qargs_switch fmt q 0 (of_nat (length fmt)) vs) (ret q)) s = Inr (q, t)"
    and post: "extends s t" "wf_mem t" "args_at t q ds vals" "distinct (q # args_ptrs ds)"
    "set (q # args_ptrs ds) \<subseteq> {brk s<..brk t}" "new_objs s t (set (q # args_ptrs ds))"
    "total_mem_usage t = total_mem_usage s + of_nat (length fmt) * 16"
    by blast
  from run obtain t0 where "calloc_args (of_nat (length fmt)) s = Inr (q, t0)"
    "fill_loop qargs_switch fmt q 0 (of_nat (length fmt)) vs t0 = Inr ((), t)"
    by (auto simp: bnd_Inr_iff andthen_Inr_iff ret_app)
  then have "command_qargs_alloc fmt vs s = Inr (Some q, t)"
    using assms(4,5) by (simp add: command_qargs_alloc_def Let_def prog_simps)
  with post show ?thesis by blast
qed

text \<open>An empty format allocates nothing and returns \<open>false\<close>.\<close>

lemma command_qargs_alloc_empty: "command_qargs_alloc [] vs s = Inr (None, s)"
  by (simp add: command_qargs_alloc_def prog_simps)

end
