(* ===== verification/Task.thy ===== *)
theory Task
  imports Args
begin

text \<open>
  Tasks and their instances (\<open>src/task.c\<close>). A task keeps \<open>MAX_INSTANCES\<close> pointers to instances, an
  instance a pointer back to its task; both are objects on the heap. \<open>task_ok\<close> is the well-formedness
  of a task with its instances, \<open>inst_map\<close> the abstract view of its slots: the instance of each serial
  id.
\<close>

section \<open>The functions\<close>

definition char_to_argtype :: "char \<Rightarrow> argtype_t" where
  "char_to_argtype c =
     (if c = CHR ''n'' then NVOID_TYPE
      else if c = CHR ''s'' then STRING_TYPE
      else if c = CHR ''i'' then INT_TYPE
      else if c = CHR ''f'' then DOUBLE_TYPE
      else NULL_TYPE)"

definition zero_task :: task_t where
  "zero_task = \<lparr>t_name = [], t_return_type = NULL_TYPE, t_fn_argsig = [], t_entry_point = 0,
     instances = replicate MAX_INSTANCES 0, num_instances = 0\<rparr>"

definition zero_inst :: task_instance_t where
  "zero_inst = \<lparr>is_running = False, has_finished = False, serial_id = 0, task_handle_frtos = 0,
     i_return_arg = 0, i_args = 0, parent_task = 0\<rparr>"

definition task_instance_args_destroy :: "addr \<Rightarrow> unit c_prog" where
  "task_instance_args_destroy inst =
     bnd (load as_inst inst) (\<lambda>i.
     bnd (get_arg (i_args i) 0) (\<lambda>a0.
     andthen (modify (\<lambda>s. s\<lparr>total_mem_usage := total_mem_usage s - (nargs a0 - 1) * 16\<rparr>))
     (andthen (free_sized (i_args i) 16)
     (update_inst inst (\<lambda>i. i\<lparr>i_args := 0\<rparr>)))))"

definition task_create :: "string \<Rightarrow> argtype_t \<Rightarrow> string \<Rightarrow> nat \<Rightarrow> addr c_prog" where
  "task_create name return_type fn_argsig entry_point =
     bnd (calloc (OTask zero_task) 40) (\<lambda>task.
     if task = 0 then ret 0
     else andthen (update_task task (\<lambda>t. t\<lparr>t_name := name, t_return_type := return_type,
         t_fn_argsig := fn_argsig, t_entry_point := entry_point,
         instances := replicate MAX_INSTANCES 0, num_instances := 0\<rparr>))
       (ret task))"

text \<open>The loop that finds a slot; the result says whether no duplicate was met before one.\<close>

primrec place_instance :: "nat \<Rightarrow> nat \<Rightarrow> addr \<Rightarrow> addr \<Rightarrow> bool c_prog" where
  "place_instance 0 i task inst = ret True"
| "place_instance (Suc k) i task inst =
     bnd (load as_task task) (\<lambda>t. bnd (idx (instances t) i) (\<lambda>q.
     if q \<noteq> 0 then
       bnd (load as_inst q) (\<lambda>iq. bnd (load as_inst inst) (\<lambda>ii.
       if serial_id iq = serial_id ii then ret False
       else place_instance k (Suc i) task inst))
     else andthen (update_task task (\<lambda>t. t\<lparr>instances := (instances t)[i := inst]\<rparr>)) (ret True)))"

definition task_instance_create :: "addr \<Rightarrow> u32 \<Rightarrow> addr c_prog" where
  "task_instance_create parent serial =
     (if parent = 0 then ret 0 else
      bnd (load as_task parent) (\<lambda>t.
      if of_nat MAX_INSTANCES \<le> num_instances t then ret 0 else
      bnd (calloc (OInst zero_inst) 24) (\<lambda>inst.
      bnd (calloc (OArgs [zero_arg]) 16) (\<lambda>ra.
      if inst = 0 \<or> ra = 0 then ret 0 else
      andthen (update_inst inst (\<lambda>i. i\<lparr>i_return_arg := ra, has_finished := False, is_running := False\<rparr>))
      (andthen (update_arg ra 0 (\<lambda>a. a\<lparr>arg_type := t_return_type t, nargs := 1\<rparr>))
      (andthen (update_inst inst (\<lambda>i. i\<lparr>task_handle_frtos := 0, serial_id := serial,
          parent_task := parent, i_args := 0\<rparr>))
      (bnd (place_instance MAX_INSTANCES 0 parent inst) (\<lambda>ok.
      if ok then andthen (update_task parent (\<lambda>t. t\<lparr>num_instances := num_instances t + 1\<rparr>)) (ret inst)
      else andthen (free_sized ra 16) (andthen (free_sized inst 24) (ret 0))))))))))"

text \<open>\<open>None\<close> is \<open>-1\<close>.\<close>

primrec find_instance :: "nat \<Rightarrow> nat \<Rightarrow> addr \<Rightarrow> u32 \<Rightarrow> nat option c_prog" where
  "find_instance 0 i task serial = ret None"
| "find_instance (Suc k) i task serial =
     bnd (load as_task task) (\<lambda>t. bnd (idx (instances t) i) (\<lambda>q.
     if q \<noteq> 0 then
       bnd (load as_inst q) (\<lambda>iq.
       if serial_id iq = serial then ret (Some i) else find_instance k (Suc i) task serial)
     else find_instance k (Suc i) task serial))"

definition task_get_instance_index :: "addr \<Rightarrow> u32 \<Rightarrow> nat option c_prog" where
  "task_get_instance_index task serial =
     (if task = 0 then ret None else find_instance MAX_INSTANCES 0 task serial)"

definition task_instance_destroy :: "addr \<Rightarrow> unit c_prog" where
  "task_instance_destroy inst =
     (if inst = 0 then ret () else
      bnd (load as_inst inst) (\<lambda>ii.
      bnd (task_get_instance_index (parent_task ii) (serial_id ii)) (\<lambda>r.
      case r of
        None \<Rightarrow> ret ()
      | Some i \<Rightarrow>
        andthen (update_task (parent_task ii) (\<lambda>t. t\<lparr>instances := (instances t)[i := 0]\<rparr>))
        (andthen (update_task (parent_task ii) (\<lambda>t. t\<lparr>num_instances := num_instances t - 1\<rparr>))
        (andthen (if i_return_arg ii \<noteq> 0 then free_sized (i_return_arg ii) 16 else ret ())
        (andthen (if i_args ii \<noteq> 0 then task_instance_args_destroy inst else ret ())
        (free_sized inst 24)))))))"

definition destroy_slot :: "addr \<Rightarrow> nat \<Rightarrow> unit c_prog" where
  "destroy_slot task i = bnd (load as_task task) (\<lambda>t. bnd (idx (instances t) i) (\<lambda>q.
     if q \<noteq> 0 then task_instance_destroy q else ret ()))"

definition task_destroy :: "addr \<Rightarrow> unit c_prog" where
  "task_destroy task =
     (if task = 0 then ret ()
      else andthen (for_loop MAX_INSTANCES (destroy_slot task)) (free_sized task 40))"

definition task_instance_get_args :: "addr \<Rightarrow> addr c_prog" where
  "task_instance_get_args inst =
     (if inst = 0 then ret 0 else bnd (load as_inst inst) (\<lambda>i. command_args_clone (i_args i)))"

definition task_instance_get_return_args :: "addr \<Rightarrow> addr c_prog" where
  "task_instance_get_return_args inst =
     (if inst = 0 then ret 0 else bnd (load as_inst inst) (\<lambda>i. command_args_clone (i_return_arg i)))"

definition task_instance_set_return_arg :: "addr \<Rightarrow> addr \<Rightarrow> unit c_prog" where
  "task_instance_set_return_arg inst return_arg =
     (if inst = 0 then ret () else
      bnd (load as_inst inst) (\<lambda>i.
      if i_return_arg i = 0 then ret () else
      bnd (get_arg return_arg 0) (\<lambda>a. bnd (get_arg (i_return_arg i) 0) (\<lambda>r.
      if arg_type a \<noteq> arg_type r then ret ()
      else update_arg (i_return_arg i) 0 (\<lambda>r. r\<lparr>arg_type := arg_type a, arg_val := arg_val a\<rparr>)))))"

text \<open>The copying loop; \<open>False\<close> when it fails, after releasing the instance's array.\<close>

primrec copy_args :: "nat \<Rightarrow> nat \<Rightarrow> addr \<Rightarrow> addr \<Rightarrow> i32 \<Rightarrow> bool c_prog" where
  "copy_args 0 i inst args num_args = ret True"
| "copy_args (Suc k) i inst args num_args =
     bnd (load as_inst inst) (\<lambda>ii. bnd (load as_task (parent_task ii)) (\<lambda>t.
     bnd (idx (t_fn_argsig t @ [NUL]) i) (\<lambda>c. bnd (get_arg args i) (\<lambda>a.
     if char_to_argtype c \<noteq> arg_type a then andthen (task_instance_args_destroy inst) (ret False)
     else if nargs a \<noteq> num_args then andthen (task_instance_args_destroy inst) (ret False)
     else andthen (update_arg (i_args ii) i (\<lambda>_. a)) (copy_args k (Suc i) inst args num_args)))))"

definition task_instance_set_args :: "addr \<Rightarrow> addr \<Rightarrow> bool c_prog" where
  "task_instance_set_args inst args =
     (if inst = 0 then ret False
      else if args = 0 then andthen (update_inst inst (\<lambda>i. i\<lparr>i_args := 0\<rparr>)) (ret True)
      else
        bnd (get_arg args 0) (\<lambda>a0. let num_args = nargs a0 in
        bnd (load as_inst inst) (\<lambda>ii. bnd (load as_task (parent_task ii)) (\<lambda>t.
        if length (t_fn_argsig t) \<noteq> unat num_args \<or> of_nat MAX_ARGS \<le>s num_args then ret False
        else
          andthen (if i_args ii = 0 then bnd (calloc_args num_args) (\<lambda>q.
              update_inst inst (\<lambda>i. i\<lparr>i_args := q\<rparr>)) else ret ())
          (copy_args (iterations num_args) 0 inst args num_args)))))"

section \<open>A task and its instances\<close>

definition serial_of :: "world \<Rightarrow> addr \<Rightarrow> u32 option" where
  "serial_of s q = (case heap s q of Some (OInst i) \<Rightarrow> Some (serial_id i) | _ \<Rightarrow> None)"

abbreviation live_slots :: "task_t \<Rightarrow> addr list" where
  "live_slots t \<equiv> filter (\<lambda>q. q \<noteq> 0) (instances t)"

text \<open>
  The instances of a task are live and belong to it, each with a return argument and an array of
  arguments (or none) of its own; the counter counts them.
\<close>

definition inst_args_ok :: "world \<Rightarrow> addr \<Rightarrow> bool" where
  "inst_args_ok s q \<longleftrightarrow> q = 0 \<or> (\<exists>as. heap s q = Some (OArgs as) \<and> as \<noteq> [] \<and> nargs (as ! 0) = of_nat (length as))"

definition inst_ok :: "world \<Rightarrow> addr \<Rightarrow> addr \<Rightarrow> bool" where
  "inst_ok s p q \<longleftrightarrow> (\<exists>i a. heap s q = Some (OInst i) \<and> parent_task i = p
     \<and> heap s (i_return_arg i) = Some (OArgs [a]) \<and> inst_args_ok s (i_args i))"

definition inst_ptrs :: "world \<Rightarrow> addr \<Rightarrow> addr list" where
  "inst_ptrs s q = (case heap s q of
     Some (OInst i) \<Rightarrow> q # i_return_arg i # (if i_args i = 0 then [] else [i_args i]) | _ \<Rightarrow> [])"

abbreviation insts_ptrs :: "world \<Rightarrow> addr list \<Rightarrow> addr list" where
  "insts_ptrs s qs \<equiv> concat (map (inst_ptrs s) qs)"

definition task_ok :: "world \<Rightarrow> addr \<Rightarrow> task_t \<Rightarrow> bool" where
  "task_ok s p t \<longleftrightarrow> wf_mem s \<and> heap s p = Some (OTask t) \<and> length (instances t) = MAX_INSTANCES
     \<and> num_instances t = of_nat (length (live_slots t)) \<and> distinct (insts_ptrs s (live_slots t))
     \<and> list_all (inst_ok s p) (live_slots t)"

text \<open>The abstract view: the first slot whose instance has the serial id.\<close>

definition slot_of :: "world \<Rightarrow> task_t \<Rightarrow> u32 \<Rightarrow> nat option" where
  "slot_of s t n = first_idx (\<lambda>q. serial_of s q = Some n) (instances t)"

definition inst_map :: "world \<Rightarrow> task_t \<Rightarrow> u32 \<Rightarrow> addr option" where
  "inst_map s t n = map_option ((!) (instances t)) (slot_of s t n)"

definition serials :: "world \<Rightarrow> task_t \<Rightarrow> u32 option list" where
  "serials s t = map (serial_of s) (live_slots t)"

lemma task_okD:
  assumes "task_ok s p t"
  shows "wf_mem s" "heap s p = Some (OTask t)" "length (instances t) = 5"
    "num_instances t = of_nat (length (live_slots t))" "distinct (insts_ptrs s (live_slots t))"
    "q \<in> set (instances t) \<Longrightarrow> q \<noteq> 0 \<Longrightarrow> inst_ok s p q"
  using assms by (auto simp: task_ok_def list_all_iff)

lemma live_slots_le: "task_ok s p t \<Longrightarrow> length (live_slots t) \<le> 5"
  using length_filter_le [of _ "instances t"] by (metis task_okD(3))

lemma serial_of_null: "wf_mem s \<Longrightarrow> serial_of s 0 = None"
  by (simp add: serial_of_def wf_mem_def)

lemma find_instance_ok:
  assumes ok: "task_ok s p t"
  shows "i + k = 5 \<Longrightarrow> find_instance k i p n s =
    Inr (map_option ((+) i) (first_idx (\<lambda>q. serial_of s q = Some n) (drop i (instances t))), s)"
proof (induction k arbitrary: i)
  case 0
  then show ?case using task_okD(3) [OF ok] by (simp add: prog_simps)
next
  case (Suc k)
  let ?q = "instances t ! i"
  have i: "i < length (instances t)" using Suc.prems task_okD(3) [OF ok] by simp
  then have split: "drop i (instances t) = ?q # drop (Suc i) (instances t)"
    by (simp add: Cons_nth_drop_Suc)
  have comp: "map_option ((+) (Suc i)) x = map_option ((+) i) (map_option Suc x)" for x
    by (cases x) auto
  have IH: "find_instance k (Suc i) p n s =
    Inr (map_option ((+) (Suc i)) (first_idx (\<lambda>q. serial_of s q = Some n) (drop (Suc i) (instances t))), s)"
    by (rule Suc.IH) (use Suc.prems in simp)
  show ?case
  proof (cases "?q = 0")
    case True
    with IH i task_okD(2) [OF ok] serial_of_null [OF task_okD(1) [OF ok]] show ?thesis
      by (simp add: split prog_simps comp)
  next
    case False
    with task_okD(6) [OF ok, of ?q] i obtain ii where "heap s ?q = Some (OInst ii)"
      by (auto simp: inst_ok_def)
    with IH i False task_okD(2) [OF ok] show ?thesis
      by (auto simp: split prog_simps comp serial_of_def)
  qed
qed

lemma task_get_instance_index_ok:
  assumes "task_ok s p t"
  shows "task_get_instance_index p n s = Inr (slot_of s t n, s)"
proof -
  have "p \<noteq> 0" using task_okD(1,2) [OF assms] by (auto dest: wf_memD)
  moreover have "map_option ((+) 0) x = x" for x :: "nat option" by (cases x) auto
  ultimately show ?thesis
    using find_instance_ok [OF assms, of 0 5] by (simp add: task_get_instance_index_def slot_of_def)
qed

section \<open>A new instance\<close>

text \<open>The first slot that is free or taken by an instance with this serial id: where the loop stops.\<close>

definition stop_slot :: "world \<Rightarrow> task_t \<Rightarrow> u32 \<Rightarrow> nat option" where
  "stop_slot s t n = first_idx (\<lambda>r. r = 0 \<or> serial_of s r = Some n) (instances t)"

lemma place_instance_ok:
  assumes t: "heap s p = Some (OTask t)" "length (instances t) = 5"
    and live: "\<And>r. r \<in> set (instances t) \<Longrightarrow> r \<noteq> 0 \<Longrightarrow> \<exists>i. heap s r = Some (OInst i)"
    and q: "heap s q = Some (OInst qi)" "serial_id qi = n"
  shows "i + k = 5 \<Longrightarrow>
    first_idx (\<lambda>r. r = 0 \<or> serial_of s r = Some n) (drop i (instances t)) = Some j \<Longrightarrow>
    place_instance k i p q s = (if instances t ! (i + j) = 0
      then Inr (True, s\<lparr>heap := (heap s)(p := Some (OTask (t\<lparr>instances := (instances t)[i + j := q]\<rparr>)))\<rparr>)
      else Inr (False, s))"
proof (induction k arbitrary: i j)
  case 0
  then show ?case using t(2) by simp
next
  case (Suc k)
  let ?r = "instances t ! i"
  have i: "i < length (instances t)" using Suc.prems(1) t(2) by simp
  then have split: "drop i (instances t) = ?r # drop (Suc i) (instances t)"
    by (simp add: Cons_nth_drop_Suc)
  show ?case
  proof (cases "?r = 0 \<or> serial_of s ?r = Some n")
    case True
    then have "j = 0" using Suc.prems(2) split by simp
    show ?thesis
    proof (cases "?r = 0")
      case True
      with \<open>j = 0\<close> i t show ?thesis by (simp add: prog_simps)
    next
      case False
      from live [OF _ False] i obtain ii where "heap s ?r = Some (OInst ii)" by auto
      with True False \<open>j = 0\<close> i t q show ?thesis by (simp add: prog_simps serial_of_def)
    qed
  next
    case False
    then obtain j' where j: "j = Suc j'"
      "first_idx (\<lambda>r. r = 0 \<or> serial_of s r = Some n) (drop (Suc i) (instances t)) = Some j'"
      using Suc.prems(2) unfolding split by auto
    have "Suc i + k = 5" using Suc.prems(1) by simp
    from Suc.IH [OF this j(2)] j(1)
    have IH: "place_instance k (Suc i) p q s = (if instances t ! (i + j) = 0
      then Inr (True, s\<lparr>heap := (heap s)(p := Some (OTask (t\<lparr>instances := (instances t)[i + j := q]\<rparr>)))\<rparr>)
      else Inr (False, s))" by simp
    from live [of ?r] False i obtain ii where "heap s ?r = Some (OInst ii)" by auto
    with False i t q have "place_instance (Suc k) i p q s = place_instance k (Suc i) p q s"
      by (simp add: prog_simps serial_of_def)
    with IH show ?thesis by simp
  qed
qed

definition new_inst :: "addr \<Rightarrow> u32 \<Rightarrow> addr \<Rightarrow> task_instance_t" where
  "new_inst p n ra = zero_inst\<lparr>serial_id := n, i_return_arg := ra, parent_task := p\<rparr>"

text \<open>The states \<open>task_instance_create\<close> returns in: with the instance in slot \<open>j\<close>, or without it.\<close>

definition inst_created :: "world \<Rightarrow> addr \<Rightarrow> task_t \<Rightarrow> u32 \<Rightarrow> nat \<Rightarrow> world" where
  "inst_created s p t n j = s\<lparr>brk := brk s + 2, total_mem_usage := total_mem_usage s + 40,
    heap := (heap s)(
      Suc (Suc (brk s)) := Some (OArgs [\<lparr>nargs = 1, arg_type = t_return_type t, arg_val = ZVal\<rparr>]),
      Suc (brk s) := Some (OInst (new_inst p n (Suc (Suc (brk s))))),
      p := Some (OTask (t\<lparr>instances := (instances t)[j := Suc (brk s)], num_instances := num_instances t + 1\<rparr>)))\<rparr>"

lemma stop_slot_exists:
  assumes ok: "task_ok s p t" and room: "length (live_slots t) < 5"
  shows "\<exists>j. stop_slot s t n = Some j"
proof (rule ccontr)
  assume "\<not> ?thesis"
  then have "\<forall>r\<in>set (instances t). r \<noteq> 0" by (auto simp: stop_slot_def)
  then have "live_slots t = instances t" by (simp add: filter_id_conv)
  with room task_okD(3) [OF ok] show False by simp
qed

lemma task_instance_create_ok:
  assumes ok: "task_ok s p t" and mem: "no_oom s" and room: "length (live_slots t) < 5"
    and j: "stop_slot s t n = Some j"
  shows "task_instance_create p n s = (if instances t ! j = 0
    then Inr (Suc (brk s), inst_created s p t n j)
    else Inr (0, s\<lparr>brk := brk s + 2\<rparr>))"
proof -
  let ?q = "Suc (brk s)" and ?ra = "Suc (Suc (brk s))"
  note t = task_okD [OF ok]
  have p: "p \<noteq> 0" "p \<le> brk s" using t(1,2) by (auto dest: wf_memD)
  define s1 where "s1 = s\<lparr>brk := ?ra, total_mem_usage := total_mem_usage s + 40,
    heap := (heap s)(?ra := Some (OArgs [\<lparr>nargs = 1, arg_type = t_return_type t, arg_val = ZVal\<rparr>]),
      ?q := Some (OInst (new_inst p n ?ra)))\<rparr>"
  have t1: "heap s1 p = Some (OTask t)" using p t(2) by (simp add: s1_def)
  have old: "r \<le> brk s" if "r \<in> set (instances t)" for r
    using t(6) [OF that] t(1) by (cases "r = 0") (auto simp: inst_ok_def dest: wf_memD)
  have live: "\<exists>i. heap s1 r = Some (OInst i)" if "r \<in> set (instances t)" "r \<noteq> 0" for r
    using t(6) [OF that] old [OF that(1)] by (auto simp: inst_ok_def s1_def)
  have same: "serial_of s1 r = serial_of s r" if "r \<in> set (instances t)" for r
    using old [OF that] by (simp add: serial_of_def s1_def)
  have q1: "heap s1 ?q = Some (OInst (new_inst p n ?ra))" "serial_id (new_inst p n ?ra) = n"
    by (simp_all add: s1_def new_inst_def)
  have "first_idx (\<lambda>r. r = 0 \<or> serial_of s1 r = Some n) (instances t)
      = first_idx (\<lambda>r. r = 0 \<or> serial_of s r = Some n) (instances t)"
    by (rule first_idx_cong) (simp add: same)
  then have "first_idx (\<lambda>r. r = 0 \<or> serial_of s1 r = Some n) (drop 0 (instances t)) = Some j"
    using j unfolding stop_slot_def by simp
  from place_instance_ok [OF t1 t(3) live q1 _ this, of 5]
  have place: "place_instance 5 0 p ?q s1 = (if instances t ! j = 0
      then Inr (True, s1\<lparr>heap := (heap s1)(p := Some (OTask (t\<lparr>instances := (instances t)[j := ?q]\<rparr>)))\<rparr>)
      else Inr (False, s1))" by simp
  have space: "\<not> 5 \<le> num_instances t"
  proof -
    have "unat (of_nat (length (live_slots t)) :: u32) < 5" using room by simp
    then show ?thesis using t(4) by (simp add: word_le_nat_alt)
  qed
  have exec: "task_instance_create p n s = (case place_instance 5 0 p ?q s1 of Inl e \<Rightarrow> Inl e
    | Inr (okk, s') \<Rightarrow> (if okk then andthen (update_task p (\<lambda>t. t\<lparr>num_instances := num_instances t + 1\<rparr>)) (ret ?q)
      else andthen (free_sized ?ra 16) (andthen (free_sized ?q 24) (ret 0))) s')"
    using p t(2) mem space
    by (simp add: task_instance_create_def prog_simps s1_def new_inst_def zero_inst_def zero_arg_def add.commute)
  show ?thesis
  proof (cases "instances t ! j = 0")
    case True
    with place p show ?thesis
      by (simp add: exec prog_simps s1_def inst_created_def)
  next
    case False
    have "(heap s)(?ra := None, ?q := None) = heap s"
      using t(1) by (auto simp: wf_mem_def fun_eq_iff)
    with False place p show ?thesis
      by (simp add: exec prog_simps s1_def)
  qed
qed

lemma inst_ok_live: "inst_ok s p q \<Longrightarrow> r \<in> set (inst_ptrs s q) \<Longrightarrow> heap s r \<noteq> None \<and> (\<forall>t. heap s r \<noteq> Some (OTask t))"
  by (auto simp: inst_ok_def inst_ptrs_def inst_args_ok_def split: if_splits)

text \<open>An instance is as it was if the objects it owns are.\<close>

lemma inst_ok_cong:
  assumes "inst_ok s p q" "\<And>r. r \<in> set (inst_ptrs s q) \<Longrightarrow> heap s' r = heap s r"
  shows "inst_ok s' p q" "inst_ptrs s' q = inst_ptrs s q" "serial_of s' q = serial_of s q"
proof -
  from assms(1) obtain i a where i: "heap s q = Some (OInst i)" "parent_task i = p"
    "heap s (i_return_arg i) = Some (OArgs [a])" "inst_args_ok s (i_args i)"
    by (auto simp: inst_ok_def)
  then have "heap s' q = Some (OInst i)" "heap s' (i_return_arg i) = Some (OArgs [a])"
    "i_args i \<noteq> 0 \<Longrightarrow> heap s' (i_args i) = heap s (i_args i)"
    using assms(2) by (simp_all add: inst_ptrs_def)
  with i show "inst_ok s' p q" "inst_ptrs s' q = inst_ptrs s q" "serial_of s' q = serial_of s q"
    by (auto simp: inst_ok_def inst_ptrs_def serial_of_def inst_args_ok_def)
qed

lemma insts_ptrs_cong:
  "(\<And>q. q \<in> set qs \<Longrightarrow> inst_ptrs s' q = inst_ptrs s q) \<Longrightarrow> insts_ptrs s' qs = insts_ptrs s qs"
  by (induction qs) auto

text \<open>The task after \<open>task_instance_create\<close>.\<close>

abbreviation with_inst :: "task_t \<Rightarrow> nat \<Rightarrow> addr \<Rightarrow> task_t" where
  "with_inst t j q \<equiv> t\<lparr>instances := (instances t)[j := q], num_instances := num_instances t + 1\<rparr>"

lemma inst_created_ok:
  assumes ok: "task_ok s p t" and j: "j < 5" "instances t ! j = 0"
  shows "task_ok (inst_created s p t n j) p (with_inst t j (Suc (brk s)))"
    and "r \<in> set (live_slots t) \<Longrightarrow> serial_of (inst_created s p t n j) r = serial_of s r"
    and "serial_of (inst_created s p t n j) (Suc (brk s)) = Some n"
proof -
  let ?q = "Suc (brk s)" and ?s = "inst_created s p t n j"
  note t = task_okD [OF ok]
  have p: "p \<noteq> 0" "p \<le> brk s" using t(1,2) by (auto dest: wf_memD)
  have old: "heap ?s r = heap s r" if "r \<le> brk s" "r \<noteq> p" for r
    using that by (simp add: inst_created_def)
  have same: "heap ?s r = heap s r" if "q \<in> set (live_slots t)" "r \<in> set (inst_ptrs s q)" for q r
  proof -
    have "inst_ok s p q" using that(1) t(6) by auto
    from inst_ok_live [OF this that(2)] t(1,2) show ?thesis
      by (intro old) (auto dest: wf_memD)
  qed
  have each: "inst_ok ?s p q" "inst_ptrs ?s q = inst_ptrs s q" "serial_of ?s q = serial_of s q"
    if "q \<in> set (live_slots t)" for q
    using inst_ok_cong [of s p q ?s] t(6) same that by auto
  then show "r \<in> set (live_slots t) \<Longrightarrow> serial_of ?s r = serial_of s r" by blast
  have q: "heap ?s ?q = Some (OInst (new_inst p n (Suc ?q)))"
    "heap ?s (Suc ?q) = Some (OArgs [\<lparr>nargs = 1, arg_type = t_return_type t, arg_val = ZVal\<rparr>])"
    using p by (simp_all add: inst_created_def)
  then show "serial_of ?s ?q = Some n" by (simp add: serial_of_def new_inst_def)
  have qptrs: "inst_ptrs ?s ?q = [?q, Suc ?q]"
    using q by (simp add: inst_ptrs_def new_inst_def zero_inst_def)
  have jl: "j < length (instances t)" using j t(3) by simp
  let ?a = "filter (\<lambda>q. q \<noteq> 0) (take j (instances t))" and ?b = "filter (\<lambda>q. q \<noteq> 0) (drop (Suc j) (instances t))"
  have live: "live_slots t = ?a @ ?b" "live_slots (with_inst t j ?q) = ?a @ ?q # ?b"
    using filter_around [OF jl, of "\<lambda>q. q \<noteq> 0"] j(2) by simp_all
  have ptrs: "insts_ptrs ?s ?a = insts_ptrs s ?a" "insts_ptrs ?s ?b = insts_ptrs s ?b"
    by (intro insts_ptrs_cong each(2); auto dest: in_set_takeD in_set_dropD)+
  have "r \<le> brk s" if "r \<in> set (insts_ptrs s (live_slots t))" for r
    using that t(1,6) inst_ok_live by (fastforce dest: wf_memD)
  then have new: "?q \<notin> set (insts_ptrs s (live_slots t))" "Suc ?q \<notin> set (insts_ptrs s (live_slots t))"
    by fastforce+
  have dist: "distinct (insts_ptrs s (?a @ ?b))" using t(5) live(1) by simp
  have "distinct (insts_ptrs ?s (live_slots (with_inst t j ?q)))"
    using dist new ptrs qptrs unfolding live by auto
  moreover have "list_all (inst_ok ?s p) (live_slots (with_inst t j ?q))"
    using each(1) q unfolding live
    by (auto simp: list_all_iff inst_ok_def [of ?s p ?q] new_inst_def zero_inst_def inst_args_ok_def)
  moreover have "wf_mem ?s" using t(1) p by (simp add: wf_mem_def inst_created_def)
  moreover have "num_instances (with_inst t j ?q) = of_nat (length (live_slots (with_inst t j ?q)))"
    using t(4) unfolding live by simp
  moreover have "heap ?s p = Some (OTask (with_inst t j ?q))" by (simp add: inst_created_def)
  ultimately show "task_ok ?s p (with_inst t j ?q)" using t(3) by (simp add: task_ok_def)
qed

text \<open>Serial ids are unique: what \<open>task_instance_create\<close> is meant to guarantee.\<close>

definition unique_serials :: "world \<Rightarrow> task_t \<Rightarrow> bool" where
  "unique_serials s t \<longleftrightarrow> (\<forall>i < length (instances t). \<forall>j < length (instances t). \<forall>n.
     serial_of s (instances t ! i) = Some n \<longrightarrow> serial_of s (instances t ! j) = Some n \<longrightarrow> i = j)"

lemma serial_of_slot:
  assumes ok: "task_ok s p t" and j: "j < 5" "instances t ! j = 0" and k: "k < 5"
  shows "serial_of (inst_created s p t n j) (instances (with_inst t j (Suc (brk s))) ! k)
    = (if k = j then Some n else serial_of s (instances t ! k))"
proof (cases "k = j \<or> instances t ! k = 0")
  case True
  then show ?thesis
    using inst_created_ok(3) [OF ok j] task_okD(1,2,3) [OF ok] j k serial_of_null
    by (auto simp: serial_of_def inst_created_def wf_mem_def)
next
  case False
  then have "instances t ! k \<in> set (live_slots t)" using k task_okD(3) [OF ok] by simp
  from inst_created_ok(2) [OF ok j this] False show ?thesis by simp
qed

text \<open>With a fresh serial id the instance goes to the first free slot, and the map is updated.\<close>

lemma fresh_stop_slot:
  assumes "stop_slot s t n = Some j" "slot_of s t n = None"
  shows "j < length (instances t) \<and> instances t ! j = 0"
proof -
  from assms(1) have j: "j < length (instances t)"
    "instances t ! j = 0 \<or> serial_of s (instances t ! j) = Some n"
    by (auto simp: stop_slot_def first_idx_Some)
  with assms(2) nth_mem [OF j(1)] show ?thesis by (auto simp: slot_of_def)
qed

lemma inst_created_map:
  assumes ok: "task_ok s p t" and fresh: "slot_of s t n = None" and j: "stop_slot s t n = Some j"
  shows "inst_map (inst_created s p t n j) (with_inst t j (Suc (brk s))) = (inst_map s t)(n := Some (Suc (brk s)))"
    and "unique_serials s t \<Longrightarrow> unique_serials (inst_created s p t n j) (with_inst t j (Suc (brk s)))"
proof -
  let ?s = "inst_created s p t n j" and ?t = "with_inst t j (Suc (brk s))"
  have len: "length (instances t) = 5" using ok by (rule task_okD)
  have j': "j < 5" "instances t ! j = 0" using fresh_stop_slot [OF j fresh] len by auto
  note ser = serial_of_slot [OF ok j', of _ n]
  have none: "serial_of s (instances t ! k) \<noteq> Some n" if "k < 5" for k
    using fresh that len nth_mem [of k "instances t"] by (auto simp: slot_of_def)
  have null: "serial_of s (instances t ! j) = None"
    using j'(2) task_okD(1) [OF ok] serial_of_null by simp
  show "inst_map ?s ?t = (inst_map s t)(n := Some (Suc (brk s)))"
  proof (rule ext)
    fix m
    show "inst_map ?s ?t m = ((inst_map s t)(n := Some (Suc (brk s)))) m"
    proof (cases "m = n")
      case True
      have "slot_of ?s ?t n = Some j"
        unfolding slot_of_def first_idx_Some
      proof (intro conjI allI impI)
        show "serial_of ?s (instances ?t ! j) = Some n" using ser [OF j'(1)] by simp
        show "serial_of ?s (instances ?t ! k) \<noteq> Some n" if "k < j" for k
          using ser [of k] none [of k] that j'(1) by simp
      qed (use len j' in simp)
      with True len j' show ?thesis by (simp add: inst_map_def)
    next
      case False
      have "slot_of ?s ?t m = slot_of s t m"
        unfolding slot_of_def
        by (rule first_idx_pointwise) (use ser null len False in auto)
      moreover have "slot_of s t m \<noteq> Some j"
        using null by (auto simp: slot_of_def first_idx_Some)
      ultimately show ?thesis
        using False by (cases "slot_of s t m") (auto simp: inst_map_def)
    qed
  qed
  show "unique_serials ?s ?t" if "unique_serials s t"
    unfolding unique_serials_def
  proof (intro allI impI)
    fix a b m
    assume a: "a < length (instances ?t)" "b < length (instances ?t)"
      and m: "serial_of ?s (instances ?t ! a) = Some m" "serial_of ?s (instances ?t ! b) = Some m"
    have ab: "a < 5" "b < 5" using a len by simp_all
    with m ser [OF ab(1)] ser [OF ab(2)] none [OF ab(1)] none [OF ab(2)] that len
    show "a = b" unfolding unique_serials_def by (metis option.inject)
  qed
qed

section \<open>Destroying an instance\<close>

abbreviation without_inst :: "task_t \<Rightarrow> nat \<Rightarrow> task_t" where
  "without_inst t i \<equiv> t\<lparr>instances := (instances t)[i := 0], num_instances := num_instances t - 1\<rparr>"

definition args_bytes :: "world \<Rightarrow> addr \<Rightarrow> i32" where
  "args_bytes s q = (case heap s q of Some (OInst i) \<Rightarrow>
     (if i_args i = 0 then 0 else
        (case heap s (i_args i) of Some (OArgs as) \<Rightarrow> of_nat (length as) * 16 | _ \<Rightarrow> 0))
   | _ \<Rightarrow> 0)"

text \<open>The instance \<open>q\<close> and what it owns are released, and slot \<open>i\<close> is emptied.\<close>

definition slot_destroyed :: "world \<Rightarrow> addr \<Rightarrow> task_t \<Rightarrow> nat \<Rightarrow> addr \<Rightarrow> world" where
  "slot_destroyed s p t i q =
     s\<lparr>heap := (\<lambda>r. if r \<in> set (inst_ptrs s q) then None
          else if r = p then Some (OTask (without_inst t i)) else heap s r),
       total_mem_usage := total_mem_usage s - (40 + args_bytes s q)\<rparr>"

definition inst_destroyed :: "world \<Rightarrow> addr \<Rightarrow> task_t \<Rightarrow> nat \<Rightarrow> world" where
  "inst_destroyed s p t i = slot_destroyed s p t i (instances t ! i)"

lemmas inst_destroyed_defs = inst_destroyed_def slot_destroyed_def

lemma task_instance_destroy_slot:
  assumes ok: "task_ok s p t" and mem: "q \<in> set (instances t)" and q: "q \<noteq> 0"
    and i: "serial_of s q = Some n" "slot_of s t n = Some i"
  shows "task_instance_destroy q s = Inr ((), slot_destroyed s p t i q)"
proof -
  note t = task_okD [OF ok]
  have il: "i < length (instances t)" using i(2) by (auto simp: slot_of_def first_idx_Some)
  from t(6) [OF mem q] obtain ii a where ii: "heap s q = Some (OInst ii)" "parent_task ii = p"
    "heap s (i_return_arg ii) = Some (OArgs [a])" "inst_args_ok s (i_args ii)"
    by (auto simp: inst_ok_def)
  have n: "serial_id ii = n" using i(1) ii(1) by (simp add: serial_of_def)
  let ?ra = "i_return_arg ii" and ?ar = "i_args ii"
  have "q \<in> set (live_slots t)" using mem q by simp
  then have "distinct (inst_ptrs s q)"
    using t(5) by (metis (no_types, lifting) distinct_concat_iff image_eqI list.set_map)
  then have dist: "?ar \<noteq> 0 \<Longrightarrow> ?ar \<noteq> ?ra \<and> ?ar \<noteq> q"
    by (auto simp: inst_ptrs_def ii(1) split: if_splits)
  have "?ra \<noteq> 0" using ii(3) t(1) by (auto dest: wf_memD)
  moreover have "?ra \<noteq> q" "?ra \<noteq> p" "p \<noteq> q"
    using ii(1,3) t(2) by auto
  ultimately have ra: "?ra \<noteq> 0" "?ra \<noteq> q" "?ra \<noteq> p" "p \<noteq> q" by blast+
  note run = task_instance_destroy_def prog_simps task_get_instance_index_ok [OF ok] ii n i(2)
  show ?thesis
  proof (cases "?ar = 0")
    case True
    have eq: "(heap s)(p := Some (OTask (without_inst t i)), ?ra := None, q := None)
        = (\<lambda>r. if r \<in> set (inst_ptrs s q) then None else if r = p then Some (OTask (without_inst t i)) else heap s r)"
      using True ra by (auto simp: fun_eq_iff inst_ptrs_def ii(1))
    with True q ra t(2) show ?thesis
      by (simp add: run slot_destroyed_def args_bytes_def)
  next
    case False
    with ii(4) obtain as where as: "heap s ?ar = Some (OArgs as)" "as \<noteq> []" "nargs (as ! 0) = of_nat (length as)"
      by (auto simp: inst_args_ok_def)
    have ar: "?ar \<noteq> p" "?ar \<noteq> ?ra" "?ar \<noteq> q" using as(1) t(2) dist False by auto
    have eq: "(heap s)(p := Some (OTask (without_inst t i)), ?ra := None, ?ar := None, q := None)
        = (\<lambda>r. if r \<in> set (inst_ptrs s q) then None else if r = p then Some (OTask (without_inst t i)) else heap s r)"
      using False ra ar by (auto simp: fun_eq_iff inst_ptrs_def ii(1))
    with False q ra ar t(2) as show ?thesis
      by (simp add: run task_instance_args_destroy_def slot_destroyed_def args_bytes_def
          algebra_simps)
  qed
qed

text \<open>Where serial ids are unique, the slot emptied is the instance's own.\<close>

lemma task_instance_destroy_ok:
  assumes "task_ok s p t" "instances t ! i = q" "q \<noteq> 0" "serial_of s q = Some n" "slot_of s t n = Some i"
  shows "task_instance_destroy q s = Inr ((), inst_destroyed s p t i)"
proof -
  have "q \<in> set (instances t)" using assms(2,5) by (auto simp: slot_of_def first_idx_Some)
  from task_instance_destroy_slot [OF assms(1) this assms(3-5)] assms(2) show ?thesis
    by (simp add: inst_destroyed_def)
qed

lemma inst_destroyed_ok:
  assumes ok: "task_ok s p t" and i: "i < 5" "instances t ! i \<noteq> 0"
  shows "task_ok (inst_destroyed s p t i) p (without_inst t i)"
    and "k < 5 \<Longrightarrow> serial_of (inst_destroyed s p t i) (instances (without_inst t i) ! k)
      = (if k = i then None else serial_of s (instances t ! k))"
    and "insts_ptrs (inst_destroyed s p t i) (live_slots (without_inst t i)) = insts_ptrs s (live_slots (without_inst t i))"
proof -
  let ?q = "instances t ! i" and ?s = "inst_destroyed s p t i"
  note t = task_okD [OF ok]
  have il: "i < length (instances t)" using i t(3) by simp
  let ?a = "filter (\<lambda>q. q \<noteq> 0) (take i (instances t))" and ?b = "filter (\<lambda>q. q \<noteq> 0) (drop (Suc i) (instances t))"
  have live: "live_slots t = ?a @ ?q # ?b" "live_slots (without_inst t i) = ?a @ ?b"
    using filter_around [OF il, of "\<lambda>q. q \<noteq> 0"] i(2) by simp_all
  have dist: "distinct (insts_ptrs s ?a @ inst_ptrs s ?q @ insts_ptrs s ?b)"
    using t(5) unfolding live by simp
  have ok': "inst_ok s p r" if "r \<in> set (live_slots t)" for r using that t(6) by auto
  have pq: "r \<noteq> p" if "r \<in> set (inst_ptrs s x)" "x \<in> set (live_slots t)" for r x
    using inst_ok_live [OF ok' [OF that(2)] that(1)] t(2) by auto
  have heap: "heap ?s r = (if r \<in> set (inst_ptrs s ?q) then None
      else if r = p then Some (OTask (without_inst t i)) else heap s r)" for r
    by (simp add: inst_destroyed_defs)
  have rest: "inst_ok ?s p x" "inst_ptrs ?s x = inst_ptrs s x" "serial_of ?s x = serial_of s x"
    if "x \<in> set (?a @ ?b)" for x
  proof -
    have x: "x \<in> set (live_slots t)" using that unfolding live by auto
    have "r \<notin> set (inst_ptrs s ?q)" if "r \<in> set (inst_ptrs s x)" for r
      using dist that \<open>x \<in> set (?a @ ?b)\<close> by auto
    then have "heap ?s r = heap s r" if "r \<in> set (inst_ptrs s x)" for r
      using that pq [OF that x] by (simp add: heap)
    from inst_ok_cong [OF ok' [OF x] this]
    show "inst_ok ?s p x" "inst_ptrs ?s x = inst_ptrs s x" "serial_of ?s x = serial_of s x"
      by blast+
  qed
  show ptrs: "insts_ptrs ?s (live_slots (without_inst t i)) = insts_ptrs s (live_slots (without_inst t i))"
    unfolding live by (rule insts_ptrs_cong) (rule rest(2))
  have "brk ?s = brk s" by (simp add: inst_destroyed_defs)
  then have wf: "wf_mem ?s" using t(1,2) wf_memD [OF t(1,2)] by (auto simp: wf_mem_def heap)
  moreover have "?q \<in> set (live_slots t)" unfolding live by simp
  then have "heap ?s p = Some (OTask (without_inst t i))" using pq by (auto simp: heap)
  moreover have "num_instances (without_inst t i) = of_nat (length (live_slots (without_inst t i)))"
    using t(4) unfolding live by simp
  moreover have "distinct (insts_ptrs ?s (live_slots (without_inst t i)))"
    unfolding ptrs using dist unfolding live(2) by auto
  moreover have "list_all (inst_ok ?s p) (live_slots (without_inst t i))"
    unfolding live list_all_iff using rest(1) by blast
  ultimately show "task_ok ?s p (without_inst t i)" using t(3) by (simp add: task_ok_def)
  show "serial_of ?s (instances (without_inst t i) ! k)
      = (if k = i then None else serial_of s (instances t ! k))" if k: "k < 5"
  proof (cases "k = i \<or> instances t ! k = 0")
    case True
    then show ?thesis
      using serial_of_null [OF wf] serial_of_null [OF t(1)] il k t(3) by auto
  next
    case False
    then have "instances t ! k \<in> set (live_slots (without_inst t i))"
      using k t(3) nth_mem [of k "(instances t)[i := 0]"] by simp
    then have "instances t ! k \<in> set (?a @ ?b)" unfolding live .
    from rest(3) [OF this] False show ?thesis by simp
  qed
qed

lemma inst_destroyed_map:
  assumes ok: "task_ok s p t" and uniq: "unique_serials s t"
    and i: "slot_of s t n = Some i"
  shows "inst_map (inst_destroyed s p t i) (without_inst t i) = (inst_map s t)(n := None)"
    and "unique_serials (inst_destroyed s p t i) (without_inst t i)"
proof -
  let ?s = "inst_destroyed s p t i" and ?t = "without_inst t i"
  have len: "length (instances t) = 5" using ok by (rule task_okD)
  have i': "i < 5" "serial_of s (instances t ! i) = Some n"
    using i len by (auto simp: slot_of_def first_idx_Some)
  then have "instances t ! i \<noteq> 0"
    using serial_of_null [OF task_okD(1) [OF ok]] by (metis option.distinct(1))
  note ser = inst_destroyed_ok(2) [OF ok i'(1) this]
  have only: "k = i" if "k < 5" "serial_of s (instances t ! k) = Some n" for k
    using uniq that i' len unfolding unique_serials_def by metis
  show "inst_map ?s ?t = (inst_map s t)(n := None)"
  proof (rule ext)
    fix m
    show "inst_map ?s ?t m = ((inst_map s t)(n := None)) m"
    proof (cases "m = n")
      case True
      have "slot_of ?s ?t n = None"
      proof -
        have "serial_of ?s x \<noteq> Some n" if x: "x \<in> set (instances ?t)" for x
        proof -
          from x obtain k where "k < 5" "x = instances ?t ! k"
            using len by (auto simp: in_set_conv_nth)
          with ser [of k] only [of k] show ?thesis by auto
        qed
        then show ?thesis by (simp add: slot_of_def)
      qed
      with True show ?thesis by (simp add: inst_map_def)
    next
      case False
      have "slot_of ?s ?t m = slot_of s t m"
        unfolding slot_of_def
        by (rule first_idx_pointwise) (use ser i' len False in auto)
      moreover have "slot_of s t m \<noteq> Some i"
        using i'(2) False by (auto simp: slot_of_def first_idx_Some)
      ultimately show ?thesis
        using False by (cases "slot_of s t m") (auto simp: inst_map_def)
    qed
  qed
  show "unique_serials ?s ?t"
    unfolding unique_serials_def
  proof (intro allI impI)
    fix a b m
    assume a: "a < length (instances ?t)" "b < length (instances ?t)"
      and m: "serial_of ?s (instances ?t ! a) = Some m" "serial_of ?s (instances ?t ! b) = Some m"
    have ab: "a < 5" "b < 5" using a len by simp_all
    with m ser [OF ab(1)] ser [OF ab(2)] uniq len
    show "a = b" unfolding unique_serials_def by (metis option.distinct(1))
  qed
qed

text \<open>C15. An instance that \<open>task_instance_create\<close> makes and \<open>task_instance_destroy\<close>
  destroys leaves no trace but the use of two addresses: the heap, the task's slots and the counter of
  allocated bytes are what they were.\<close>

lemma create_destroy:
  assumes ok: "task_ok s p t" and mem: "no_oom s" and room: "length (live_slots t) < 5"
    and fresh: "slot_of s t n = None"
  shows "\<exists>q s'. task_instance_create p n s = Inr (q, s') \<and> q \<noteq> 0
    \<and> task_instance_destroy q s' = Inr ((), s\<lparr>brk := brk s + 2\<rparr>)"
proof -
  let ?q = "Suc (brk s)"
  note t = task_okD [OF ok]
  from stop_slot_exists [OF ok room] obtain j where j: "stop_slot s t n = Some j" by blast
  have j': "j < 5" "instances t ! j = 0" using fresh_stop_slot [OF j fresh] t(3) by auto
  let ?s = "inst_created s p t n j" and ?t = "with_inst t j ?q"
  have create: "task_instance_create p n s = Inr (?q, ?s)"
    using task_instance_create_ok [OF ok mem room j] j'(2) by simp
  have ok': "task_ok ?s p ?t" "serial_of ?s ?q = Some n"
    using inst_created_ok [OF ok j'] by blast+
  have q: "instances ?t ! j = ?q" using j'(1) t(3) by simp
  have "inst_map ?s ?t n = Some ?q" using inst_created_map(1) [OF ok fresh j] by simp
  moreover have "slot_of ?s ?t n = Some j"
    unfolding slot_of_def first_idx_Some
  proof (intro conjI allI impI)
    show "serial_of ?s (instances ?t ! k) \<noteq> Some n" if "k < j" for k
      using serial_of_slot [OF ok j', of k n] that j'(1) fresh nth_mem [of k "instances t"] t(3)
      by (simp add: slot_of_def)
  qed (use ok'(2) j' t(3) in simp_all)
  ultimately have "task_instance_destroy ?q ?s = Inr ((), inst_destroyed ?s p ?t j)"
    using task_instance_destroy_ok [OF ok'(1) q _ ok'(2)] by simp
  moreover have "inst_destroyed ?s p ?t j = s\<lparr>brk := brk s + 2\<rparr>"
  proof (rule world.equality)
    have p: "p \<noteq> 0" "p \<le> brk s" using t(1,2) by (auto dest: wf_memD)
    have ptrs: "inst_ptrs ?s ?q = [?q, Suc ?q]" and bytes: "args_bytes ?s ?q = 0"
      using p by (simp_all add: inst_ptrs_def args_bytes_def inst_created_def new_inst_def zero_inst_def)
    have "without_inst ?t j = t" using j' t(3) by (simp add: list_update_same_conv)
    then show "heap (inst_destroyed ?s p ?t j) = heap (s\<lparr>brk := brk s + 2\<rparr>)"
      using q ptrs p t(1,2) by (auto simp: inst_destroyed_defs fun_eq_iff inst_created_def wf_mem_def)
    show "total_mem_usage (inst_destroyed ?s p ?t j) = total_mem_usage (s\<lparr>brk := brk s + 2\<rparr>)"
      using q bytes by (simp add: inst_destroyed_defs inst_created_def)
  qed (simp_all add: inst_destroyed_defs inst_created_def)
  ultimately show ?thesis using create by (intro exI [of _ ?q] exI [of _ ?s]) simp
qed

section \<open>Destroying a task\<close>

text \<open>What is left of the task after its first \<open>j\<close> slots were emptied.\<close>

definition destroy_inv :: "world \<Rightarrow> addr \<Rightarrow> task_t \<Rightarrow> nat \<Rightarrow> world \<Rightarrow> bool" where
  "destroy_inv s p t j u \<longleftrightarrow> (\<exists>t'. task_ok u p t' \<and> unique_serials u t'
    \<and> (\<forall>k < 5. instances t' ! k = (if k < j then 0 else instances t ! k))
    \<and> (\<forall>r. r \<noteq> p \<longrightarrow> heap u r =
         (if r \<in> set (insts_ptrs s (filter (\<lambda>q. q \<noteq> 0) (take j (instances t)))) then None else heap s r)))"

text \<open>The instance in the next slot is as it was.\<close>

lemma destroy_inv_next:
  assumes ok: "task_ok s p t" and j: "j < 5" "instances t ! j \<noteq> 0"
    and heap: "\<And>r. r \<noteq> p \<Longrightarrow> heap u r =
      (if r \<in> set (insts_ptrs s (filter (\<lambda>q. q \<noteq> 0) (take j (instances t)))) then None else heap s r)"
  shows "inst_ptrs u (instances t ! j) = inst_ptrs s (instances t ! j)"
proof -
  let ?f = "\<lambda>xs. insts_ptrs s (filter (\<lambda>q. q \<noteq> 0) xs)" and ?q = "instances t ! j"
  note t = task_okD [OF ok]
  have jl: "j < length (instances t)" using j t(3) by simp
  then have iq: "inst_ok s p ?q" using t(6) j(2) by simp
  show ?thesis
  proof (rule inst_ok_cong(2) [OF iq])
    fix r assume r: "r \<in> set (inst_ptrs s ?q)"
    have "r \<noteq> p" using inst_ok_live [OF iq r] t(2) by auto
    moreover have "distinct (?f (take j (instances t)) @ inst_ptrs s ?q @ ?f (drop (Suc j) (instances t)))"
      using t(5) filter_around(2) [OF jl, of "\<lambda>q. q \<noteq> 0"] j(2) by simp
    with r have "r \<notin> set (?f (take j (instances t)))" by auto
    ultimately show "heap u r = heap s r" using heap [of r] by (simp only: if_False simp_thms)
  qed
qed

lemma destroy_inv_step:
  assumes ok: "task_ok s p t" and inv: "destroy_inv s p t j u" and j: "j < 5"
  shows "\<exists>u'. destroy_slot p j u = Inr ((), u') \<and> destroy_inv s p t (Suc j) u'"
proof -
  let ?f = "\<lambda>xs. insts_ptrs s (filter (\<lambda>q. q \<noteq> 0) xs)"
  from inv obtain t' where t': "task_ok u p t'" "unique_serials u t'"
    "\<And>k. k < 5 \<Longrightarrow> instances t' ! k = (if k < j then 0 else instances t ! k)"
    "\<And>r. r \<noteq> p \<Longrightarrow> heap u r = (if r \<in> set (?f (take j (instances t))) then None else heap s r)"
    unfolding destroy_inv_def by blast
  note t = task_okD [OF ok] and u = task_okD [OF t'(1)]
  have jl: "j < length (instances t)" using j t(3) by simp
  let ?q = "instances t ! j"
  have q': "instances t' ! j = ?q" using t'(3) [OF j] by simp
  have take: "take (Suc j) (instances t) = take j (instances t) @ [?q]"
    using jl by (rule take_Suc_conv_app_nth)
  show ?thesis
  proof (cases "?q = 0")
    case True
    have "destroy_slot p j u = Inr ((), u)"
      using u(2,3) q' True j by (simp add: destroy_slot_def prog_simps)
    moreover have "destroy_inv s p t (Suc j) u"
      unfolding destroy_inv_def using t' True take
      by (intro exI [of _ t']) (auto simp: less_Suc_eq)
    ultimately show ?thesis by blast
  next
    case False
    have q: "?q \<in> set (live_slots t)" "?q \<in> set (live_slots t')"
      using False jl nth_mem [of j "instances t'"] q' j u(3) by auto
    then obtain ii where ii: "heap u ?q = Some (OInst ii)" using u(6) by (auto simp: inst_ok_def)
    let ?n = "serial_id ii"
    have ser: "serial_of u ?q = Some ?n" using ii by (simp add: serial_of_def)
    have "slot_of u t' ?n = Some j"
      unfolding slot_of_def first_idx_Some
    proof (intro conjI allI impI)
      show "serial_of u (instances t' ! k) \<noteq> Some ?n" if "k < j" for k
        using t'(3) [of k] that j serial_of_null [OF u(1)] by simp
    qed (use ser q' j u(3) in simp_all)
    from task_instance_destroy_ok [OF t'(1) q' False ser this]
    have run: "destroy_slot p j u = Inr ((), inst_destroyed u p t' j)"
      using u(2,3) q' False j by (simp add: destroy_slot_def prog_simps)
    let ?u = "inst_destroyed u p t' j"
    have same: "inst_ptrs u ?q = inst_ptrs s ?q" using destroy_inv_next [OF ok j False t'(4)] .
    have "destroy_inv s p t (Suc j) ?u"
      unfolding destroy_inv_def
    proof (intro exI [of _ "without_inst t' j"] conjI allI impI)
      show "task_ok ?u p (without_inst t' j)"
        using inst_destroyed_ok(1) [OF t'(1) j] q' False by simp
      show "unique_serials ?u (without_inst t' j)"
        using inst_destroyed_map(2) [OF t'(1,2) \<open>slot_of u t' ?n = Some j\<close>] .
      show "instances (without_inst t' j) ! k = (if k < Suc j then 0 else instances t ! k)" if "k < 5" for k
        using t'(3) [OF that] that u(3) by (cases "k = j") (auto simp: less_Suc_eq)
      show "heap ?u r = (if r \<in> set (?f (take (Suc j) (instances t))) then None else heap s r)"
        if "r \<noteq> p" for r
        using t'(4) [OF that] that False q' same unfolding take
        by (auto simp: inst_destroyed_defs)
    qed
    with run show ?thesis by blast
  qed
qed

text \<open>C16. \<open>task_destroy\<close> releases the task and everything it owns (its instances, their return
  arguments and their copies of the arguments), and nothing else.\<close>

lemma task_destroy_ok:
  assumes ok: "task_ok s p t" and uniq: "unique_serials s t"
  shows "\<exists>s'. task_destroy p s = Inr ((), s')
    \<and> heap s' = (\<lambda>r. if r = p \<or> r \<in> set (insts_ptrs s (live_slots t)) then None else heap s r)"
proof -
  note t = task_okD [OF ok]
  have "destroy_inv s p t 0 s"
    unfolding destroy_inv_def using ok uniq by (intro exI [of _ t]) simp
  from for_loop_total [of "destroy_inv s p t" s 5 "destroy_slot p", OF this]
  obtain u where u: "for_loop 5 (destroy_slot p) s = Inr ((), u)" "destroy_inv s p t 5 u"
    using destroy_inv_step [OF ok] by blast
  from u(2) obtain t' where t': "heap u p = Some (OTask t')"
    "\<And>r. r \<noteq> p \<Longrightarrow> heap u r = (if r \<in> set (insts_ptrs s (live_slots t)) then None else heap s r)"
    using t(3) unfolding destroy_inv_def task_ok_def by auto
  have p: "p \<noteq> 0" using t(1,2) by (auto dest: wf_memD)
  with u(1) t'(1) have "task_destroy p s = Inr ((), u\<lparr>heap := (heap u)(p := None),
      total_mem_usage := total_mem_usage u - 40\<rparr>)"
    by (simp add: task_destroy_def prog_simps)
  with t'(2) show ?thesis by (auto simp: fun_eq_iff)
qed

section \<open>The arguments of an instance\<close>

text \<open>Whether argument \<open>i\<close> of the array is the one the signature asks for.\<close>

definition arg_fits :: "string \<Rightarrow> arg_t list \<Rightarrow> nat \<Rightarrow> bool" where
  "arg_fits sig as i \<longleftrightarrow> char_to_argtype ((sig @ [NUL]) ! i) = arg_type (as ! i)
     \<and> nargs (as ! i) = nargs (as ! 0)"

definition args_fit :: "string \<Rightarrow> arg_t list \<Rightarrow> bool" where
  "args_fit sig as \<longleftrightarrow> length sig = unat (nargs (as ! 0)) \<and> length sig < MAX_ARGS
     \<and> (\<forall>i < length sig. arg_fits sig as i)"

text \<open>The loop copies up to the first argument that does not fit.\<close>

lemma copy_args_ok:
  assumes q: "heap s q = Some (OInst ii)" "heap s (parent_task ii) = Some (OTask t)"
    and a: "heap s a = Some (OArgs as)" "i_args ii \<noteq> a" "nargs (as ! 0) = m"
  shows "heap s (i_args ii) = Some (OArgs bs) \<Longrightarrow> length bs = i + k \<Longrightarrow> i + k \<le> length as \<Longrightarrow>
    i + k \<le> length (t_fn_argsig t) \<Longrightarrow> \<forall>l. i \<le> l \<and> l < i + k \<longrightarrow> arg_fits (t_fn_argsig t) as l \<Longrightarrow>
    copy_args k i q a m s = Inr (True, s\<lparr>heap := (heap s)(i_args ii :=
      Some (OArgs (take i bs @ take k (drop i as))))\<rparr>)"
  using q a
proof (induction k arbitrary: i bs s)
  case 0
  then show ?case by (simp add: prog_simps fun_upd_idem)
next
  case (Suc k)
  let ?r = "i_args ii"
  let ?s = "s\<lparr>heap := (heap s)(?r := Some (OArgs (bs[i := as ! i])))\<rparr>"
  have ne: "?r \<noteq> q" "?r \<noteq> parent_task ii" using Suc.prems(1,6,7) by auto
  have i: "i < length as" "i < length bs" "i < length (t_fn_argsig t)" using Suc.prems(2-4) by simp_all
  have fits: "arg_fits (t_fn_argsig t) as i" using Suc.prems(5) by simp
  have "copy_args (Suc k) i q a m s = copy_args k (Suc i) q a m ?s"
    using Suc.prems(1,6-10) i fits by (simp add: prog_simps arg_fits_def nth_append)
  also have "\<dots> = Inr (True, ?s\<lparr>heap := (heap ?s)(?r :=
      Some (OArgs (take (Suc i) (bs[i := as ! i]) @ take k (drop (Suc i) as))))\<rparr>)"
    by (rule Suc.IH) (use Suc.prems ne in auto)
  also have "take (Suc i) (bs[i := as ! i]) @ take k (drop (Suc i) as) = take i bs @ take (Suc k) (drop i as)"
    using i by (simp add: take_Suc_conv_app_nth Cons_nth_drop_Suc [symmetric])
  also have "?s\<lparr>heap := (heap ?s)(?r := Some (OArgs (take i bs @ take (Suc k) (drop i as))))\<rparr>
      = s\<lparr>heap := (heap s)(?r := Some (OArgs (take i bs @ take (Suc k) (drop i as))))\<rparr>"
    by simp
  finally show ?case .
qed

lemma set_args_ok:
  assumes q: "heap s q = Some (OInst ii)" "heap s (parent_task ii) = Some (OTask t)" "i_args ii = 0"
    and a: "heap s a = Some (OArgs as)" "length as = unat (nargs (as ! 0))" "as \<noteq> []"
    and fit: "args_fit (t_fn_argsig t) as" and mem: "wf_mem s" "no_oom s"
  shows "task_instance_set_args q a s = Inr (True, s\<lparr>brk := Suc (brk s),
    total_mem_usage := total_mem_usage s + nargs (as ! 0) * 16,
    heap := (heap s)(q := Some (OInst (ii\<lparr>i_args := Suc (brk s)\<rparr>)), Suc (brk s) := Some (OArgs as))\<rparr>)"
proof -
  let ?r = "Suc (brk s)" and ?m = "nargs (as ! 0)" and ?ii = "ii\<lparr>i_args := Suc (brk s)\<rparr>"
  have nz: "q \<noteq> 0" "a \<noteq> 0" using q(1) a(1) mem(1) by (auto dest: wf_memD)
  have old: "?r \<noteq> q" "?r \<noteq> a" "?r \<noteq> parent_task ii" "q \<noteq> a" "q \<noteq> parent_task ii"
    using q(1,2) a(1) mem(1) by (auto dest: wf_memD)
  have len: "length (t_fn_argsig t) = length as" "length as < 20"
    using fit a(2) by (auto simp: args_fit_def)
  have m: "sint ?m = int (length as)"
  proof -
    have "?m = of_nat (length as)" using a(2) by simp
    then show ?thesis using len(2) sint_of_nat_word32 [of "length as"] by simp
  qed
  have "\<not> 20 \<le> sint ?m" using len(2) by (simp only: m)
  then have small: "\<not> 20 \<le>s ?m" by (simp add: word_sle_eq)
  have iter: "iterations ?m = length as" by (simp only: iterations_def m nat_int)
  have pos: "0 < unat ?m" using a(2,3) by (metis length_greater_0_conv)
  define s1 where "s1 = s\<lparr>brk := ?r, total_mem_usage := total_mem_usage s + ?m * 16,
    heap := (heap s)(?r := Some (OArgs (replicate (length as) zero_arg)), q := Some (OInst ?ii))\<rparr>"
  have s1: "heap s1 q = Some (OInst ?ii)" "heap s1 (parent_task ?ii) = Some (OTask t)"
    "heap s1 a = Some (OArgs as)" "i_args ?ii \<noteq> a" "nargs (as ! 0) = ?m"
    "heap s1 (i_args ?ii) = Some (OArgs (replicate (length as) zero_arg))"
    using q a old by (simp_all add: s1_def)
  have "copy_args (length as) 0 q a ?m s1 = Inr (True, s1\<lparr>heap := (heap s1)(i_args ?ii := Some (OArgs
      (take 0 (replicate (length as) zero_arg) @ take (length as) (drop 0 as))))\<rparr>)"
    by (rule copy_args_ok [OF s1]) (use len fit in \<open>auto simp: args_fit_def\<close>)
  then have "copy_args (length as) 0 q a ?m s1 = Inr (True, s1\<lparr>heap := (heap s1)(?r := Some (OArgs as))\<rparr>)"
    by simp
  then show ?thesis
    using q a nz old len mem small iter pos
    by (simp add: task_instance_set_args_def calloc_args_def prog_simps s1_def fun_upd_twist Let_def)
qed

text \<open>The wrong number of arguments: nothing happens.\<close>

lemma set_args_wrong_number:
  assumes "heap s q = Some (OInst ii)" "heap s (parent_task ii) = Some (OTask t)" "q \<noteq> 0" "a \<noteq> 0"
    and "heap s a = Some (OArgs as)" "as \<noteq> []"
    and "length (t_fn_argsig t) \<noteq> unat (nargs (as ! 0)) \<or> int MAX_ARGS \<le> sint (nargs (as ! 0))"
  shows "task_instance_set_args q a s = Inr (False, s)"
  using assms by (auto simp: task_instance_set_args_def prog_simps Let_def word_sle_eq)

text \<open>The first argument does not fit: the array is released, but its bytes stay counted.\<close>

lemma set_args_first_misfit:
  assumes q: "heap s q = Some (OInst ii)" "heap s (parent_task ii) = Some (OTask t)" "i_args ii = 0"
    and a: "heap s a = Some (OArgs as)" "as \<noteq> []" "0 < length (t_fn_argsig t)" "length (t_fn_argsig t) < 20"
    and n: "nargs (as ! 0) = of_nat (length (t_fn_argsig t))"
    and misfit: "\<not> arg_fits (t_fn_argsig t) as 0" and mem: "wf_mem s" "no_oom s"
  shows "task_instance_set_args q a s = Inr (False, s\<lparr>brk := Suc (brk s),
    total_mem_usage := total_mem_usage s + of_nat (length (t_fn_argsig t)) * 16\<rparr>)"
proof -
  let ?r = "Suc (brk s)" and ?n = "length (t_fn_argsig t)"
  have nz: "q \<noteq> 0" "a \<noteq> 0" using q(1) a(1) mem(1) by (auto dest: wf_memD)
  have old: "?r \<noteq> q" "?r \<noteq> a" "?r \<noteq> parent_task ii" "q \<noteq> a" "q \<noteq> parent_task ii"
    using q(1,2) a(1) mem(1) by (auto dest: wf_memD)
  have small: "\<not> 20 \<le>s (of_nat ?n :: i32)" using a(4) by (simp add: word_sle_eq)
  obtain k where k: "?n = Suc k" using a(3) by (cases ?n) auto
  define u where "u = s\<lparr>brk := ?r, total_mem_usage := total_mem_usage s + of_nat ?n * 16,
    heap := (heap s)(?r := Some (OArgs (replicate ?n zero_arg)), q := Some (OInst (ii\<lparr>i_args := ?r\<rparr>)))\<rparr>"
  have u: "heap u q = Some (OInst (ii\<lparr>i_args := ?r\<rparr>))" "heap u (parent_task ii) = Some (OTask t)"
    "heap u a = Some (OArgs as)" "heap u ?r = Some (OArgs (zero_arg # replicate k zero_arg))"
    using q a old by (simp_all add: u_def k)
  have "(t_fn_argsig t @ [NUL]) ! 0 = t_fn_argsig t ! 0" using a(3) by (simp add: nth_append)
  then have copy: "copy_args ?n 0 q a (of_nat ?n) u
      = andthen (task_instance_args_destroy q) (ret False) u"
    using misfit u a(2,3) n by (simp only: k copy_args.simps) (auto simp: prog_simps arg_fits_def nth_append)
  have "ii\<lparr>i_args := 0\<rparr> = ii" using q(3) by simp
  moreover have "(heap s)(?r := None, q := Some (OInst ii)) = heap s"
    using q(1) mem(1) by (auto simp: wf_mem_def fun_eq_iff)
  ultimately have "copy_args ?n 0 q a (of_nat ?n) u = Inr (False, s\<lparr>brk := Suc (brk s),
    total_mem_usage := total_mem_usage s + of_nat ?n * 16\<rparr>)"
    using u old unfolding copy
    by (simp add: task_instance_args_destroy_def prog_simps zero_arg_def) (simp add: u_def fun_upd_twist)
  then show ?thesis
    using q a(1,2,4) nz old small mem n
    by (simp add: task_instance_set_args_def calloc_args_def prog_simps Let_def u_def fun_upd_twist)
qed

section \<open>The return argument\<close>

lemma set_return_arg_ok:
  assumes "heap s q = Some (OInst ii)" "q \<noteq> 0" "i_return_arg ii \<noteq> 0"
    and "heap s (i_return_arg ii) = Some (OArgs [b])" "heap s a = Some (OArgs as)" "as \<noteq> []"
  shows "task_instance_set_return_arg q a s = Inr ((), if arg_type (as ! 0) = arg_type b
    then s\<lparr>heap := (heap s)(i_return_arg ii := Some (OArgs [b\<lparr>arg_val := arg_val (as ! 0)\<rparr>]))\<rparr> else s)"
  using assms by (simp add: task_instance_set_return_arg_def prog_simps)

section \<open>Two instances with one serial id\<close>

text \<open>C32. The duplicate check of \<open>task_instance_create\<close> stops at the first free slot: when the
  serial id is in use behind it, the call makes a second instance with that id, against the uniqueness the
  check is there for.\<close>

lemma duplicate_behind_hole:
  assumes ok: "task_ok s p t" and mem: "no_oom s"
    and j: "j < k" "k < 5" "instances t ! j = 0" "\<forall>l < j. instances t ! l \<noteq> 0 \<and> serial_of s (instances t ! l) \<noteq> Some n"
    and k: "serial_of s (instances t ! k) = Some n"
  shows "task_instance_create p n s = Inr (Suc (brk s), inst_created s p t n j)
    \<and> \<not> unique_serials (inst_created s p t n j) (with_inst t j (Suc (brk s)))"
proof (rule conjI)
  have len: "length (instances t) = 5" using ok by (rule task_okD)
  have stop: "stop_slot s t n = Some j"
    unfolding stop_slot_def first_idx_Some using j len by auto
  have "0 \<in> set (instances t)" using j len by (metis less_trans nth_mem)
  then have "length (live_slots t) < length (instances t)"
    by (rule length_filter_less) simp
  with task_instance_create_ok [OF ok mem _ stop] j(3) len
  show "task_instance_create p n s = Inr (Suc (brk s), inst_created s p t n j)" by simp
  have "j < 5" using j by simp
  note ser = serial_of_slot [OF ok this j(3)]
  show "\<not> unique_serials (inst_created s p t n j) (with_inst t j (Suc (brk s)))"
  proof
    assume u: "unique_serials (inst_created s p t n j) (with_inst t j (Suc (brk s)))"
    let ?s = "inst_created s p t n j" and ?t = "with_inst t j (Suc (brk s))"
    have "serial_of ?s (instances ?t ! j) = Some n" "serial_of ?s (instances ?t ! k) = Some n"
      using ser [OF \<open>j < 5\<close>] ser [OF j(2)] k j(1) by simp_all
    moreover have "j < length (instances ?t)" "k < length (instances ?t)" using j len by simp_all
    ultimately have "j = k" using u unfolding unique_serials_def by blast
    with j(1) show False by simp
  qed
qed

text \<open>C33. With two instances of one serial id, \<open>task_instance_destroy\<close> of the later one empties
  the slot of the earlier one: the destroyed instance stays in the task's array, as a pointer to freed
  memory.\<close>

lemma destroy_wrong_slot:
  assumes ok: "task_ok s p t" and q: "instances t ! k = q" "q \<noteq> 0" "k < 5" "serial_of s q = Some n"
    and i: "slot_of s t n = Some i" "i \<noteq> k"
  shows "\<exists>s' t'. task_instance_destroy q s = Inr ((), s') \<and> heap s' p = Some (OTask t')
    \<and> instances t' ! k = q \<and> heap s' q = None"
proof -
  have mem: "q \<in> set (instances t)" using q(1,3) task_okD(3) [OF ok] by auto
  note run = task_instance_destroy_slot [OF ok mem q(2,4) i(1)]
  have "inst_ok s p q" using task_okD(6) [OF ok mem q(2)] .
  then have "p \<notin> set (inst_ptrs s q)" "q \<in> set (inst_ptrs s q)"
    using inst_ok_live task_okD(2) [OF ok] by (fastforce, auto simp: inst_ok_def inst_ptrs_def)
  then show ?thesis
    using run i(2) q(1) by (intro exI [of _ "slot_destroyed s p t i q"] exI [of _ "without_inst t i"])
      (simp add: slot_destroyed_def)
qed

section \<open>No room\<close>

lemma task_instance_create_full:
  assumes "task_ok s p t" "length (live_slots t) = 5"
  shows "task_instance_create p n s = Inr (0, s)"
proof -
  have "p \<noteq> 0" using task_okD(1,2) [OF assms(1)] by (auto dest: wf_memD)
  moreover have "num_instances t = 5" using task_okD(4) [OF assms(1)] assms(2) by simp
  ultimately show ?thesis
    using task_okD(2) [OF assms(1)] by (simp add: task_instance_create_def prog_simps)
qed

section \<open>Well-formedness is kept\<close>

lemma task_ok_brk: "task_ok s p t \<Longrightarrow> brk s \<le> b \<Longrightarrow> task_ok (s\<lparr>brk := b\<rparr>) p t"
proof -
  assume ok: "task_ok s p t" and b: "brk s \<le> b"
  have "inst_ok (s\<lparr>brk := b\<rparr>) = inst_ok s" "inst_ptrs (s\<lparr>brk := b\<rparr>) = inst_ptrs s"
    by (simp_all add: inst_ok_def inst_args_ok_def inst_ptrs_def fun_eq_iff cong: if_cong)
  with ok b show ?thesis by (auto simp: task_ok_def wf_mem_def)
qed

text \<open>C14. \<open>task_instance_create\<close> keeps the task well-formed for every serial id and every
  occupation of the slots, whether it makes an instance, meets a duplicate or finds no room.\<close>

lemma create_keeps_wf:
  assumes ok: "task_ok s p t" and mem: "no_oom s"
  shows "\<exists>q s' t'. task_instance_create p n s = Inr (q, s') \<and> task_ok s' p t'
    \<and> length (live_slots t') = length (live_slots t) + (if q = 0 then 0 else 1)"
proof (cases "length (live_slots t) = 5")
  case True
  with task_instance_create_full [OF ok True] ok show ?thesis by force
next
  case False
  then have room: "length (live_slots t) < 5" using live_slots_le [OF ok] by simp
  from stop_slot_exists [OF ok room] obtain j where j: "stop_slot s t n = Some j" by blast
  note run = task_instance_create_ok [OF ok mem room j]
  show ?thesis
  proof (cases "instances t ! j = 0")
    case True
    have "j < 5" using j task_okD(3) [OF ok] by (auto simp: stop_slot_def first_idx_Some)
    moreover from this have "length (live_slots (with_inst t j (Suc (brk s)))) = Suc (length (live_slots t))"
      using length_filter_update [of j "instances t" "\<lambda>q. q \<noteq> 0" "Suc (brk s)"] True task_okD(3) [OF ok] by simp
    ultimately show ?thesis
      using run True inst_created_ok(1) [OF ok, of j n]
      by (intro exI [of _ "Suc (brk s)"] exI [of _ "inst_created s p t n j"]
          exI [of _ "with_inst t j (Suc (brk s))"]) simp
  next
    case False
    have "task_instance_create p n s = Inr (0, s\<lparr>brk := brk s + 2\<rparr>)" using run False by simp
    moreover have "task_ok (s\<lparr>brk := brk s + 2\<rparr>) p t" by (rule task_ok_brk [OF ok]) simp
    ultimately show ?thesis by (intro exI [of _ 0] exI [of _ "s\<lparr>brk := brk s + 2\<rparr>"] exI [of _ t]) simp
  qed
qed

end
