(* ===== verification/Tboard.thy ===== *)
theory Tboard
  imports Task
begin

text \<open>
  The task board (\<open>src/tboard.c\<close>): the registry of tasks by name, starting an instance, and the FreeRTOS
  task that runs an instance.

  The size of a \<open>tboard_t\<close> depends on the FreeRTOS types in it and is a parameter. What FreeRTOS decides
  is one too: whether \<open>xSemaphoreTake\<close> gets the mutex in time. The functions of the application (the
  entry points) are a parameter \<open>stub\<close>: from the entry point and the two pointers of the execution
  context to the \<open>return_arg\<close> the context has when the entry point returns.
\<close>

section \<open>The functions\<close>

definition zero_tboard :: tboard_t where
  "zero_tboard = \<lparr>tb_tasks = replicate MAX_TASKS 0, num_tasks = 0, num_dead_tasks = 0, last_dead_task_id = 0\<rparr>"

definition tboard_create :: "u32 \<Rightarrow> addr c_prog" where
  "tboard_create sz =
     bnd (calloc (OTboard zero_tboard) sz) (\<lambda>b.
     if b = 0 then ret 0
     else andthen (update_tboard b (\<lambda>tb. tb\<lparr>tb_tasks := replicate MAX_TASKS 0, num_tasks := 0,
         num_dead_tasks := 0, last_dead_task_id := 0\<rparr>))
       (andthen (modify (\<lambda>s. s\<lparr>global_tboard := b\<rparr>)) (ret b)))"

definition destroy_entry :: "addr \<Rightarrow> nat \<Rightarrow> unit c_prog" where
  "destroy_entry b i = bnd (load as_tboard b) (\<lambda>tb. bnd (idx (tb_tasks tb) i) (\<lambda>p.
     if p \<noteq> 0 then task_destroy p else ret ()))"

definition tboard_destroy :: "u32 \<Rightarrow> addr \<Rightarrow> unit c_prog" where
  "tboard_destroy sz b =
     (if b = 0 then ret ()
      else andthen (for_loop MAX_TASKS (destroy_entry b)) (free_sized b sz))"

text \<open>The loop over the names: whether a task of this name is registered.\<close>

primrec has_name :: "nat \<Rightarrow> nat \<Rightarrow> addr \<Rightarrow> addr \<Rightarrow> bool c_prog" where
  "has_name 0 i b task = ret False"
| "has_name (Suc k) i b task =
     bnd (load as_tboard b) (\<lambda>tb. bnd (idx (tb_tasks tb) i) (\<lambda>p.
     if p = 0 then has_name k (Suc i) b task
     else bnd (load as_task p) (\<lambda>t. bnd (load as_task task) (\<lambda>t'.
       if t_name t = t_name t' then ret True else has_name k (Suc i) b task))))"

primrec place_task :: "nat \<Rightarrow> nat \<Rightarrow> addr \<Rightarrow> addr \<Rightarrow> unit c_prog" where
  "place_task 0 i b task = ret ()"
| "place_task (Suc k) i b task =
     bnd (load as_tboard b) (\<lambda>tb. bnd (idx (tb_tasks tb) i) (\<lambda>p.
     if p = 0 then update_tboard b (\<lambda>tb. tb\<lparr>tb_tasks := (tb_tasks tb)[i := task]\<rparr>)
     else place_task k (Suc i) b task))"

definition tboard_register_task :: "addr \<Rightarrow> addr \<Rightarrow> unit c_prog" where
  "tboard_register_task b task =
     (if b = 0 \<or> task = 0 then ret () else
      bnd (has_name MAX_TASKS 0 b task) (\<lambda>dup.
      if dup then ret () else
      andthen (place_task MAX_TASKS 0 b task)
      (update_tboard b (\<lambda>tb. tb\<lparr>num_tasks := num_tasks tb + 1\<rparr>))))"

primrec find_name :: "nat \<Rightarrow> nat \<Rightarrow> addr \<Rightarrow> string \<Rightarrow> addr c_prog" where
  "find_name 0 i b name = ret 0"
| "find_name (Suc k) i b name =
     bnd (load as_tboard b) (\<lambda>tb. bnd (idx (tb_tasks tb) i) (\<lambda>p.
     if p = 0 then find_name k (Suc i) b name
     else bnd (load as_task p) (\<lambda>t.
       if name = t_name t then ret p else find_name k (Suc i) b name)))"

definition tboard_find_task_name :: "addr \<Rightarrow> string \<Rightarrow> addr c_prog" where
  "tboard_find_task_name b name = (if b = 0 then ret 0 else find_name MAX_TASKS 0 b name)"

definition tboard_start_task :: "addr \<Rightarrow> string \<Rightarrow> i32 \<Rightarrow> addr \<Rightarrow> addr c_prog" where
  "tboard_start_task b name task_serial_id args =
     (if b = 0 then ret 0 else
      bnd (tboard_find_task_name b name) (\<lambda>task.
      if task = 0 then ret 0 else
      bnd (task_instance_create task task_serial_id) (\<lambda>inst.
      if inst = 0 then ret 0 else
      bnd (task_instance_set_args inst args) (\<lambda>ok.
      if \<not> ok then ret 0
      else
        andthen (modify (\<lambda>s. s\<lparr>trace := trace s @ [Rtos_task inst]\<rparr>))
        (bnd (gets (\<lambda>s. rtos_handle s (trace s))) (\<lambda>h.
        andthen (update_inst inst (\<lambda>i. i\<lparr>task_handle_frtos := h\<rparr>)) (ret inst)))))))"

definition tboard_shutdown :: "addr \<Rightarrow> unit c_prog" where
  "tboard_shutdown b = ret ()"

section \<open>The FreeRTOS task of an instance\<close>

text \<open>
  The wrapper, cut where another FreeRTOS task can run in between: up to the call of the entry point
  (with the context it builds), the call, the two flags, the return value, the report to the board.
\<close>

definition wrapper_start :: "addr \<Rightarrow> (addr \<times> addr) c_prog" where
  "wrapper_start inst =
     andthen (check (inst \<noteq> 0) AssertFailed)
     (bnd (load as_inst inst) (\<lambda>i.
     andthen (update_inst inst (\<lambda>i. i\<lparr>is_running := True\<rparr>))
     (ret (i_args i, i_return_arg i))))"

definition wrapper_call :: "(nat \<Rightarrow> addr \<Rightarrow> addr \<Rightarrow> addr c_prog) \<Rightarrow> addr \<Rightarrow> addr \<times> addr \<Rightarrow> addr c_prog" where
  "wrapper_call stub inst ctx =
     bnd (load as_inst inst) (\<lambda>i. bnd (load as_task (parent_task i)) (\<lambda>t.
     bnd (stub (t_entry_point t) (fst ctx) (snd ctx)) (\<lambda>ra.
     andthen (check (ra \<noteq> 0) AssertFailed) (ret ra))))"

definition wrapper_finish :: "addr \<Rightarrow> unit c_prog" where
  "wrapper_finish inst =
     andthen (update_inst inst (\<lambda>i. i\<lparr>has_finished := True\<rparr>))
     (update_inst inst (\<lambda>i. i\<lparr>is_running := False\<rparr>))"

definition wrapper_result :: "addr \<Rightarrow> addr \<Rightarrow> unit c_prog" where
  "wrapper_result inst ra =
     bnd (get_arg ra 0) (\<lambda>a.
     if arg_type a \<noteq> NULL_TYPE then
       bnd (load as_inst inst) (\<lambda>i. update_arg (i_return_arg i) 0 (\<lambda>r. r\<lparr>arg_val := arg_val a\<rparr>))
     else ret ())"

definition wrapper_report :: "bool \<Rightarrow> addr \<Rightarrow> unit c_prog" where
  "wrapper_report taken inst =
     bnd (gets global_tboard) (\<lambda>b.
     bnd (load as_tboard b) (\<lambda>_.
     if taken then
       bnd (load as_inst inst) (\<lambda>i.
       andthen (update_tboard b (\<lambda>tb. tb\<lparr>last_dead_task_id := serial_id i\<rparr>))
       (update_tboard b (\<lambda>tb. tb\<lparr>num_dead_tasks := num_dead_tasks tb + 1\<rparr>)))
     else ret ()))"

definition task_freertos_entrypoint_wrapper :: "(nat \<Rightarrow> addr \<Rightarrow> addr \<Rightarrow> addr c_prog) \<Rightarrow> bool \<Rightarrow> addr \<Rightarrow> unit c_prog" where
  "task_freertos_entrypoint_wrapper stub taken inst =
     bnd (wrapper_start inst) (\<lambda>ctx.
     bnd (wrapper_call stub inst ctx) (\<lambda>ra.
     andthen (wrapper_finish inst)
     (andthen (wrapper_result inst ra)
     (wrapper_report taken inst))))"

section \<open>The registry of names\<close>

definition name_of :: "world \<Rightarrow> addr \<Rightarrow> string option" where
  "name_of s p = (case heap s p of Some (OTask t) \<Rightarrow> Some (t_name t) | _ \<Rightarrow> None)"

definition tboard_ok :: "world \<Rightarrow> addr \<Rightarrow> tboard_t \<Rightarrow> bool" where
  "tboard_ok s b tb \<longleftrightarrow> wf_mem s \<and> heap s b = Some (OTboard tb) \<and> length (tb_tasks tb) = MAX_TASKS
     \<and> (\<forall>p \<in> set (tb_tasks tb). p \<noteq> 0 \<longrightarrow> (\<exists>t. heap s p = Some (OTask t)))"

text \<open>The abstract view: the task of each name.\<close>

definition task_map :: "world \<Rightarrow> tboard_t \<Rightarrow> string \<Rightarrow> addr option" where
  "task_map s tb n = map_option ((!) (tb_tasks tb)) (first_idx (\<lambda>p. name_of s p = Some n) (tb_tasks tb))"

lemma tboard_okD:
  assumes "tboard_ok s b tb"
  shows "wf_mem s" "heap s b = Some (OTboard tb)" "length (tb_tasks tb) = 20"
    "p \<in> set (tb_tasks tb) \<Longrightarrow> p \<noteq> 0 \<Longrightarrow> \<exists>t. heap s p = Some (OTask t)"
    "b \<noteq> 0" "b \<le> brk s"
  using assms wf_memD [of s b] by (auto simp: tboard_ok_def)

lemma name_of_null: "wf_mem s \<Longrightarrow> name_of s 0 = None"
  by (simp add: name_of_def wf_mem_def)

text \<open>The loops over the tasks, from slot \<open>i\<close> on.\<close>

lemma find_name_ok:
  assumes ok: "tboard_ok s b tb"
  shows "i + k = 20 \<Longrightarrow> find_name k i b n s = Inr (case first_idx (\<lambda>p. name_of s p = Some n) (drop i (tb_tasks tb)) of
    None \<Rightarrow> 0 | Some j \<Rightarrow> tb_tasks tb ! (i + j), s)"
proof (induction k arbitrary: i)
  case 0
  then show ?case using tboard_okD(3) [OF ok] by (simp add: prog_simps)
next
  case (Suc k)
  let ?p = "tb_tasks tb ! i"
  have i: "i < length (tb_tasks tb)" using Suc.prems tboard_okD(3) [OF ok] by simp
  then have split: "drop i (tb_tasks tb) = ?p # drop (Suc i) (tb_tasks tb)"
    by (simp add: Cons_nth_drop_Suc)
  have IH: "find_name k (Suc i) b n s = Inr (case first_idx (\<lambda>p. name_of s p = Some n) (drop (Suc i) (tb_tasks tb)) of
    None \<Rightarrow> 0 | Some j \<Rightarrow> tb_tasks tb ! (Suc i + j), s)"
    by (rule Suc.IH) (use Suc.prems in simp)
  show ?case
  proof (cases "?p = 0")
    case True
    with IH i tboard_okD(2) [OF ok] name_of_null [OF tboard_okD(1) [OF ok]] show ?thesis
      by (simp add: split prog_simps split: option.splits del: first_idx_None)
  next
    case False
    with tboard_okD(4) [OF ok, of ?p] i obtain t where "heap s ?p = Some (OTask t)" by auto
    with IH i False tboard_okD(2) [OF ok] show ?thesis
      by (auto simp: split prog_simps name_of_def split: option.splits simp del: first_idx_None)
  qed
qed

lemma tboard_find_task_name_ok:
  assumes "tboard_ok s b tb"
  shows "tboard_find_task_name b n s = Inr (case task_map s tb n of None \<Rightarrow> 0 | Some p \<Rightarrow> p, s)"
  using find_name_ok [OF assms, of 0 20 n] tboard_okD(5) [OF assms]
  by (simp add: tboard_find_task_name_def task_map_def split: option.splits del: first_idx_None)

lemma has_name_ok:
  assumes ok: "tboard_ok s b tb" and task: "heap s p = Some (OTask t)"
  shows "i + k = 20 \<Longrightarrow> has_name k i b p s = Inr (\<exists>q \<in> set (drop i (tb_tasks tb)). name_of s q = Some (t_name t), s)"
proof (induction k arbitrary: i)
  case 0
  then show ?case using tboard_okD(3) [OF ok] by (simp add: prog_simps)
next
  case (Suc k)
  let ?p = "tb_tasks tb ! i"
  have i: "i < length (tb_tasks tb)" using Suc.prems tboard_okD(3) [OF ok] by simp
  then have split: "drop i (tb_tasks tb) = ?p # drop (Suc i) (tb_tasks tb)"
    by (simp add: Cons_nth_drop_Suc)
  have IH: "has_name k (Suc i) b p s = Inr (\<exists>q \<in> set (drop (Suc i) (tb_tasks tb)). name_of s q = Some (t_name t), s)"
    by (rule Suc.IH) (use Suc.prems in simp)
  show ?case
  proof (cases "?p = 0")
    case True
    with IH i tboard_okD(2) [OF ok] name_of_null [OF tboard_okD(1) [OF ok]] show ?thesis
      by (simp add: split prog_simps)
  next
    case False
    with tboard_okD(4) [OF ok, of ?p] i obtain t' where "heap s ?p = Some (OTask t')" by auto
    with IH i False tboard_okD(2) [OF ok] task show ?thesis
      by (auto simp: split prog_simps name_of_def)
  qed
qed

lemma place_task_ok:
  assumes ok: "tboard_ok s b tb"
  shows "i + k = 20 \<Longrightarrow> place_task k i b p s = Inr ((), case first_idx (\<lambda>q. q = 0) (drop i (tb_tasks tb)) of
    None \<Rightarrow> s
  | Some j \<Rightarrow> s\<lparr>heap := (heap s)(b := Some (OTboard (tb\<lparr>tb_tasks := (tb_tasks tb)[i + j := p]\<rparr>)))\<rparr>)"
proof (induction k arbitrary: i)
  case 0
  then show ?case using tboard_okD(3) [OF ok] by (simp add: prog_simps)
next
  case (Suc k)
  let ?p = "tb_tasks tb ! i"
  have i: "i < length (tb_tasks tb)" using Suc.prems tboard_okD(3) [OF ok] by simp
  then have split: "drop i (tb_tasks tb) = ?p # drop (Suc i) (tb_tasks tb)"
    by (simp add: Cons_nth_drop_Suc)
  have "place_task k (Suc i) b p s = Inr ((), case first_idx (\<lambda>q. q = 0) (drop (Suc i) (tb_tasks tb)) of
    None \<Rightarrow> s
  | Some j \<Rightarrow> s\<lparr>heap := (heap s)(b := Some (OTboard (tb\<lparr>tb_tasks := (tb_tasks tb)[Suc i + j := p]\<rparr>)))\<rparr>)"
    by (rule Suc.IH) (use Suc.prems in simp)
  then show ?case
    using i tboard_okD(2) [OF ok] by (simp add: split prog_simps split: option.splits del: first_idx_None)
qed

text \<open>
  Registration: nothing if the name is taken; otherwise the task goes to the first free entry, if there
  is one, and in any case it is counted.
\<close>

lemma tboard_register_task_ok:
  assumes ok: "tboard_ok s b tb" and task: "heap s p = Some (OTask t)"
  shows "tboard_register_task b p s = Inr ((),
    if task_map s tb (t_name t) \<noteq> None then s
    else s\<lparr>heap := (heap s)(b := Some (OTboard (tb\<lparr>
      tb_tasks := (case first_idx (\<lambda>q. q = 0) (tb_tasks tb) of None \<Rightarrow> tb_tasks tb
        | Some j \<Rightarrow> (tb_tasks tb)[j := p]), num_tasks := num_tasks tb + 1\<rparr>)))\<rparr>)"
proof -
  have p: "p \<noteq> 0" using task tboard_okD(1) [OF ok] by (auto dest: wf_memD)
  have taken: "(\<exists>q \<in> set (tb_tasks tb). name_of s q = Some (t_name t)) \<longleftrightarrow> task_map s tb (t_name t) \<noteq> None"
    by (simp add: task_map_def del: not_None_eq)
  note run = tboard_register_task_def prog_simps has_name_ok [OF ok task, of 0 20, simplified]
    place_task_ok [OF ok, of 0 20, simplified] taken
  show ?thesis
    using p tboard_okD(2,5) [OF ok]
    by (cases "first_idx (\<lambda>q. q = 0) (tb_tasks tb)") (simp_all add: run del: first_idx_None)
qed

text \<open>With room and a fresh name the map is updated, and the board stays well-formed.\<close>

abbreviation with_task :: "tboard_t \<Rightarrow> nat \<Rightarrow> addr \<Rightarrow> tboard_t" where
  "with_task tb j p \<equiv> tb\<lparr>tb_tasks := (tb_tasks tb)[j := p], num_tasks := num_tasks tb + 1\<rparr>"

definition registered :: "world \<Rightarrow> addr \<Rightarrow> tboard_t \<Rightarrow> addr \<Rightarrow> nat \<Rightarrow> world" where
  "registered s b tb p j = s\<lparr>heap := (heap s)(b := Some (OTboard (with_task tb j p)))\<rparr>"

lemma registered_ok:
  assumes ok: "tboard_ok s b tb" and task: "heap s p = Some (OTask t)"
    and fresh: "task_map s tb (t_name t) = None" and j: "first_idx (\<lambda>q. q = 0) (tb_tasks tb) = Some j"
  shows "tboard_ok (registered s b tb p j) b (with_task tb j p)"
    and "task_map (registered s b tb p j) (with_task tb j p)
      = (task_map s tb)(t_name t := Some p)"
proof -
  let ?s = "registered s b tb p j"
    and ?tb = "with_task tb j p"
  note b = tboard_okD [OF ok]
  have j': "j < 20" "tb_tasks tb ! j = 0" using j b(3) by (auto simp: first_idx_Some)
  have bp: "b \<noteq> p" using b(2) task by auto
  have same: "heap ?s q = heap s q" if "q \<noteq> b" for q
    using that by (simp add: registered_def)
  have names: "name_of ?s q = name_of s q" for q
    using b(2) by (auto simp: name_of_def registered_def)
  have wf: "wf_mem ?s" unfolding registered_def by (rule wf_mem_store [OF b(1,2)])
  have live: "\<exists>t. heap ?s q = Some (OTask t)" if q: "q \<in> set (tb_tasks ?tb)" "q \<noteq> 0" for q
  proof -
    have "q = p \<or> q \<in> set (tb_tasks tb)" using q(1) set_update_subset_insert [of "tb_tasks tb" j p] by auto
    with b(4) [of q] q(2) task obtain t' where "heap s q = Some (OTask t')" by auto
    moreover from this b(2) have "q \<noteq> b" by auto
    ultimately show ?thesis using same [of q] by simp
  qed
  show "tboard_ok ?s b ?tb"
    using wf live b(3) unfolding tboard_ok_def by (simp add: registered_def)
  have at: "name_of ?s (tb_tasks ?tb ! k) = (if k = j then Some (t_name t) else name_of s (tb_tasks tb ! k))"
    if "k < 20" for k
    using that j' b(3) task names by (simp add: name_of_def)
  have none: "name_of s (tb_tasks tb ! k) \<noteq> Some (t_name t)" if "k < 20" for k
    using fresh that b(3) nth_mem [of k "tb_tasks tb"] by (auto simp: task_map_def)
  show "task_map ?s ?tb = (task_map s tb)(t_name t := Some p)"
  proof (rule ext)
    fix m
    show "task_map ?s ?tb m = ((task_map s tb)(t_name t := Some p)) m"
    proof (cases "m = t_name t")
      case True
      have "first_idx (\<lambda>q. name_of ?s q = Some m) (tb_tasks ?tb) = Some j"
        unfolding first_idx_Some
      proof (intro conjI allI impI)
        show "name_of ?s (tb_tasks ?tb ! j) = Some m" using at [OF j'(1)] True by simp
        show "name_of ?s (tb_tasks ?tb ! k) \<noteq> Some m" if "k < j" for k
          using at [of k] none [of k] that j'(1) True by simp
      qed (use b(3) j' in simp)
      with True j' b(3) show ?thesis by (simp add: task_map_def)
    next
      case False
      have "first_idx (\<lambda>q. name_of ?s q = Some m) (tb_tasks ?tb) = first_idx (\<lambda>q. name_of s q = Some m) (tb_tasks tb)"
        by (rule first_idx_pointwise) (use at b(3) False j' name_of_null [OF b(1)] in auto)
      moreover have "first_idx (\<lambda>q. name_of s q = Some m) (tb_tasks tb) \<noteq> Some j"
        using j'(2) name_of_null [OF b(1)] by (auto simp: first_idx_Some)
      ultimately show ?thesis
        using False by (cases "first_idx (\<lambda>q. name_of s q = Some m) (tb_tasks tb)") (auto simp: task_map_def simp del: first_idx_None)
    qed
  qed
qed

text \<open>C13. \<open>tboard_register_task\<close> refines an update of the map from names to tasks: the map
  changes only for a new name and only if an entry is free, the board stays well-formed, and the number of
  tasks counts every new name, whether or not it got an entry.\<close>

lemma register_refines_map:
  assumes ok: "tboard_ok s b tb" and task: "heap s p = Some (OTask t)"
  shows "\<exists>s' tb'. tboard_register_task b p s = Inr ((), s') \<and> tboard_ok s' b tb'
    \<and> task_map s' tb' = (if task_map s tb (t_name t) = None \<and> 0 \<in> set (tb_tasks tb)
        then (task_map s tb)(t_name t := Some p) else task_map s tb)
    \<and> num_tasks tb' = num_tasks tb + (if task_map s tb (t_name t) = None then 1 else 0)"
proof -
  note run = tboard_register_task_ok [OF ok task]
  consider q where "task_map s tb (t_name t) = Some q"
    | j where "task_map s tb (t_name t) = None" "first_idx (\<lambda>q. q = 0) (tb_tasks tb) = Some j"
    | "task_map s tb (t_name t) = None" "first_idx (\<lambda>q. q = 0) (tb_tasks tb) = None"
    by fastforce
  then show ?thesis
  proof cases
    case 1
    with run ok show ?thesis by (intro exI [of _ s] exI [of _ tb]) simp
  next
    case 2
    then have "0 \<in> set (tb_tasks tb)" by (auto simp: first_idx_Some in_set_conv_nth)
    with 2 run registered_ok [OF ok task 2] show ?thesis
      by (intro exI [of _ "registered s b tb p j"] exI [of _ "with_task tb j p"]) (simp add: registered_def)
  next
    case 3
    then have none: "0 \<notin> set (tb_tasks tb)" by auto
    let ?tb = "tb\<lparr>num_tasks := num_tasks tb + 1\<rparr>"
    let ?s = "s\<lparr>heap := (heap s)(b := Some (OTboard ?tb))\<rparr>"
    note b = tboard_okD [OF ok]
    have names: "name_of ?s = name_of s" using b(2) by (auto simp: name_of_def fun_eq_iff)
    have "tboard_ok ?s b ?tb"
      using ok b(2) wf_mem_store [OF b(1,2)] by (fastforce simp: tboard_ok_def)
    moreover have "task_map ?s ?tb = task_map s tb" by (simp add: task_map_def names fun_eq_iff)
    moreover have "tboard_register_task b p s = Inr ((), ?s)" using run 3 by (simp del: first_idx_None)
    ultimately show ?thesis using 3(1) none by (intro exI [of _ ?s] exI [of _ ?tb]) simp
  qed
qed

section \<open>Starting a task\<close>

lemma start_unknown:
  assumes "tboard_ok s b tb" "task_map s tb name = None"
  shows "tboard_start_task b name n args s = Inr (0, s)"
  using tboard_find_task_name_ok [OF assms(1), of name] assms(2) tboard_okD(5) [OF assms(1)]
  by (simp add: tboard_start_task_def prog_simps)

text \<open>What a start does once the name is found.\<close>

lemma start_known:
  assumes ok: "tboard_ok s b tb" and name: "task_map s tb name = Some p" and t: "task_ok s p t"
    and mem: "no_oom s" and room: "length (live_slots t) < 5"
    and fresh: "slot_of s t n = None" and j: "stop_slot s t n = Some j"
  shows "tboard_start_task b name n args s =
    (case task_instance_set_args (Suc (brk s)) args (inst_created s p t n j) of
       Inl f \<Rightarrow> Inl f
     | Inr (ok, s') \<Rightarrow> if ok then
         (case update_inst (Suc (brk s)) (\<lambda>i. i\<lparr>task_handle_frtos := rtos_handle s' (trace s' @ [Rtos_task (Suc (brk s))])\<rparr>)
             (s'\<lparr>trace := trace s' @ [Rtos_task (Suc (brk s))]\<rparr>) of
           Inl f \<Rightarrow> Inl f | Inr (_, s'') \<Rightarrow> Inr (Suc (brk s), s''))
         else Inr (0, s'))"
proof -
  have "p \<noteq> 0" using task_okD(1,2) [OF t] by (auto dest: wf_memD)
  moreover have "instances t ! j = 0" using fresh_stop_slot [OF j fresh] by simp
  ultimately show ?thesis
    using tboard_find_task_name_ok [OF ok, of name] name tboard_okD(5) [OF ok]
      task_instance_create_ok [OF t mem room j]
    by (simp add: tboard_start_task_def prog_simps split: sum.splits prod.splits)
qed

text \<open>The new instance with the arguments \<open>q\<close>; what else the heap holds is as it was.\<close>

lemma inst_created_heap:
  assumes t: "task_ok s p t"
  shows "heap (inst_created s p t n j) (Suc (brk s)) = Some (OInst (new_inst p n (Suc (Suc (brk s)))))"
    and "heap (inst_created s p t n j) p = Some (OTask (with_inst t j (Suc (brk s))))"
    and "heap s r = Some ob \<Longrightarrow> r \<noteq> p \<Longrightarrow> heap (inst_created s p t n j) r = Some ob"
    and "wf_mem (inst_created s p t n j)" "no_oom s \<Longrightarrow> no_oom (inst_created s p t n j)"
proof -
  note t' = task_okD [OF t]
  have p: "p \<le> brk s" "p \<noteq> 0" using t'(1,2) by (auto dest: wf_memD)
  then show "heap (inst_created s p t n j) (Suc (brk s)) = Some (OInst (new_inst p n (Suc (Suc (brk s)))))"
    "heap (inst_created s p t n j) p = Some (OTask (with_inst t j (Suc (brk s))))"
    by (simp_all add: inst_created_def)
  show "heap (inst_created s p t n j) r = Some ob" if "heap s r = Some ob" "r \<noteq> p"
  proof -
    have "r \<le> brk s" using that t'(1) by (auto dest: wf_memD)
    with that show ?thesis by (simp add: inst_created_def)
  qed
  show "wf_mem (inst_created s p t n j)" using t'(1) p by (simp add: wf_mem_def inst_created_def)
  show "no_oom (inst_created s p t n j)" if "no_oom s" using that by (simp add: no_oom_def inst_created_def)
qed

text \<open>
  The state a start leaves: the new instance in its slot, with its own array of the arguments and the
  handle of its FreeRTOS task.
\<close>

definition launched :: "world \<Rightarrow> addr \<Rightarrow> u32 \<Rightarrow> task_instance_t" where
  "launched s p n = (new_inst p n (Suc (Suc (brk s))))\<lparr>i_args := Suc (Suc (Suc (brk s))),
     task_handle_frtos := rtos_handle s (trace s @ [Rtos_task (Suc (brk s))])\<rparr>"

definition started :: "world \<Rightarrow> addr \<Rightarrow> task_t \<Rightarrow> u32 \<Rightarrow> nat \<Rightarrow> arg_t list \<Rightarrow> world" where
  "started s p t n j as = (let c = inst_created s p t n j in c\<lparr>brk := Suc (brk c),
     total_mem_usage := total_mem_usage c + of_nat (length as) * 16,
     heap := (heap c)(Suc (brk s) := Some (OInst (launched s p n)),
       Suc (brk c) := Some (OArgs as)),
     trace := trace s @ [Rtos_task (Suc (brk s))]\<rparr>)"

lemma started_heap:
  assumes t: "task_ok s p t"
  shows "heap (started s p t n j as) (Suc (brk s)) = Some (OInst (launched s p n))"
    and "heap (started s p t n j as) (Suc (Suc (Suc (brk s)))) = Some (OArgs as)"
    and "heap s r = Some ob \<Longrightarrow> r \<noteq> p \<Longrightarrow> heap (started s p t n j as) r = Some ob"
    and "wf_mem (started s p t n j as)" "no_oom s \<Longrightarrow> no_oom (started s p t n j as)"
    and "trace (started s p t n j as) = trace s @ [Rtos_task (Suc (brk s))]"
    and "global_tboard (started s p t n j as) = global_tboard s" "cmd_id (started s p t n j as) = cmd_id s"
proof -
  note h = inst_created_heap [OF t, where n = n and j = j]
  show "heap (started s p t n j as) (Suc (brk s)) = Some (OInst (launched s p n))"
    "heap (started s p t n j as) (Suc (Suc (Suc (brk s)))) = Some (OArgs as)"
    "trace (started s p t n j as) = trace s @ [Rtos_task (Suc (brk s))]"
    "global_tboard (started s p t n j as) = global_tboard s" "cmd_id (started s p t n j as) = cmd_id s"
    by (simp_all add: started_def inst_created_def Let_def)
  show "heap (started s p t n j as) r = Some ob" if "heap s r = Some ob" "r \<noteq> p"
  proof -
    have "r \<le> brk s" using that task_okD(1) [OF t] by (auto dest: wf_memD)
    with that show ?thesis by (simp add: started_def Let_def inst_created_def)
  qed
  show "wf_mem (started s p t n j as)"
    using task_okD(1) [OF t] wf_memD [OF task_okD(1,2) [OF t]]
    by (simp add: started_def Let_def wf_mem_def inst_created_def)
  show "no_oom (started s p t n j as)" if "no_oom s" using h(5) [OF that] by (simp add: started_def Let_def no_oom_def)
qed

lemma start_exact:
  assumes ok: "tboard_ok s b tb" and name: "task_map s tb name = Some p" and t: "task_ok s p t"
    and mem: "no_oom s" and room: "length (live_slots t) < 5" and fresh: "slot_of s t n = None"
    and j: "stop_slot s t n = Some j"
    and a: "heap s a = Some (OArgs as)" "length as = unat (nargs (as ! 0))" "as \<noteq> []"
    and fit: "args_fit (t_fn_argsig t) as"
  shows "tboard_start_task b name n a s = Inr (Suc (brk s), started s p t n j as)"
proof -
  let ?q = "Suc (brk s)" and ?s = "inst_created s p t n j" and ?i = "new_inst p n (Suc (Suc (brk s)))"
  have "a \<noteq> p" using a(1) task_okD(2) [OF t] by auto
  note h = inst_created_heap [OF t, where n = n and j = j]
  have "task_instance_set_args ?q a ?s = Inr (True, ?s\<lparr>brk := Suc (brk ?s),
    total_mem_usage := total_mem_usage ?s + nargs (as ! 0) * 16,
    heap := (heap ?s)(?q := Some (OInst (?i\<lparr>i_args := Suc (brk ?s)\<rparr>)), Suc (brk ?s) := Some (OArgs as))\<rparr>)"
    by (rule set_args_ok [where t = "with_inst t j ?q", OF h(1) _ _ h(3) [OF a(1) \<open>a \<noteq> p\<close>] a(2,3)])
      (use fit h(2,4,5) mem in \<open>simp_all add: new_inst_def zero_inst_def\<close>)
  moreover have "nargs (as ! 0) = of_nat (length as)" using a(2) by simp
  ultimately show ?thesis
    using start_known [OF ok name t mem room fresh j, of a]
    by (simp add: started_def Let_def inst_created_def launched_def prog_simps)
      (auto simp: fun_eq_iff intro!: arg_cong2 [where f = heap_update])
qed


text \<open>Without arguments no number and no type is checked: any task starts, with \<open>NULL\<close> for its arguments.\<close>

lemma start_no_args:
  assumes ok: "tboard_ok s b tb" and name: "task_map s tb name = Some p" and t: "task_ok s p t"
    and mem: "no_oom s" and room: "length (live_slots t) < 5" and fresh: "slot_of s t n = None"
  shows "\<exists>q s' i. tboard_start_task b name n 0 s = Inr (q, s') \<and> q \<noteq> 0
    \<and> heap s' q = Some (OInst i) \<and> serial_id i = n \<and> i_args i = 0 \<and> trace s' = trace s @ [Rtos_task q]"
proof -
  from stop_slot_exists [OF t room] obtain j where j: "stop_slot s t n = Some j" by blast
  note h = inst_created_heap [OF t, where n = n and j = j]
  have "task_instance_set_args (Suc (brk s)) 0 (inst_created s p t n j)
      = Inr (True, (inst_created s p t n j)\<lparr>heap := (heap (inst_created s p t n j))(Suc (brk s) :=
          Some (OInst ((new_inst p n (Suc (Suc (brk s))))\<lparr>i_args := 0\<rparr>)))\<rparr>)"
    using h(1) by (simp add: task_instance_set_args_def prog_simps)
  with start_known [OF ok name t mem room fresh j, of 0] show ?thesis
    by (simp add: new_inst_def inst_created_def prog_simps)
qed

text \<open>C34. A start that fails over the number of its arguments returns \<open>NULL\<close> but has made the
  instance: the instance keeps its slot, and its serial id is taken.\<close>

lemma start_leaks:
  assumes ok: "tboard_ok s b tb" and name: "task_map s tb name = Some p" and t: "task_ok s p t"
    and mem: "no_oom s" and room: "length (live_slots t) < 5" and fresh: "slot_of s t n = None"
    and a: "heap s a = Some (OArgs as)" "as \<noteq> []"
    and bad: "length (t_fn_argsig t) \<noteq> unat (nargs (as ! 0)) \<or> int MAX_ARGS \<le> sint (nargs (as ! 0))"
  shows "\<exists>s' t'. tboard_start_task b name n a s = Inr (0, s') \<and> task_ok s' p t'
    \<and> length (live_slots t') = Suc (length (live_slots t)) \<and> inst_map s' t' n \<noteq> None"
proof -
  from stop_slot_exists [OF t room] obtain j where j: "stop_slot s t n = Some j" by blast
  let ?q = "Suc (brk s)" and ?s = "inst_created s p t n j"
  have "a \<noteq> p" "a \<noteq> 0" using a(1) task_okD(1,2) [OF t] by (auto dest: wf_memD)
  note h = inst_created_heap [OF t, where n = n and j = j]
  have "task_instance_set_args ?q a ?s = Inr (False, ?s)"
    by (rule set_args_wrong_number [where t = "with_inst t j ?q", OF h(1) _ _ \<open>a \<noteq> 0\<close> h(3) [OF a(1) \<open>a \<noteq> p\<close>] a(2)])
      (use bad h(2) in \<open>simp_all add: new_inst_def zero_inst_def\<close>)
  with start_known [OF ok name t mem room fresh j, of a]
  have "tboard_start_task b name n a s = Inr (0, ?s)" by simp
  moreover have j': "j < 5" "instances t ! j = 0"
    using fresh_stop_slot [OF j fresh] task_okD(3) [OF t] by auto
  moreover have "length (live_slots (with_inst t j ?q)) = Suc (length (live_slots t))"
    using length_filter_update [of j "instances t" "\<lambda>q. q \<noteq> 0" ?q] j' task_okD(3) [OF t] by simp
  ultimately show ?thesis
    using inst_created_ok(1) [OF t j'] inst_created_map(1) [OF t fresh j]
    by (intro exI [of _ ?s] exI [of _ "with_inst t j ?q"]) simp
qed

text \<open>With no slot left every start of the task fails.\<close>

lemma start_full:
  assumes "tboard_ok s b tb" "task_map s tb name = Some p" "task_ok s p t" "length (live_slots t) = 5"
  shows "tboard_start_task b name n a s = Inr (0, s)"
proof -
  have "p \<noteq> 0" using task_okD(1,2) [OF assms(3)] by (auto dest: wf_memD)
  then show ?thesis
    using tboard_find_task_name_ok [OF assms(1), of name] assms(2) tboard_okD(5) [OF assms(1)]
      task_instance_create_full [OF assms(3,4)]
    by (simp add: tboard_start_task_def prog_simps)
qed

section \<open>The run of an instance\<close>

text \<open>An entry point that writes its result through the context and touches nothing else.\<close>

definition plain_stub :: "argvalue_t \<Rightarrow> nat \<Rightarrow> addr \<Rightarrow> addr \<Rightarrow> addr c_prog" where
  "plain_stub v ep args ra = andthen (update_arg ra 0 (\<lambda>a. a\<lparr>arg_val := v\<rparr>)) (ret ra)"

text \<open>One that computes it from its arguments.\<close>

definition calc_stub :: "(arg_t list \<Rightarrow> argvalue_t) \<Rightarrow> nat \<Rightarrow> addr \<Rightarrow> addr \<Rightarrow> addr c_prog" where
  "calc_stub f ep args ra = bnd (load as_args args) (\<lambda>as. plain_stub (f as) ep args ra)"

text \<open>C17. The FreeRTOS wrapper runs the entry point of the instance's task on the instance's arguments, and then
  copies the value of the return argument in the context, which the entry point may have replaced, into the
  instance's own unless its type is \<open>NULL_TYPE\<close>; it sets \<open>has_finished\<close>, clears \<open>is_running\<close>, and
  reports the serial id to the board if it gets the mutex. Beyond what the entry point does, for any entry point
  that leaves its instance and the board in place, nothing else changes.\<close>

lemma wrapper_ok:
  assumes q: "heap s q = Some (OInst i)" "q \<noteq> 0" and t: "heap s (parent_task i) = Some (OTask t)"
    and stub: "stub (t_entry_point t) (i_args i) (i_return_arg i)
      (s\<lparr>heap := (heap s)(q := Some (OInst (i\<lparr>is_running := True\<rparr>)))\<rparr>) = Inr (r, s1)"
    and r: "heap s1 r = Some (OArgs (b # bs))" "r \<noteq> 0"
    and i': "heap s1 q = Some (OInst i')" "heap s1 (i_return_arg i') = Some (OArgs (a # as))"
    and tb: "heap s1 (global_tboard s1) = Some (OTboard tb)"
  shows "task_freertos_entrypoint_wrapper stub taken q s = Inr ((), s1\<lparr>heap := (heap s1)
    (q := Some (OInst (i'\<lparr>has_finished := True, is_running := False\<rparr>)),
     i_return_arg i' := Some (OArgs (a\<lparr>arg_val := if arg_type b = NULL_TYPE then arg_val a else arg_val b\<rparr> # as)),
     global_tboard s1 := Some (OTboard (if taken
       then tb\<lparr>last_dead_task_id := serial_id i', num_dead_tasks := num_dead_tasks tb + 1\<rparr> else tb)))\<rparr>)"
proof -
  let ?q = "Some (OInst (i'\<lparr>has_finished := True, is_running := False\<rparr>))"
    and ?ra = "Some (OArgs (a\<lparr>arg_val := if arg_type b = NULL_TYPE then arg_val a else arg_val b\<rparr> # as))"
    and ?s = "s\<lparr>heap := (heap s)(q := Some (OInst (i\<lparr>is_running := True\<rparr>)))\<rparr>"
  define s2 where "s2 = s1\<lparr>heap := (heap s1)(q := ?q)\<rparr>"
  define s3 where "s3 = s2\<lparr>heap := (heap s2)(i_return_arg i' := ?ra)\<rparr>"
  have ne: "q \<noteq> parent_task i" "q \<noteq> r" "q \<noteq> i_return_arg i'" "q \<noteq> global_tboard s1" "i_return_arg i' \<noteq> global_tboard s1"
    using q t r i' tb by auto
  have start: "wrapper_start q s = Inr ((i_args i, i_return_arg i), ?s)"
    using q by (simp add: wrapper_start_def prog_simps)
  have run: "wrapper_call stub q (i_args i, i_return_arg i) ?s = Inr (r, s1)"
    using q t ne(1) stub r(2) by (simp add: wrapper_call_def prog_simps)
  have finish: "wrapper_finish q s1 = Inr ((), s2)"
    using i'(1) by (simp add: wrapper_finish_def prog_simps s2_def)
  have h2: "heap s2 r = Some (OArgs (b # bs))" "heap s2 (i_return_arg i') = Some (OArgs (a # as))" "heap s2 q = ?q"
    using r(1) i'(2) ne by (simp_all add: s2_def)
  have result: "wrapper_result q r s2 = Inr ((), s3)"
  proof (cases "arg_type b = NULL_TYPE")
    case True
    with h2 show ?thesis by (simp add: wrapper_result_def prog_simps s3_def fun_upd_idem)
  next
    case False
    with h2 show ?thesis by (simp add: wrapper_result_def prog_simps s3_def)
  qed
  have h3: "heap s3 q = ?q" "heap s3 (global_tboard s3) = Some (OTboard tb)"
    using h2(3) tb ne by (simp_all add: s3_def s2_def)
  have "wrapper_report taken q s3 = Inr ((), s3\<lparr>heap := (heap s3)(global_tboard s3 := Some (OTboard (if taken
      then tb\<lparr>last_dead_task_id := serial_id i', num_dead_tasks := num_dead_tasks tb + 1\<rparr> else tb)))\<rparr>)"
    using h3 by (cases taken) (auto simp: wrapper_report_def prog_simps fun_upd_idem)
  with start run finish result show ?thesis
    by (simp add: task_freertos_entrypoint_wrapper_def prog_simps s3_def s2_def)
qed

end
