(* ===== verification/Instances.thy ===== *)
theory Instances
  imports Tboard
begin

text \<open>
  The two clients of a task's instances: whoever starts and collects them by serial id, and the FreeRTOS
  task that runs one. The first relies only on the laws of \<open>instance_table\<close>, which the functions of
  \<open>task.c\<close> satisfy; for the second, the steps of the wrapper interleave with those of the collector
  (\<open>_cnode_return_task\<close>), which polls \<open>has_finished\<close> and then destroys the instance.
\<close>

section \<open>The table of instances\<close>

text \<open>What a client asks for; \<open>serve\<close> carries it out with the three operations.\<close>

datatype request = Start u32 | Finish u32

fun serve :: "(u32 \<Rightarrow> addr c_prog) \<Rightarrow> (u32 \<Rightarrow> addr c_prog) \<Rightarrow> (addr \<Rightarrow> unit c_prog) \<Rightarrow>
    request list \<Rightarrow> unit c_prog" where
  "serve crt fnd dst [] = ret ()"
| "serve crt fnd dst (Start n # rs) = bnd (crt n) (\<lambda>_. serve crt fnd dst rs)"
| "serve crt fnd dst (Finish n # rs) = bnd (fnd n) (\<lambda>q.
     if q = 0 then serve crt fnd dst rs
     else andthen (dst q) (serve crt fnd dst rs))"

text \<open>A schedule that never starts a serial id in use nor more than five at a time, and what is left.\<close>

fun schedule_ok :: "u32 set \<Rightarrow> request list \<Rightarrow> bool" where
  "schedule_ok A [] \<longleftrightarrow> True"
| "schedule_ok A (Start n # rs) \<longleftrightarrow> n \<notin> A \<and> card A < MAX_INSTANCES \<and> schedule_ok (insert n A) rs"
| "schedule_ok A (Finish n # rs) \<longleftrightarrow> schedule_ok (A - {n}) rs"

fun running_after :: "u32 set \<Rightarrow> request list \<Rightarrow> u32 set" where
  "running_after A [] = A"
| "running_after A (Start n # rs) = running_after (insert n A) rs"
| "running_after A (Finish n # rs) = running_after (A - {n}) rs"

locale instance_table =
  fixes ok :: "world \<Rightarrow> bool"
    and tbl :: "world \<Rightarrow> u32 \<Rightarrow> addr option"
    and crt :: "u32 \<Rightarrow> addr c_prog"
    and fnd :: "u32 \<Rightarrow> addr c_prog"
    and dst :: "addr \<Rightarrow> unit c_prog"
  assumes finite_tbl: "ok s \<Longrightarrow> finite (dom (tbl s))"
    and create_law: "ok s \<Longrightarrow> tbl s n = None \<Longrightarrow> card (dom (tbl s)) < MAX_INSTANCES \<Longrightarrow>
      \<exists>q s'. crt n s = Inr (q, s') \<and> q \<noteq> 0 \<and> ok s' \<and> tbl s' = (tbl s)(n := Some q)"
    and find_law: "ok s \<Longrightarrow> fnd n s = Inr (case tbl s n of None \<Rightarrow> 0 | Some q \<Rightarrow> q, s)"
    and find_nonzero: "ok s \<Longrightarrow> tbl s n = Some q \<Longrightarrow> q \<noteq> 0"
    and destroy_law: "ok s \<Longrightarrow> tbl s n = Some q \<Longrightarrow>
      \<exists>s'. dst q s = Inr ((), s') \<and> ok s' \<and> tbl s' = (tbl s)(n := None)"
begin

lemma serve_schedule:
  "ok s \<Longrightarrow> schedule_ok (dom (tbl s)) rs \<Longrightarrow>
    \<exists>s'. serve crt fnd dst rs s = Inr ((), s') \<and> ok s' \<and> dom (tbl s') = running_after (dom (tbl s)) rs"
proof (induction rs arbitrary: s)
  case Nil
  then show ?case by (simp add: prog_simps)
next
  case (Cons r rs)
  show ?case
  proof (cases r)
    case (Start n)
    with Cons.prems have n: "tbl s n = None" "card (dom (tbl s)) < 5" by auto
    from create_law [OF Cons.prems(1) n] obtain q s1 where
      "crt n s = Inr (q, s1)" "ok s1" "tbl s1 = (tbl s)(n := Some q)" by blast
    moreover from this have dom: "dom (tbl s1) = insert n (dom (tbl s))" by simp
    ultimately show ?thesis using Cons.IH [of s1, unfolded dom] Cons.prems(2) Start by (simp add: prog_simps)
  next
    case (Finish n)
    show ?thesis
    proof (cases "tbl s n")
      case None
      then have "dom (tbl s) - {n} = dom (tbl s)" by auto
      with Cons.IH [of s] Cons.prems Finish None find_law [OF Cons.prems(1), of n] show ?thesis
        by (simp add: prog_simps)
    next
      case (Some q)
      from destroy_law [OF Cons.prems(1) Some] obtain s1 where
        "dst q s = Inr ((), s1)" "ok s1" "tbl s1 = (tbl s)(n := None)" by blast
      moreover from this have dom: "dom (tbl s1) = dom (tbl s) - {n}" by simp
      ultimately show ?thesis
        using Cons.IH [of s1, unfolded dom] Cons.prems Finish Some find_law [OF Cons.prems(1), of n]
          find_nonzero [OF Cons.prems(1) Some] by (simp add: prog_simps)
    qed
  qed
qed

end

text \<open>Looking an instance up as \<open>_cnode_return_task\<close> does: its index, then the pointer there.\<close>

definition find_instance_ptr :: "addr \<Rightarrow> u32 \<Rightarrow> addr c_prog" where
  "find_instance_ptr task n = bnd (task_get_instance_index task n) (\<lambda>r. case r of
     None \<Rightarrow> ret 0
   | Some i \<Rightarrow> bnd (load as_task task) (\<lambda>t. idx (instances t) i))"

definition table_ok :: "addr \<Rightarrow> world \<Rightarrow> bool" where
  "table_ok p s \<longleftrightarrow> (\<exists>t. task_ok s p t \<and> unique_serials s t \<and> no_oom s)"

definition table_of :: "addr \<Rightarrow> world \<Rightarrow> u32 \<Rightarrow> addr option" where
  "table_of p s = (case heap s p of Some (OTask t) \<Rightarrow> inst_map s t | _ \<Rightarrow> (\<lambda>_. None))"

lemma table_of_ok: "task_ok s p t \<Longrightarrow> table_of p s = inst_map s t"
  using task_okD(2) [of s p t] by (simp add: table_of_def)

lemma inst_map_Some:
  assumes "task_ok s p t" "inst_map s t n = Some q"
  shows "\<exists>i. slot_of s t n = Some i \<and> instances t ! i = q \<and> serial_of s q = Some n \<and> q \<noteq> 0"
proof -
  from assms(2) obtain i where i: "slot_of s t n = Some i" "instances t ! i = q"
    by (auto simp: inst_map_def)
  then have "serial_of s q = Some n" by (auto simp: slot_of_def first_idx_Some)
  with i serial_of_null [OF task_okD(1) [OF assms(1)]] show ?thesis by (metis option.distinct(1))
qed

text \<open>Lists that have no element in common, each with its head in it.\<close>

lemma distinct_concat_heads:
  "distinct (concat (map f xs)) \<Longrightarrow> (\<And>x. x \<in> set xs \<Longrightarrow> x \<in> set (f x)) \<Longrightarrow> distinct xs"
proof (induction xs)
  case (Cons x xs)
  have "x \<notin> set xs" using Cons.prems by fastforce
  with Cons show ?case by simp
qed simp

text \<open>With unique serial ids there are as many of them as instances.\<close>

lemma dom_inst_map: "dom (inst_map s t) = {n. \<exists>q \<in> set (instances t). serial_of s q = Some n}"
  by (simp add: inst_map_def slot_of_def dom_def del: not_None_eq)

lemma card_inst_map:
  assumes ok: "task_ok s p t" and uniq: "unique_serials s t"
  shows "finite (dom (inst_map s t))" "card (dom (inst_map s t)) = length (live_slots t)"
proof -
  let ?f = "\<lambda>q. the (serial_of s q)"
  have live: "\<exists>n. serial_of s q = Some n" if "q \<in> set (live_slots t)" for q
    using task_okD(6) [OF ok, of q] that by (auto simp: inst_ok_def serial_of_def)
  have dom: "dom (inst_map s t) = ?f ` set (live_slots t)"
  proof (intro set_eqI iffI)
    fix n assume "n \<in> dom (inst_map s t)"
    then obtain q where "q \<in> set (instances t)" "serial_of s q = Some n" by (auto simp: dom_inst_map)
    moreover from this serial_of_null [OF task_okD(1) [OF ok]] have "q \<noteq> 0" by (metis option.distinct(1))
    ultimately show "n \<in> ?f ` set (live_slots t)"
      by (intro image_eqI [of _ _ q]) auto
  next
    fix n assume "n \<in> ?f ` set (live_slots t)"
    then obtain q where q: "q \<in> set (live_slots t)" "n = ?f q" by blast
    with live [of q] show "n \<in> dom (inst_map s t)" by (auto simp: dom_inst_map)
  qed
  have inj: "inj_on ?f (set (live_slots t))"
  proof (rule inj_onI)
    fix a b assume ab: "a \<in> set (live_slots t)" "b \<in> set (live_slots t)" "?f a = ?f b"
    from live [OF ab(1)] live [OF ab(2)] ab(3) obtain n where "serial_of s a = Some n" "serial_of s b = Some n"
      by auto
    moreover from ab obtain i j where "i < length (instances t)" "a = instances t ! i"
      "j < length (instances t)" "b = instances t ! j"
      by (auto simp: in_set_conv_nth)
    ultimately show "a = b" using uniq unfolding unique_serials_def by blast
  qed
  have ne: "q \<in> set (inst_ptrs s q)" if "q \<in> set (live_slots t)" for q
    using task_okD(6) [OF ok, of q] that by (auto simp: inst_ok_def inst_ptrs_def)
  have "distinct (live_slots t)"
    using distinct_concat_heads [OF task_okD(5) [OF ok] ne] .
  from distinct_card [OF this] card_image [OF inj] show "finite (dom (inst_map s t))"
    "card (dom (inst_map s t)) = length (live_slots t)"
    unfolding dom by simp_all
qed

interpretation task_table: instance_table "table_ok p" "table_of p" "task_instance_create p"
  "find_instance_ptr p" task_instance_destroy for p
proof
  fix s n q
  assume "table_ok p s"
  then obtain t where t: "task_ok s p t" "unique_serials s t" "no_oom s"
    by (auto simp: table_ok_def)
  note tbl = table_of_ok [OF t(1)]
  show "finite (dom (table_of p s))" using card_inst_map [OF t(1,2)] tbl by simp
  show "find_instance_ptr p n s = Inr (case table_of p s n of None \<Rightarrow> 0 | Some q \<Rightarrow> q, s)"
  proof (cases "slot_of s t n")
    case None
    then show ?thesis
      by (simp add: find_instance_ptr_def prog_simps task_get_instance_index_ok [OF t(1)] tbl inst_map_def)
  next
    case (Some i)
    then have "i < length (instances t)" by (auto simp: slot_of_def first_idx_Some)
    with Some task_okD(2) [OF t(1)] show ?thesis
      by (simp add: find_instance_ptr_def prog_simps task_get_instance_index_ok [OF t(1)] tbl inst_map_def)
  qed
  show "q \<noteq> 0" if "table_of p s n = Some q" using inst_map_Some [OF t(1)] that tbl by auto
  show "\<exists>q s'. task_instance_create p n s = Inr (q, s') \<and> q \<noteq> 0 \<and> table_ok p s'
      \<and> table_of p s' = (table_of p s)(n := Some q)"
    if "table_of p s n = None" "card (dom (table_of p s)) < 5"
  proof -
    have fresh: "slot_of s t n = None" using that(1) tbl by (simp add: inst_map_def)
    have room: "length (live_slots t) < 5" using that(2) card_inst_map [OF t(1,2)] tbl by simp
    from stop_slot_exists [OF t(1) room] obtain j where j: "stop_slot s t n = Some j" by blast
    have j': "j < 5" "instances t ! j = 0"
      using fresh_stop_slot [OF j fresh] task_okD(3) [OF t(1)] by auto
    note ok = inst_created_ok(1) [OF t(1) j', of n]
    have "no_oom (inst_created s p t n j)" using inst_created_heap(5) [OF t(1)] t(3) .
    then show ?thesis
      using task_instance_create_ok [OF t(1,3) room j] j'(2) ok inst_created_map [OF t(1) fresh j]
        t(2) tbl table_of_ok [OF ok]
      unfolding table_ok_def by auto
  qed
  show "\<exists>s'. task_instance_destroy q s = Inr ((), s') \<and> table_ok p s'
      \<and> table_of p s' = (table_of p s)(n := None)" if "table_of p s n = Some q"
  proof -
    from inst_map_Some [OF t(1)] that tbl obtain i where i: "slot_of s t n = Some i" "instances t ! i = q"
      "serial_of s q = Some n" "q \<noteq> 0" by auto
    have i': "i < 5" using i(1) task_okD(3) [OF t(1)] by (auto simp: slot_of_def first_idx_Some)
    note ok = inst_destroyed_ok(1) [OF t(1) i'] and map = inst_destroyed_map [OF t(1,2) i(1)]
    have "no_oom (inst_destroyed s p t i)" using t(3) by (simp add: inst_destroyed_defs)
    then show ?thesis
      using task_instance_destroy_ok [OF t(1) i(2,4,3,1)] ok map i(2,4) tbl table_of_ok [OF ok]
      unfolding table_ok_def by auto
  qed
qed

text \<open>C8. The instances of a task are a table from serial ids to instances: any schedule of starts and
  finishes that never starts an id in use nor more than five at a time runs through, keeps the task
  well-formed with unique ids, and leaves exactly the ids that are started and not finished.\<close>

lemma task_serves_schedule:
  assumes "task_ok s p t" "unique_serials s t" "no_oom s" "schedule_ok (dom (inst_map s t)) rs"
  shows "\<exists>s' t'. serve (task_instance_create p) (find_instance_ptr p) task_instance_destroy rs s = Inr ((), s')
    \<and> task_ok s' p t' \<and> unique_serials s' t' \<and> dom (inst_map s' t') = running_after (dom (inst_map s t)) rs"
proof -
  have "table_ok p s" "schedule_ok (dom (table_of p s)) rs"
    using assms table_of_ok [OF assms(1)] by (auto simp: table_ok_def)
  from task_table.serve_schedule [OF this] table_of_ok [OF assms(1)] table_of_ok show ?thesis
    unfolding table_ok_def by metis
qed

end
