(* ===== verification/Interleave.thy ===== *)
theory Interleave
  imports Instances
begin

text \<open>
  An instance is used by two FreeRTOS tasks: the worker that runs it
  (\<open>_task_freertos_entrypoint_wrapper\<close>) and the collector (\<open>_cnode_return_task\<close>), which polls
  \<open>has_finished\<close>, copies the result and destroys the instance. Neither takes a lock. Their steps are
  cut where the other can run in between, and a step relation interleaves them.
\<close>

section \<open>The steps of the two\<close>

text \<open>Where the worker is: what it does next, with the pointers of its execution context.\<close>

datatype worker =
    W_start
  | W_call addr addr
  | W_flag addr
  | W_stop addr
  | W_result addr
  | W_report
  | W_done

fun worker_step :: "(nat \<Rightarrow> addr \<Rightarrow> addr \<Rightarrow> addr c_prog) \<Rightarrow> bool \<Rightarrow> addr \<Rightarrow> worker \<Rightarrow> worker c_prog" where
  "worker_step stub taken q W_start = bnd (wrapper_start q) (\<lambda>ctx. ret (W_call (fst ctx) (snd ctx)))"
| "worker_step stub taken q (W_call a r) = bnd (wrapper_call stub q (a, r)) (\<lambda>ra. ret (W_flag ra))"
| "worker_step stub taken q (W_flag ra) =
     andthen (update_inst q (\<lambda>i. i\<lparr>has_finished := True\<rparr>)) (ret (W_stop ra))"
| "worker_step stub taken q (W_stop ra) =
     andthen (update_inst q (\<lambda>i. i\<lparr>is_running := False\<rparr>)) (ret (W_result ra))"
| "worker_step stub taken q (W_result ra) = andthen (wrapper_result q ra) (ret W_report)"
| "worker_step stub taken q W_report = andthen (wrapper_report taken q) (ret W_done)"
| "worker_step stub taken q W_done = ret W_done"

primrec worker_steps :: "(nat \<Rightarrow> addr \<Rightarrow> addr \<Rightarrow> addr c_prog) \<Rightarrow> bool \<Rightarrow> addr \<Rightarrow> nat \<Rightarrow> worker \<Rightarrow> worker c_prog" where
  "worker_steps stub taken q 0 w = ret w"
| "worker_steps stub taken q (Suc k) w = bnd (worker_step stub taken q w) (worker_steps stub taken q k)"

text \<open>The six steps the worker is cut into for the interleaving are, one after the other, exactly the
  function \<open>_task_freertos_entrypoint_wrapper\<close>, for every stub and from every state.\<close>

lemma worker_steps_wrapper:
  "worker_steps stub taken q 6 W_start =
    andthen (task_freertos_entrypoint_wrapper stub taken q) (ret W_done)"
  by (rule ext) (simp add: eval_nat_numeral task_freertos_entrypoint_wrapper_def wrapper_finish_def
      prog_simps split: sum.splits prod.splits)

text \<open>Where the collector is; at the end it has the copy of the result.\<close>

datatype collector =
    C_poll
  | C_clone
  | C_destroy addr
  | C_done addr

fun collector_step :: "addr \<Rightarrow> collector \<Rightarrow> collector c_prog" where
  "collector_step q C_poll = bnd (load as_inst q) (\<lambda>i. ret (if has_finished i then C_clone else C_poll))"
| "collector_step q C_clone = bnd (task_instance_get_return_args q) (\<lambda>r. ret (C_destroy r))"
| "collector_step q (C_destroy r) = andthen (task_instance_destroy q) (ret (C_done r))"
| "collector_step q (C_done r) = ret (C_done r)"

text \<open>The two together; a crash keeps where the collector was.\<close>

datatype config = Run world worker collector | Crash fault collector

inductive sys_step :: "(nat \<Rightarrow> addr \<Rightarrow> addr \<Rightarrow> addr c_prog) \<Rightarrow> bool \<Rightarrow> addr \<Rightarrow> config \<Rightarrow> config \<Rightarrow> bool"
  for stub taken q where
  worker_moves: "worker_step stub taken q w s = Inr (w', s') \<Longrightarrow> w \<noteq> W_done \<Longrightarrow>
    sys_step stub taken q (Run s w c) (Run s' w' c)"
| worker_faults: "worker_step stub taken q w s = Inl f \<Longrightarrow> sys_step stub taken q (Run s w c) (Crash f c)"
| collector_moves: "collector_step q c s = Inr (c', s') \<Longrightarrow>
    sys_step stub taken q (Run s w c) (Run s' w c')"
| collector_faults: "collector_step q c s = Inl f \<Longrightarrow> sys_step stub taken q (Run s w c) (Crash f c)"

inductive_cases sys_step_run: "sys_step stub taken q (Run s w c) cfg"
inductive_cases sys_step_crash: "sys_step stub taken q (Crash f c) cfg"

abbreviation sys_reach :: "(nat \<Rightarrow> addr \<Rightarrow> addr \<Rightarrow> addr c_prog) \<Rightarrow> bool \<Rightarrow> addr \<Rightarrow> config \<Rightarrow> config \<Rightarrow> bool" where
  "sys_reach stub taken q \<equiv> (sys_step stub taken q)\<^sup>*\<^sup>*"

section \<open>Changes to an instance that keep its task well-formed\<close>

text \<open>The serial ids in the slots, free slots as \<open>None\<close>.\<close>

abbreviation slots :: "world \<Rightarrow> task_t \<Rightarrow> u32 option list" where
  "slots s t \<equiv> map (serial_of s) (instances t)"

lemma slot_of_slots: "slot_of s t n = first_idx (\<lambda>m. m = Some n) (slots s t)"
  by (simp add: slot_of_def first_idx_map)

lemma slots_slot_of: "slots s' t' = slots s t \<Longrightarrow> slot_of s' t' n = slot_of s t n"
  by (simp only: slot_of_slots)

lemma task_ok_change:
  assumes ok: "task_ok s p t" and wf: "wf_mem s'" and p: "heap s' p = heap s p"
    and same: "\<And>x. x \<in> set (live_slots t) \<Longrightarrow> inst_ok s' p x \<and> inst_ptrs s' x = inst_ptrs s x
      \<and> serial_of s' x = serial_of s x"
  shows "task_ok s' p t" "slot_of s' t n = slot_of s t n" "slots s' t = slots s t"
proof -
  note t = task_okD [OF ok]
  have "insts_ptrs s' (live_slots t) = insts_ptrs s (live_slots t)"
    by (rule insts_ptrs_cong) (use same in blast)
  then show "task_ok s' p t"
    using t wf p same unfolding task_ok_def list_all_iff by auto
  have "serial_of s' x = serial_of s x" if "x \<in> set (instances t)" for x
    using same [of x] that serial_of_null [OF t(1)] serial_of_null [OF wf] by (cases "x = 0") auto
  then show slots: "slots s' t = slots s t" by simp
  show "slot_of s' t n = slot_of s t n" by (rule slots_slot_of [OF slots])
qed

text \<open>Nothing that belongs to the task has changed.\<close>

lemma task_ok_cong:
  assumes ok: "task_ok s p t" and wf: "wf_mem s'" and p: "heap s' p = heap s p"
    and same: "\<forall>x \<in> set (live_slots t). inst_ok s p x \<longrightarrow> (\<forall>y \<in> set (inst_ptrs s x). heap s' y = heap s y)"
  shows "task_ok s' p t" "slot_of s' t n = slot_of s t n" "slots s' t = slots s t"
proof -
  have each: "inst_ok s' p x \<and> inst_ptrs s' x = inst_ptrs s x \<and> serial_of s' x = serial_of s x"
    if x: "x \<in> set (live_slots t)" for x
  proof -
    have ix: "inst_ok s p x" using task_okD(6) [OF ok, of x] x by simp
    with same x have "heap s' y = heap s y" if "y \<in> set (inst_ptrs s x)" for y using that by blast
    from inst_ok_cong [OF ix this] show ?thesis by blast
  qed
  from task_ok_change [OF ok wf p each]
  show "task_ok s' p t" "slot_of s' t n = slot_of s t n" "slots s' t = slots s t" by blast+
qed

text \<open>Objects that do not belong to it are released.\<close>

lemma task_ok_released:
  assumes ok: "task_ok s p t" and wf: "wf_mem s'" and h: "heap s' = (\<lambda>x. if x \<in> C then None else heap s x)"
    and p: "p \<notin> C" and sep: "\<forall>q \<in> set (live_slots t). set (inst_ptrs s q) \<inter> C = {}"
  shows "task_ok s' p t" "slots s' t = slots s t"
proof -
  have "heap s' y = heap s y" if "q \<in> set (live_slots t)" "y \<in> set (inst_ptrs s q)" for q y
    using sep that by (auto simp: h)
  moreover have "heap s' p = heap s p" using p by (simp add: h)
  ultimately show "task_ok s' p t" "slots s' t = slots s t" using task_ok_cong [OF ok wf] by blast+
qed

lemma task_ok_flags:
  assumes ok: "task_ok s p t" and i: "heap s q = Some (OInst i)"
    and i': "parent_task i' = parent_task i" "i_return_arg i' = i_return_arg i" "i_args i' = i_args i"
      "serial_id i' = serial_id i"
  shows "task_ok (s\<lparr>heap := (heap s)(q := Some (OInst i'))\<rparr>) p t"
    and "slot_of (s\<lparr>heap := (heap s)(q := Some (OInst i'))\<rparr>) t n = slot_of s t n"
    and "slots (s\<lparr>heap := (heap s)(q := Some (OInst i'))\<rparr>) t = slots s t"
proof -
  let ?s = "s\<lparr>heap := (heap s)(q := Some (OInst i'))\<rparr>"
  note t = task_okD [OF ok]
  have wf: "wf_mem ?s" using wf_mem_store [OF t(1) i] by simp
  have p: "heap ?s p = heap s p" using t(2) i by auto
  have same: "inst_ok ?s p x \<and> inst_ptrs ?s x = inst_ptrs s x \<and> serial_of ?s x = serial_of s x"
    if "x \<in> set (live_slots t)" for x
  proof -
    from t(6) [of x] that obtain j b where j: "heap s x = Some (OInst j)" "parent_task j = p"
      "heap s (i_return_arg j) = Some (OArgs [b])" "inst_args_ok s (i_args j)"
      by (auto simp: inst_ok_def)
    have ra: "heap ?s (i_return_arg j) = Some (OArgs [b])" using j(3) i by auto
    have ar: "inst_args_ok ?s (i_args j)" using j(4) i unfolding inst_args_ok_def by auto
    have ne: "i_return_arg j \<noteq> q" using j(3) i by auto
    show ?thesis
    proof (cases "x = q")
      case True
      with i i' j ra ar ne show ?thesis by (simp add: inst_ok_def inst_ptrs_def serial_of_def)
    next
      case False
      with j ra ar show ?thesis by (simp add: inst_ok_def inst_ptrs_def serial_of_def)
    qed
  qed
  show "task_ok ?s p t" "slot_of ?s t n = slot_of s t n" "slots ?s t = slots s t"
    using task_ok_change [OF ok wf p same] by blast+
qed

lemma task_ok_value:
  assumes ok: "task_ok s p t" and a: "heap s r = Some (OArgs [a])" "nargs a' = nargs a"
  shows "task_ok (s\<lparr>heap := (heap s)(r := Some (OArgs [a']))\<rparr>) p t"
    and "slot_of (s\<lparr>heap := (heap s)(r := Some (OArgs [a']))\<rparr>) t n = slot_of s t n"
    and "slots (s\<lparr>heap := (heap s)(r := Some (OArgs [a']))\<rparr>) t = slots s t"
proof -
  let ?s = "s\<lparr>heap := (heap s)(r := Some (OArgs [a']))\<rparr>"
  note t = task_okD [OF ok]
  have wf: "wf_mem ?s" using wf_mem_store [OF t(1) a(1)] by simp
  have p: "heap ?s p = heap s p" using t(2) a by auto
  have same: "inst_ok ?s p x \<and> inst_ptrs ?s x = inst_ptrs s x \<and> serial_of ?s x = serial_of s x"
    if "x \<in> set (live_slots t)" for x
  proof -
    from t(6) [of x] that obtain i b where i: "heap s x = Some (OInst i)" "parent_task i = p"
      "heap s (i_return_arg i) = Some (OArgs [b])" "inst_args_ok s (i_args i)"
      by (auto simp: inst_ok_def)
    have "x \<noteq> r" using i(1) a(1) by auto
    moreover have "inst_args_ok ?s (i_args i)" using i(4) a by (auto simp: inst_args_ok_def)
    ultimately show ?thesis using i by (auto simp: inst_ok_def inst_ptrs_def serial_of_def)
  qed
  show "task_ok ?s p t" "slot_of ?s t n = slot_of s t n" "slots ?s t = slots s t"
    using task_ok_change [OF ok wf p same] by blast+
qed

lemma task_ok_extends:
  assumes ok: "task_ok s p t" and ext: "extends s s'" and wf: "wf_mem s'"
  shows "task_ok s' p t" "slot_of s' t n = slot_of s t n"
proof -
  note t = task_okD [OF ok]
  have keep: "heap s' r = heap s r" if "heap s r \<noteq> None" for r
    using that extends_live [OF ext t(1)] by force
  have "heap s' p = heap s p" using keep t(2) by simp
  moreover have "\<forall>x \<in> set (live_slots t). inst_ok s p x \<longrightarrow> (\<forall>y \<in> set (inst_ptrs s x). heap s' y = heap s y)"
    using keep inst_ok_live by blast
  ultimately show "task_ok s' p t" "slot_of s' t n = slot_of s t n" using task_ok_cong [OF ok wf] by blast+
qed

text \<open>Arguments are given to an instance that had none.\<close>

lemma distinct_concat_extend:
  "distinct (concat (map f xs)) \<Longrightarrow> distinct xs \<Longrightarrow> r \<notin> set (concat (map f xs)) \<Longrightarrow>
    (\<And>x. x \<in> set xs \<Longrightarrow> g x = (if x = q then f x @ [r] else f x)) \<Longrightarrow> distinct (concat (map g xs))"
proof (induction xs)
  case (Cons x xs)
  have sub: "set (concat (map g xs)) \<subseteq> set (concat (map f xs)) \<union> (if q \<in> set xs then {r} else {})"
    using Cons.prems(4) by (auto split: if_splits)
  have "distinct (concat (map g xs))" by (rule Cons.IH) (use Cons.prems in auto)
  with Cons.prems sub show ?case by (auto split: if_splits)
qed simp

lemma task_ok_args:
  assumes ok: "task_ok s p t" and i: "heap s q = Some (OInst i)" "i_args i = 0"
    and as: "as \<noteq> []" "nargs (as ! 0) = of_nat (length as)" and r: "heap s r = None" "0 < r"
    and i': "parent_task i' = parent_task i" "i_return_arg i' = i_return_arg i" "serial_id i' = serial_id i" "i_args i' = r"
    and s': "heap s' = (heap s)(q := Some (OInst i'), r := Some (OArgs as))" "wf_mem s'"
  shows "task_ok s' p t" "slots s' t = slots s t"
proof -
  note t = task_okD [OF ok]
  have ne: "p \<noteq> q" "p \<noteq> r" "q \<noteq> r" using t(2) i r by auto
  have each: "inst_ok s' p x \<and> serial_of s' x = serial_of s x
      \<and> inst_ptrs s' x = (if x = q then inst_ptrs s x @ [r] else inst_ptrs s x)"
    if x: "x \<in> set (live_slots t)" for x
  proof -
    from t(6) [of x] x obtain j b where j: "heap s x = Some (OInst j)" "parent_task j = p"
      "heap s (i_return_arg j) = Some (OArgs [b])" "inst_args_ok s (i_args j)"
      by (auto simp: inst_ok_def)
    have "i_return_arg j \<noteq> q" "i_return_arg j \<noteq> r" "x \<noteq> r" using j i(1) r by auto
    moreover have "inst_args_ok s' (i_args j)"
      using j(4) i(1) r(1) unfolding inst_args_ok_def s'(1) by fastforce
    ultimately show ?thesis
      using j i i' as r(2) ne(3)
      by (cases "x = q") (auto simp: inst_ok_def inst_ptrs_def serial_of_def inst_args_ok_def s'(1))
  qed
  have live: "y \<noteq> r" if "y \<in> set (insts_ptrs s (live_slots t))" for y
    using that inst_ok_live t(6) r(1) by fastforce
  have heads: "distinct (live_slots t)"
    by (rule distinct_concat_heads [OF t(5)]) (use t(6) in \<open>fastforce simp: inst_ok_def inst_ptrs_def\<close>)
  have "distinct (insts_ptrs s' (live_slots t))"
    by (rule distinct_concat_extend [where q = q, OF t(5) heads]) (use each live in auto)
  then show "task_ok s' p t"
    using t(3,4) ne t(2) each s' by (auto simp: task_ok_def list_all_iff)
  have "serial_of s' x = serial_of s x" if "x \<in> set (instances t)" for x
    using each [of x] that serial_of_null [OF t(1)] serial_of_null [OF s'(2)] by (cases "x = 0") auto
  then show "slots s' t = slots s t" by simp
qed

text \<open>So a task is well-formed after a start, and the new instance is found under its serial id.\<close>

lemma started_ok:
  assumes ok: "task_ok s p t" and fresh: "slot_of s t n = None" and j: "stop_slot s t n = Some j"
    and as: "as \<noteq> []" "nargs (as ! 0) = of_nat (length as)"
  defines "s' \<equiv> started s p t n j as" and "t' \<equiv> with_inst t j (Suc (brk s))"
  shows "task_ok s' p t'" "inst_map s' t' n = Some (Suc (brk s))" "slots s' t' = (slots s t)[j := Some n]"
proof -
  let ?c = "inst_created s p t n j" and ?q = "Suc (brk s)" and ?r = "Suc (Suc (Suc (brk s)))"
  have j': "j < 5" "instances t ! j = 0" using fresh_stop_slot [OF j fresh] task_okD(3) [OF ok] by auto
  have c: "task_ok ?c p t'" unfolding t'_def by (rule inst_created_ok(1) [OF ok j'])
  note h = inst_created_heap [OF ok, where n = n and j = j]
  have "heap ?c ?r = None" using h(4) by (simp add: wf_mem_def inst_created_def)
  note args = task_ok_args [OF c h(1) _ as this, where i' = "launched s p n" and s' = s']
  have s': "heap s' = (heap ?c)(?q := Some (OInst (launched s p n)), ?r := Some (OArgs as))"
    by (simp add: s'_def started_def Let_def inst_created_def)
  have "wf_mem s'" unfolding s'_def by (rule started_heap(4) [OF ok])
  then show "task_ok s' p t'"
    by (intro args(1)) (simp_all add: s' launched_def new_inst_def zero_inst_def)
  have slots: "slots s' t' = slots ?c t'"
    using \<open>wf_mem s'\<close> by (intro args(2)) (simp_all add: s' launched_def new_inst_def zero_inst_def)
  also have "\<dots> = (slots s t)[j := Some n]"
    using serial_of_slot [OF ok j', of _ n] task_okD(3) [OF ok]
    by (intro nth_equalityI) (simp_all add: t'_def nth_list_update)
  finally show "slots s' t' = (slots s t)[j := Some n]" .
  from slots_slot_of [OF slots] show "inst_map s' t' n = Some ?q"
    using fun_cong [OF inst_created_map(1) [OF ok fresh j], of n]
    unfolding inst_map_def t'_def by (simp only: fun_upd_same)
qed

lemma inst_ptrs_kind:
  "inst_ok s p x \<Longrightarrow> y \<in> set (inst_ptrs s x) \<Longrightarrow> heap s y \<noteq> Some (OTboard tb)"
  unfolding inst_ok_def inst_args_ok_def
  by (elim exE conjE) (auto simp: inst_ptrs_def split: if_splits)

lemma task_ok_board:
  assumes ok: "task_ok s p t" and b: "heap s r = Some (OTboard tb)"
  shows "task_ok (s\<lparr>heap := (heap s)(r := Some (OTboard tb'))\<rparr>) p t"
    and "slot_of (s\<lparr>heap := (heap s)(r := Some (OTboard tb'))\<rparr>) t n = slot_of s t n"
    and "slots (s\<lparr>heap := (heap s)(r := Some (OTboard tb'))\<rparr>) t = slots s t"
proof -
  let ?s = "s\<lparr>heap := (heap s)(r := Some (OTboard tb'))\<rparr>"
  note t = task_okD [OF ok]
  have wf: "wf_mem ?s" using wf_mem_store [OF t(1) b] by simp
  have p: "heap ?s p = heap s p" using t(2) b by auto
  have same: "heap ?s y = heap s y" if "inst_ok s p x" "y \<in> set (inst_ptrs s x)" for x y
    using inst_ptrs_kind [OF that] b by auto
  then show "task_ok ?s p t" "slot_of ?s t n = slot_of s t n" "slots ?s t = slots s t"
    using task_ok_cong [OF ok wf p] by blast+
qed

section \<open>While the instance is there\<close>

fun called :: "worker \<Rightarrow> bool" where
  "called W_start = False" | "called (W_call _ _) = False" | "called _ = True"

fun flagged :: "worker \<Rightarrow> bool" where
  "flagged W_start = False" | "flagged (W_call _ _) = False" | "flagged (W_flag _) = False"
| "flagged _ = True"

text \<open>The context's \<open>return_arg\<close> the worker holds.\<close>

fun holds :: "addr \<Rightarrow> worker \<Rightarrow> bool" where
  "holds ra (W_call _ r) = (r = ra)" | "holds ra (W_flag r) = (r = ra)" | "holds ra (W_stop r) = (r = ra)"
| "holds ra (W_result r) = (r = ra)" | "holds ra _ = True"

text \<open>
  The instance \<open>q\<close> of the task \<open>p\<close>, whose entry point writes the integer \<open>n\<close> as its result: it is in
  its slot, its flag says where the worker is, and from the call on its return argument has the value.
\<close>

definition alive_at :: "(nat \<Rightarrow> addr \<Rightarrow> addr \<Rightarrow> addr c_prog) \<Rightarrow> addr \<Rightarrow> addr \<Rightarrow> addr \<Rightarrow> i32 \<Rightarrow> world \<Rightarrow> worker
    \<Rightarrow> task_t \<Rightarrow> task_instance_t \<Rightarrow> arg_t \<Rightarrow> tboard_t \<Rightarrow> nat \<Rightarrow> bool" where
  "alive_at stub p q ra n s w t i a tb j \<longleftrightarrow> task_ok s p t
     \<and> slot_of s t (serial_id i) = Some j \<and> instances t ! j = q \<and> q \<noteq> 0
     \<and> heap s q = Some (OInst i) \<and> parent_task i = p \<and> i_return_arg i = ra
     \<and> heap s ra = Some (OArgs [a]) \<and> arg_type a = INT_TYPE \<and> nargs a = 1
     \<and> stub (t_entry_point t) = plain_stub (IVal n) (t_entry_point t)
     \<and> heap s (global_tboard s) = Some (OTboard tb)
     \<and> (called w \<longrightarrow> arg_val a = IVal n) \<and> (has_finished i \<longleftrightarrow> flagged w) \<and> holds ra w"

definition alive :: "(nat \<Rightarrow> addr \<Rightarrow> addr \<Rightarrow> addr c_prog) \<Rightarrow> addr \<Rightarrow> addr \<Rightarrow> addr \<Rightarrow> i32 \<Rightarrow> world \<Rightarrow> worker \<Rightarrow> bool" where
  "alive stub p q ra n s w \<longleftrightarrow> no_oom s \<and> (\<exists>t i a tb j. alive_at stub p q ra n s w t i a tb j)"

text \<open>The copy of the result, which shares nothing with the instance.\<close>

definition holds_int :: "i32 \<Rightarrow> world \<Rightarrow> addr \<Rightarrow> bool" where
  "holds_int n s r \<longleftrightarrow> (\<exists>b. heap s r = Some (OArgs [b]) \<and> nargs b = 1 \<and> arg_type b = INT_TYPE
     \<and> int_view (arg_val b) = Some n)"

definition returned :: "addr \<Rightarrow> addr \<Rightarrow> i32 \<Rightarrow> world \<Rightarrow> addr \<Rightarrow> bool" where
  "returned q ra n s r \<longleftrightarrow> holds_int n s r \<and> r \<noteq> ra \<and> r \<notin> set (inst_ptrs s q)"

lemma returned_same:
  "returned q ra n s r \<Longrightarrow> heap s' r = heap s r \<Longrightarrow> inst_ptrs s' q = inst_ptrs s q \<Longrightarrow> returned q ra n s' r"
  by (simp add: returned_def holds_int_def)

text \<open>Each kind of write the worker makes keeps it alive, and keeps a copy that was returned.\<close>

lemma alive_atD:
  assumes "alive_at stub p q ra n s w t i a tb j"
  shows "task_ok s p t" "heap s q = Some (OInst i)" "parent_task i = p" "i_return_arg i = ra" "heap s ra = Some (OArgs [a])"
    "heap s (global_tboard s) = Some (OTboard tb)" "heap s p = Some (OTask t)"
    "q \<noteq> 0" "ra \<noteq> 0" "q \<noteq> ra" "q \<noteq> global_tboard s" "ra \<noteq> global_tboard s"
proof -
  show d: "task_ok s p t" "heap s q = Some (OInst i)" "parent_task i = p" "i_return_arg i = ra" "heap s ra = Some (OArgs [a])"
    "heap s (global_tboard s) = Some (OTboard tb)" "q \<noteq> 0"
    using assms by (simp_all add: alive_at_def)
  show "heap s p = Some (OTask t)" "ra \<noteq> 0" "q \<noteq> ra" "q \<noteq> global_tboard s" "ra \<noteq> global_tboard s"
    using d(2,5,6) task_okD(1,2) [OF d(1)] by (auto dest: wf_memD)
qed

lemma alive_flags:
  assumes al: "alive_at stub p q ra n s w t i a tb j"
    and i': "parent_task i' = parent_task i" "i_return_arg i' = i_return_arg i" "i_args i' = i_args i" "serial_id i' = serial_id i"
    and w': "has_finished i' \<longleftrightarrow> flagged w'" "called w' \<longrightarrow> called w" "holds ra w'"
  defines "s' \<equiv> s\<lparr>heap := (heap s)(q := Some (OInst i'))\<rparr>"
  shows "alive_at stub p q ra n s' w' t i' a tb j" "returned q ra n s r \<Longrightarrow> returned q ra n s' r"
proof -
  note d = alive_atD [OF al]
  show "alive_at stub p q ra n s' w' t i' a tb j"
    using al task_ok_flags [OF d(1,2) i'] i' w' d(8-12) unfolding alive_at_def s'_def by simp
  assume r: "returned q ra n s r"
  then have "r \<noteq> q" by (auto simp: returned_def inst_ptrs_def d(2))
  with r show "returned q ra n s' r"
    by (elim returned_same) (simp_all add: s'_def inst_ptrs_def d(2) i')
qed

lemma alive_value:
  assumes al: "alive_at stub p q ra n s w t i a tb j" and w': "flagged w' \<longleftrightarrow> flagged w" "holds ra w'"
  defines "a' \<equiv> a\<lparr>arg_val := IVal n\<rparr>"
  defines "s' \<equiv> s\<lparr>heap := (heap s)(ra := Some (OArgs [a']))\<rparr>"
  shows "alive_at stub p q ra n s' w' t i a' tb j" "returned q ra n s r \<Longrightarrow> returned q ra n s' r"
proof -
  note d = alive_atD [OF al]
  show "alive_at stub p q ra n s' w' t i a' tb j"
    using al task_ok_value [OF d(1,5), of a'] w' d(8-12) unfolding alive_at_def s'_def a'_def by simp
  assume r: "returned q ra n s r"
  then have "r \<noteq> ra" by (simp add: returned_def)
  with r d show "returned q ra n s' r" by (elim returned_same) (simp_all add: s'_def inst_ptrs_def)
qed

lemma alive_board:
  fixes tb' :: tboard_t
  assumes al: "alive_at stub p q ra n s w t i a tb j"
    and w': "called w' \<longrightarrow> called w" "flagged w' \<longleftrightarrow> flagged w" "holds ra w'"
  defines "s' \<equiv> s\<lparr>heap := (heap s)(global_tboard s := Some (OTboard tb'))\<rparr>"
  shows "alive_at stub p q ra n s' w' t i a tb' j" "returned q ra n s r \<Longrightarrow> returned q ra n s' r"
proof -
  note d = alive_atD [OF al]
  show "alive_at stub p q ra n s' w' t i a tb' j"
    using al task_ok_board [OF d(1,6)] w' d(8-12) unfolding alive_at_def s'_def by simp
  assume r: "returned q ra n s r"
  then have "r \<noteq> global_tboard s" using d(6) by (auto simp: returned_def holds_int_def)
  with r d show "returned q ra n s' r" by (elim returned_same) (simp_all add: s'_def inst_ptrs_def)
qed

text \<open>So the worker never faults.\<close>

lemma worker_alive:
  assumes al: "alive stub p q ra n s w" and w: "w \<noteq> W_done"
  shows "\<exists>w' s'. worker_step stub taken q w s = Inr (w', s') \<and> alive stub p q ra n s' w'
    \<and> (flagged w \<longrightarrow> flagged w') \<and> (\<forall>r. returned q ra n s r \<longrightarrow> returned q ra n s' r)"
proof -
  from al obtain t i a tb j where at: "alive_at stub p q ra n s w t i a tb j" and mem: "no_oom s"
    by (auto simp: alive_def)
  note d = alive_atD [OF at]
  have st: "stub (t_entry_point t) = plain_stub (IVal n) (t_entry_point t)" "arg_type a = INT_TYPE"
    "called w \<longrightarrow> arg_val a = IVal n" "has_finished i \<longleftrightarrow> flagged w" "holds ra w"
    using at by (simp_all add: alive_at_def)
  note flags = alive_flags [OF at] and val = alive_value [OF at] and board = alive_board [OF at]
  have step: ?thesis if "worker_step stub taken q w s = Inr (w', s')" "alive_at stub p q ra n s' w' t i' a' tb' j"
      "no_oom s'" "flagged w \<longrightarrow> flagged w'" "\<And>r. returned q ra n s r \<Longrightarrow> returned q ra n s' r" for w' s' i' a' tb'
    using that unfolding alive_def by blast
  show ?thesis
  proof (cases w)
    case W_start
    show ?thesis
      by (rule step [OF _ flags(1) [of "i\<lparr>is_running := True\<rparr>" "W_call (i_args i) ra"] _ _ flags(2) [of "i\<lparr>is_running := True\<rparr>" "W_call (i_args i) ra"]])
        (use W_start d st mem in \<open>simp_all add: wrapper_start_def prog_simps\<close>)
  next
    case (W_call x r)
    show ?thesis
      by (rule step [OF _ val(1) [of "W_flag ra"] _ _ val(2) [of "W_flag ra"]])
        (use W_call d st mem in \<open>simp_all add: wrapper_call_def plain_stub_def prog_simps\<close>)
  next
    case (W_flag r)
    show ?thesis
      by (rule step [OF _ flags(1) [of "i\<lparr>has_finished := True\<rparr>" "W_stop ra"] _ _ flags(2) [of "i\<lparr>has_finished := True\<rparr>" "W_stop ra"]])
        (use W_flag d st mem in \<open>simp_all add: prog_simps\<close>)
  next
    case (W_stop r)
    show ?thesis
      by (rule step [OF _ flags(1) [of "i\<lparr>is_running := False\<rparr>" "W_result ra"] _ _ flags(2) [of "i\<lparr>is_running := False\<rparr>" "W_result ra"]])
        (use W_stop d st mem in \<open>simp_all add: prog_simps\<close>)
  next
    case (W_result r)
    show ?thesis
      by (rule step [OF _ val(1) [of W_report] _ _ val(2) [of W_report]])
        (use W_result d st mem in \<open>simp_all add: wrapper_result_def prog_simps\<close>)
  next
    case W_report
    let ?tb = "if taken then tb\<lparr>last_dead_task_id := serial_id i, num_dead_tasks := num_dead_tasks tb + 1\<rparr> else tb"
    show ?thesis
      by (rule step [OF _ board(1) [where w' = W_done and tb' = ?tb] _ _ board(2) [where w' = W_done and tb' = ?tb]])
        (use W_report d st mem in \<open>simp_all add: wrapper_report_def prog_simps fun_upd_idem\<close>)
  qed (use w in simp)
qed

text \<open>The copy: nothing the worker uses changes.\<close>

lemma collector_clone:
  assumes al: "alive stub p q ra n s w" and w: "flagged w"
  shows "\<exists>r s'. collector_step q C_clone s = Inr (C_destroy r, s') \<and> alive stub p q ra n s' w
    \<and> returned q ra n s' r"
proof -
  from al obtain t i a tb j where ok: "task_ok s p t" and slot: "slot_of s t (serial_id i) = Some j"
    "instances t ! j = q" "q \<noteq> 0" and i: "heap s q = Some (OInst i)" "parent_task i = p" "i_return_arg i = ra"
    and a: "heap s ra = Some (OArgs [a])" "arg_type a = INT_TYPE" "nargs a = 1"
    and stub: "stub (t_entry_point t) = plain_stub (IVal n) (t_entry_point t)"
    and tb: "heap s (global_tboard s) = Some (OTboard tb)"
    and at: "called w \<longrightarrow> arg_val a = IVal n" "has_finished i \<longleftrightarrow> flagged w" "holds ra w"
    and mem: "no_oom s"
    by (auto simp: alive_def alive_at_def)
  note t = task_okD [OF ok]
  have "called w" using w by (cases w) auto
  with a at(1) have "args_at s ra [a] [VInt n]"
    by (simp add: args_at_def arg_view_def int_view_def)
  from command_args_clone_ok [OF this t(1) mem] obtain r s' ds where
    clone: "command_args_clone ra s = Inr (r, s')" "extends s s'" "wf_mem s'" "args_at s' r ds [VInt n]"
    "brk s < r" by auto
  have keep: "heap s' x = Some ob" if "heap s x = Some ob" for x ob
    using extends_live [OF clone(2) t(1) that] .
  have "global_tboard s' = global_tboard s" "no_oom s'"
    using clone(2) mem by (auto simp: grows_def no_oom_def)
  then have "alive stub p q ra n s' w"
    unfolding alive_def alive_at_def
    by (intro conjI exI [of _ t] exI [of _ i] exI [of _ a] exI [of _ tb] exI [of _ j])
      (use task_ok_extends [OF ok clone(2,3)] slot i a stub tb at keep in \<open>simp_all\<close>)
  moreover have "returned q ra n s' r"
  proof -
    from clone(4) obtain b where b: "ds = [b]" by (auto simp: args_at_def length_Suc_conv dest!: arg_cong [of "map _ _" _ length])
    have "arg_type b = INT_TYPE \<and> int_view (arg_val b) = Some n"
      using clone(4) unfolding b args_at_def by (auto simp: arg_view_def split: argtype_t.splits)
    moreover have "inst_ok s p q"
      using i a t(6) [of q] slot t(3) by (auto simp: slot_of_def first_idx_Some)
    from inst_ok_live [OF this] have "x \<le> brk s" if "x \<in> set (inst_ptrs s q)" for x
      using that t(1) unfolding wf_mem_def by (meson not_le_imp_less)
    then have "r \<notin> set (inst_ptrs s q)" using clone(5) by fastforce
    moreover have "inst_ptrs s' q = inst_ptrs s q" using i keep [OF i(1)] by (simp add: inst_ptrs_def)
    moreover have "r \<noteq> ra" using clone(5) wf_memD [OF t(1) a(1)] by simp
    ultimately show ?thesis
      using clone(4) unfolding b args_at_def returned_def holds_int_def by auto
  qed
  ultimately show ?thesis
    using clone(1) slot(3) i by (simp add: task_instance_get_return_args_def prog_simps)
qed

text \<open>When the instance is gone, what is left for the worker is to use it.\<close>

definition gone :: "addr \<Rightarrow> addr \<Rightarrow> world \<Rightarrow> worker \<Rightarrow> bool" where
  "gone q ra s w \<longleftrightarrow> heap s q = None \<and> heap s ra = None \<and> bad_ptr q s = UseAfterFree
     \<and> bad_ptr ra s = UseAfterFree \<and> (\<exists>tb. heap s (global_tboard s) = Some (OTboard tb))
     \<and> flagged w \<and> holds ra w"

lemma collector_destroy:
  assumes al: "alive stub p q ra n s w" and w: "flagged w" and r: "returned q ra n s r"
  shows "\<exists>s'. collector_step q (C_destroy r) s = Inr (C_done r, s') \<and> gone q ra s' w \<and> holds_int n s' r"
proof -
  from al obtain t i a tb j where ok: "task_ok s p t" and slot: "slot_of s t (serial_id i) = Some j"
    "instances t ! j = q" "q \<noteq> 0" and i: "heap s q = Some (OInst i)" "parent_task i = p" "i_return_arg i = ra"
    and a: "heap s ra = Some (OArgs [a])" and tb: "heap s (global_tboard s) = Some (OTboard tb)"
    and at: "holds ra w"
    by (auto simp: alive_def alive_at_def)
  note t = task_okD [OF ok]
  let ?s = "inst_destroyed s p t j"
  have run: "task_instance_destroy q s = Inr ((), ?s)"
    by (rule task_instance_destroy_ok [OF ok slot(2,3) _ slot(1)]) (simp add: serial_of_def i)
  have iq: "inst_ok s p q"
    using i t(6) [of q] slot t(3) by (auto simp: slot_of_def first_idx_Some)
  have heap: "heap ?s x = (if x \<in> set (inst_ptrs s q) then None
      else if x = p then Some (OTask (without_inst t j)) else heap s x)" for x
    using slot(2) by (simp add: inst_destroyed_defs)
  have bad: "bad_ptr x ?s = UseAfterFree" if "heap s x = Some ob" for x ob
    using wf_memD [OF t(1) that] by (simp add: bad_ptr_def inst_destroyed_defs)
  have gt: "global_tboard ?s = global_tboard s" by (simp add: inst_destroyed_defs)
  have "heap ?s (global_tboard s) = Some (OTboard tb)"
    using heap inst_ptrs_kind [OF iq] tb t(2) by auto
  moreover have "heap ?s q = None" "heap ?s ra = None"
    using i by (simp_all add: heap inst_ptrs_def)
  ultimately have "gone q ra ?s w"
    using bad [OF i(1)] bad [OF a] at w gt by (simp add: gone_def)
  moreover have "holds_int n ?s r"
  proof -
    from r have "heap s r \<noteq> Some (OTask t)" by (auto simp: returned_def holds_int_def)
    then have "r \<noteq> p" using t(2) by blast
    with r show ?thesis by (simp add: returned_def holds_int_def heap)
  qed
  ultimately show ?thesis using run by (simp add: prog_simps)
qed

lemma worker_gone:
  assumes "gone q ra s w"
  shows "worker_step stub taken q w s = Inl UseAfterFree
    \<or> (\<exists>w'. worker_step stub taken q w s = Inr (w', s) \<and> gone q ra s w')"
proof -
  from assms obtain tb where g: "heap s q = None" "heap s ra = None" "bad_ptr q s = UseAfterFree"
    "bad_ptr ra s = UseAfterFree" "heap s (global_tboard s) = Some (OTboard tb)" "flagged w" "holds ra w"
    by (auto simp: gone_def)
  show ?thesis
  proof (cases w)
    case W_report
    then show ?thesis using g assms by (cases taken) (simp_all add: wrapper_report_def gone_def prog_simps)
  qed (use g assms in \<open>auto simp: wrapper_result_def gone_def prog_simps\<close>)
qed

section \<open>The invariant\<close>

fun sys_inv :: "(nat \<Rightarrow> addr \<Rightarrow> addr \<Rightarrow> addr c_prog) \<Rightarrow> addr \<Rightarrow> addr \<Rightarrow> addr \<Rightarrow> i32 \<Rightarrow> config \<Rightarrow> bool" where
  "sys_inv stub p q ra n (Run s w C_poll) = alive stub p q ra n s w"
| "sys_inv stub p q ra n (Run s w C_clone) = (alive stub p q ra n s w \<and> flagged w)"
| "sys_inv stub p q ra n (Run s w (C_destroy r)) =
     (alive stub p q ra n s w \<and> flagged w \<and> returned q ra n s r)"
| "sys_inv stub p q ra n (Run s w (C_done r)) = (gone q ra s w \<and> holds_int n s r)"
| "sys_inv stub p q ra n (Crash f (C_done r)) = (f = UseAfterFree)"
| "sys_inv stub p q ra n (Crash f _) = False"

lemma sys_inv_worker:
  assumes inv: "sys_inv stub p q ra n (Run s w c)" and w: "w \<noteq> W_done"
  shows "case worker_step stub taken q w s of
      Inl f \<Rightarrow> sys_inv stub p q ra n (Crash f c)
    | Inr (w', s') \<Rightarrow> sys_inv stub p q ra n (Run s' w' c)"
proof (cases c)
  case C_poll
  with inv w worker_alive [of stub p q ra n s w taken] show ?thesis by auto
next
  case C_clone
  with inv w worker_alive [of stub p q ra n s w taken] show ?thesis by auto
next
  case (C_destroy r)
  with inv w worker_alive [of stub p q ra n s w taken] show ?thesis by auto
next
  case (C_done r)
  with inv worker_gone [of q ra s w stub taken] show ?thesis by auto
qed

lemma sys_inv_collector:
  assumes inv: "sys_inv stub p q ra n (Run s w c)"
  shows "\<exists>c' s'. collector_step q c s = Inr (c', s') \<and> sys_inv stub p q ra n (Run s' w c')"
proof (cases c)
  case C_poll
  with inv obtain i where "heap s q = Some (OInst i)" "has_finished i \<longleftrightarrow> flagged w"
    by (auto simp: alive_def alive_at_def)
  with C_poll inv show ?thesis by (simp add: prog_simps)
next
  case C_clone
  with inv collector_clone [of stub p q ra n s w] show ?thesis by auto
next
  case (C_destroy r)
  with inv collector_destroy [of stub p q ra n s w r] show ?thesis by auto
next
  case (C_done r)
  with inv show ?thesis by (simp add: prog_simps)
qed

lemma sys_inv_step:
  assumes "sys_step stub taken q cfg cfg'" "sys_inv stub p q ra n cfg"
  shows "sys_inv stub p q ra n cfg'"
  using assms
proof (induction rule: sys_step.induct)
  case (worker_moves w s w' s' c)
  with sys_inv_worker [of stub p q ra n s w c taken] show ?case by simp
next
  case (worker_faults w s f c)
  then have "w \<noteq> W_done" by (auto simp: prog_simps)
  with worker_faults sys_inv_worker [of stub p q ra n s w c taken] show ?case by simp
next
  case (collector_moves c s c' s' w)
  with sys_inv_collector [of stub p q ra n s w c] show ?case by auto
next
  case (collector_faults c s f w)
  with sys_inv_collector [of stub p q ra n s w c] show ?case by auto
qed

lemma sys_inv_reach:
  "sys_reach stub taken q cfg cfg' \<Longrightarrow> sys_inv stub p q ra n cfg \<Longrightarrow> sys_inv stub p q ra n cfg'"
  by (induction rule: rtranclp_induct) (use sys_inv_step in blast)+

section \<open>Two schedules\<close>

text \<open>How many steps the worker has left.\<close>

fun left :: "worker \<Rightarrow> nat" where
  "left W_start = 6" | "left (W_call _ _) = 5" | "left (W_flag _) = 4" | "left (W_stop _) = 3"
| "left (W_result _) = 2" | "left W_report = 1" | "left W_done = 0"

lemma worker_next:
  assumes al: "alive stub p q ra n s w" and w: "0 < left w"
  shows "\<exists>w' s'. sys_step stub taken q (Run s w c) (Run s' w' c) \<and> alive stub p q ra n s' w'
    \<and> left w = Suc (left w')"
proof -
  have w': "w \<noteq> W_done" using w by auto
  from worker_alive [OF al w', of taken] obtain w' s' where
    step: "worker_step stub taken q w s = Inr (w', s')" "alive stub p q ra n s' w'" by blast
  have "left w = Suc (left w')"
    using step(1) w' by (cases w) (auto simp: prog_simps split: sum.splits)
  with sys_step.worker_moves [OF step(1) w'] step(2) show ?thesis by blast
qed

lemma worker_runs:
  "alive stub p q ra n s w \<Longrightarrow> k \<le> left w \<Longrightarrow>
    \<exists>w' s'. sys_reach stub taken q (Run s w c) (Run s' w' c) \<and> alive stub p q ra n s' w' \<and> left w' + k = left w"
proof (induction k)
  case 0
  then show ?case by auto
next
  case (Suc k)
  then obtain w1 s1 where 1: "sys_reach stub taken q (Run s w c) (Run s1 w1 c)" "alive stub p q ra n s1 w1"
    "left w1 + k = left w" by auto
  with Suc.prems(2) have "0 < left w1" by simp
  from worker_next [OF 1(2) this, of taken c] 1 show ?case
    by (metis (no_types, lifting) add_Suc_right add_Suc rtranclp.rtrancl_into_rtrancl)
qed

text \<open>The flag is set by the third step of the worker; what is left to do then uses the instance.\<close>

lemma reach_flag:
  assumes "alive stub p q ra n s W_start"
  shows "\<exists>s'. sys_reach stub taken q (Run s W_start c) (Run s' (W_stop ra) c)
    \<and> alive stub p q ra n s' (W_stop ra)"
proof -
  from worker_runs [OF assms, of 3 taken c] obtain w' s' where
    w: "sys_reach stub taken q (Run s W_start c) (Run s' w' c)" "alive stub p q ra n s' w'" "left w' = 3"
    by auto
  moreover have "w' = W_stop ra" using w(2,3) by (cases w') (auto simp: alive_def alive_at_def)
  ultimately show ?thesis by blast
qed

lemma collect_now:
  assumes "alive stub p q ra n s w" "flagged w"
  shows "\<exists>s' r. sys_reach stub taken q (Run s w C_poll) (Run s' w (C_done r)) \<and> gone q ra s' w
    \<and> holds_int n s' r"
proof -
  from assms have "collector_step q C_poll s = Inr (C_clone, s)" by (auto simp: alive_def alive_at_def prog_simps)
  then have a: "sys_step stub taken q (Run s w C_poll) (Run s w C_clone)" by (rule sys_step.intros)
  from collector_clone [OF assms] obtain r s1 where
    1: "collector_step q C_clone s = Inr (C_destroy r, s1)" "alive stub p q ra n s1 w" "returned q ra n s1 r"
    by blast
  from 1(1) have b: "sys_step stub taken q (Run s w C_clone) (Run s1 w (C_destroy r))" by (rule sys_step.intros)
  from collector_destroy [OF 1(2) assms(2) 1(3)] obtain s2 where
    2: "collector_step q (C_destroy r) s1 = Inr (C_done r, s2)" "gone q ra s2 w" "holds_int n s2 r" by blast
  from 2(1) have c: "sys_step stub taken q (Run s1 w (C_destroy r)) (Run s2 w (C_done r))" by (rule sys_step.intros)
  from a b c 2 show ?thesis
    by (metis (no_types, lifting) converse_rtranclp_into_rtranclp rtranclp.rtrancl_refl)
qed

text \<open>The handshake over \<open>has_finished\<close> is racy: from every state in which the instance runs
  there is a schedule in which the collector destroys the instance between two statements of the wrapper,
  and the worker then uses freed memory.\<close>

lemma race:
  assumes "alive stub p q ra n s W_start"
  shows "\<exists>r. sys_reach stub taken q (Run s W_start C_poll) (Crash UseAfterFree (C_done r))"
proof -
  from reach_flag [OF assms] obtain s1 where
    1: "sys_reach stub taken q (Run s W_start C_poll) (Run s1 (W_stop ra) C_poll)"
    "alive stub p q ra n s1 (W_stop ra)" by blast
  from collect_now [OF 1(2), of taken] obtain s2 r where
    2: "sys_reach stub taken q (Run s1 (W_stop ra) C_poll) (Run s2 (W_stop ra) (C_done r))"
    "gone q ra s2 (W_stop ra)" by auto
  have "worker_step stub taken q (W_stop ra) s2 = Inl UseAfterFree"
    using 2(2) by (simp add: gone_def prog_simps)
  from sys_step.intros(2) [OF this] 1(1) 2(1) show ?thesis
    by (meson rtranclp.rtrancl_into_rtrancl rtranclp_trans)
qed

text \<open>If the worker is done before the collector looks, nothing goes wrong.\<close>

lemma reach_done:
  assumes "alive stub p q ra n s W_start"
  shows "\<exists>s'. sys_reach stub taken q (Run s W_start c) (Run s' W_done c) \<and> alive stub p q ra n s' W_done"
proof -
  from worker_runs [OF assms, of 6 taken c] obtain w' s' where
    w: "sys_reach stub taken q (Run s W_start c) (Run s' w' c)" "alive stub p q ra n s' w'" "left w' = 0"
    by auto
  moreover have "w' = W_done" using w(3) by (cases w') auto
  ultimately show ?thesis by blast
qed

text \<open>From every state in which the instance runs there is a schedule that ends well: the worker is done,
  the collector has the value, and the instance is gone.\<close>

lemma no_race:
  assumes "alive stub p q ra n s W_start"
  shows "\<exists>s' r. sys_reach stub taken q (Run s W_start C_poll) (Run s' W_done (C_done r)) \<and> holds_int n s' r"
proof -
  from reach_done [OF assms] obtain s2 where
    2: "sys_reach stub taken q (Run s W_start C_poll) (Run s2 W_done C_poll)" "alive stub p q ra n s2 W_done"
    by blast
  from collect_now [OF 2(2), of taken] obtain s3 r where
    "sys_reach stub taken q (Run s2 W_done C_poll) (Run s3 W_done (C_done r))" "holds_int n s3 r" by auto
  with 2(1) show ?thesis by (meson rtranclp_trans)
qed

section \<open>Every schedule\<close>

text \<open>C9. Whatever the schedule, nothing goes wrong before the collector has destroyed the instance: until
  then the instance stays well-formed, after that the collector holds the value the entry point computed,
  and the only fault there can be is a use of freed memory by the worker after that.\<close>

lemma safe_until_collected:
  assumes "alive stub p q ra n s W_start" "sys_reach stub taken q (Run s W_start C_poll) cfg"
  shows "case cfg of
      Run s' w c \<Rightarrow> (case c of C_done r \<Rightarrow> holds_int n s' r | _ \<Rightarrow> alive stub p q ra n s' w)
    | Crash f c \<Rightarrow> f = UseAfterFree \<and> (\<exists>r. c = C_done r)"
proof -
  have "sys_inv stub p q ra n cfg" using sys_inv_reach [OF assms(2)] assms(1) by simp
  then show ?thesis by (cases "(stub, p, q, ra, n, cfg)" rule: sys_inv.cases) auto
qed

end
