(* ===== verification/Env.thy ===== *)
theory Env
  imports Memory
begin

text \<open>
  What lies outside the repository: ESP-IDF, FreeRTOS, the flash store and zenoh-pico. Their calls are
  appended to \<open>trace\<close>, and what a call returns is a function of the calls made so far, the call itself
  included: a record \<open>env\<close> of such functions is an argument of every definition that uses one. What a
  theorem needs of them is stated as the laws of a locale (\<open>flash_store\<close>, \<open>command_queue\<close>), which
  the documented behaviour of the libraries gives; both are interpreted on \<open>good_env\<close>.
\<close>

section \<open>The calls and their results\<close>

text \<open>The error codes of ESP-IDF that the code tells apart.\<close>

datatype esp_err =
    ESP_OK
  | ESP_ERR_NVS_NOT_FOUND
  | ESP_ERR_NVS_NO_FREE_PAGES
  | ESP_ERR_NVS_NEW_VERSION_FOUND
  | ESP_ERR_OTHER

text \<open>
  \<open>e_err\<close>: the code the last call returned; \<open>e_ok\<close>: whether a zenoh-pico call succeeded;
  \<open>e_str\<close>, \<open>e_i32\<close>: what \<open>nvs_get_str\<close> and \<open>nvs_get_i32\<close> read; \<open>e_time\<close>: seconds, microseconds and
  result of \<open>gettimeofday\<close>; \<open>e_room\<close>: whether \<open>xQueueSendToBack\<close> finds room in time; \<open>e_next\<close>: what
  \<open>xQueueReceive\<close> delivers, if anything; \<open>e_handle\<close>: the handle a call returns or stores. The
  \<open>sz_\<close> fields are the sizes of structs that contain library types.
\<close>

record env =
  e_err :: "ext_call list \<Rightarrow> esp_err"
  e_ok :: "ext_call list \<Rightarrow> bool"
  e_str :: "ext_call list \<Rightarrow> string"
  e_i32 :: "ext_call list \<Rightarrow> i32"
  e_time :: "ext_call list \<Rightarrow> u64 \<times> i32 \<times> i32"
  e_room :: "ext_call list \<Rightarrow> bool"
  e_next :: "ext_call list \<Rightarrow> addr option"
  e_handle :: "ext_call list \<Rightarrow> nat"
  sz_zenoh :: u32
  sz_pub :: u32
  sz_tboard :: u32

definition call :: "ext_call \<Rightarrow> unit c_prog" where
  "call x = modify (\<lambda>s. s\<lparr>trace := trace s @ [x]\<rparr>)"

definition ask :: "(ext_call list \<Rightarrow> 'a) \<Rightarrow> 'a c_prog" where
  "ask f = gets (\<lambda>s. f (trace s))"

definition lib_err :: "env \<Rightarrow> string \<Rightarrow> esp_err c_prog" where
  "lib_err e n = andthen (call (Lib n)) (ask (e_err e))"

text \<open>\<open>ESP_ERROR_CHECK\<close> aborts unless the code is \<open>ESP_OK\<close>.\<close>

definition esp_error_check :: "esp_err \<Rightarrow> unit c_prog" where
  "esp_error_check x = check (x = ESP_OK) AssertFailed"

lemma call_app [prog_simps]: "call x s = Inr ((), s\<lparr>trace := trace s @ [x]\<rparr>)"
  by (simp add: call_def prog_simps)

lemma ask_app [prog_simps]: "ask f s = Inr (f (trace s), s)"
  by (simp add: ask_def prog_simps)

lemma lib_err_app [prog_simps]:
  "lib_err e n s = Inr (e_err e (trace s @ [Lib n]), s\<lparr>trace := trace s @ [Lib n]\<rparr>)"
  by (simp add: lib_err_def prog_simps)

lemma esp_error_check_app [prog_simps]:
  "esp_error_check x s = (if x = ESP_OK then Inr ((), s) else Inl AssertFailed)"
  by (simp add: esp_error_check_def prog_simps)

section \<open>The flash store\<close>

text \<open>The value stored last under a key.\<close>

fun stored_str :: "string \<Rightarrow> ext_call list \<Rightarrow> string option" where
  "stored_str k [] = None"
| "stored_str k (Nvs_set_str k' v # cs) =
     (case stored_str k cs of None \<Rightarrow> (if k = k' then Some v else None) | Some w \<Rightarrow> Some w)"
| "stored_str k (_ # cs) = stored_str k cs"

lemma stored_str_append:
  "stored_str k (cs @ ds) = (case stored_str k ds of None \<Rightarrow> stored_str k cs | Some w \<Rightarrow> Some w)"
  by (induction k cs rule: stored_str.induct) (auto split: option.splits)

locale flash_store =
  fixes e :: env
  assumes init_ok: "e_err e (tr @ [Lib ''nvs_flash_init'']) = ESP_OK"
    and open_ok: "e_err e (tr @ [Lib ''nvs_open'']) = ESP_OK"
    and get_str: "e_err e (tr @ [Lib ''nvs_get_str'']) =
      (if stored_str ''device_id'' tr = None then ESP_ERR_NVS_NOT_FOUND else ESP_OK)"
    and get_str_value: "stored_str ''device_id'' tr = Some v \<Longrightarrow> e_str e (tr @ [Lib ''nvs_get_str'']) = v"

section \<open>The command queue\<close>

text \<open>The commands in the queue: those sent and not received yet, in order.\<close>

fun pending_from :: "addr list \<Rightarrow> ext_call list \<Rightarrow> addr list" where
  "pending_from q [] = q"
| "pending_from q (Q_send p # cs) = pending_from (q @ [p]) cs"
| "pending_from q (Q_recv p # cs) = pending_from (tl q) cs"
| "pending_from q (_ # cs) = pending_from q cs"

abbreviation pending :: "ext_call list \<Rightarrow> addr list" where
  "pending \<equiv> pending_from []"

lemma pending_append: "pending_from q (cs @ ds) = pending_from (pending_from q cs) ds"
  by (induction q cs rule: pending_from.induct) auto

abbreviation QUEUE_LENGTH :: nat where "QUEUE_LENGTH \<equiv> 50"

locale command_queue =
  fixes e :: env
  assumes room: "e_room e tr \<longleftrightarrow> length (pending tr) < QUEUE_LENGTH"
    and next_cmd: "e_next e tr = (case pending tr of [] \<Rightarrow> None | p # _ \<Rightarrow> Some p)"

section \<open>An environment in which everything works\<close>

definition good_env :: env where
  "good_env = \<lparr>
     e_err = (\<lambda>tr. if tr \<noteq> [] \<and> last tr = Lib ''nvs_get_str'' \<and> stored_str ''device_id'' (butlast tr) = None
       then ESP_ERR_NVS_NOT_FOUND else ESP_OK),
     e_ok = (\<lambda>tr. True),
     e_str = (\<lambda>tr. case stored_str ''device_id'' tr of None \<Rightarrow> [] | Some v \<Rightarrow> v),
     e_i32 = (\<lambda>tr. 0), e_time = (\<lambda>tr. (0, 0, 0)),
     e_room = (\<lambda>tr. length (pending tr) < QUEUE_LENGTH),
     e_next = (\<lambda>tr. case pending tr of [] \<Rightarrow> None | p # _ \<Rightarrow> Some p),
     e_handle = (\<lambda>tr. 1), sz_zenoh = 8, sz_pub = 12, sz_tboard = 180\<rparr>"

interpretation good_flash: flash_store good_env
  by unfold_locales (simp_all add: good_env_def stored_str_append)

interpretation good_queue: command_queue good_env
  by unfold_locales (simp_all add: good_env_def)

end
