(* ===== verification/Zenoh.thy ===== *)
theory Zenoh
  imports Env
begin

text \<open>
  The wrappers around zenoh-pico (\<open>src/zenoh.c\<close>). A session and a publisher are objects of our heap;
  what the library keeps in them is its own. The lemmas show what reaches the library and what is
  returned for every answer it gives.
\<close>

section \<open>Sessions\<close>

definition zenoh_init :: "env \<Rightarrow> addr c_prog" where
  "zenoh_init e =
     bnd (calloc OZenoh (sz_zenoh e)) (\<lambda>zenoh.
     andthen (call (Lib ''z_config_default''))
     (andthen (call (Lib ''zp_config_insert''))
     (andthen (call (Lib ''zp_config_insert''))
     (andthen (call (Lib ''z_open''))
     (bnd (load as_zenoh zenoh) (\<lambda>_.
     bnd (ask (e_ok e)) (\<lambda>ok. if \<not> ok then ret 0 else ret zenoh)))))))"

definition zenoh_destroy :: "env \<Rightarrow> addr \<Rightarrow> unit c_prog" where
  "zenoh_destroy e zenoh =
     (if zenoh = 0 then ret ()
      else bnd (load as_zenoh zenoh) (\<lambda>_.
        andthen (call (Lib ''z_drop''))
        (andthen (call (Lib ''z_drop''))
        (free_sized zenoh (sz_zenoh e)))))"

definition zenoh_declare_sub :: "env \<Rightarrow> addr \<Rightarrow> string \<Rightarrow> bool c_prog" where
  "zenoh_declare_sub e zenoh key_expression =
     (if zenoh = 0 then ret False
      else bnd (load as_zenoh zenoh) (\<lambda>_.
        andthen (call (Z_sub key_expression))
        (bnd (ask (e_ok e)) (\<lambda>ok. if \<not> ok then ret False else ret True))))"

definition zenoh_declare_pub :: "env \<Rightarrow> addr \<Rightarrow> string \<Rightarrow> addr \<Rightarrow> bool c_prog" where
  "zenoh_declare_pub e zenoh key_expression zenoh_pub =
     (if zenoh = 0 then ret False
      else bnd (load as_zenoh zenoh) (\<lambda>_. bnd (load as_pub zenoh_pub) (\<lambda>_.
        andthen (call (Z_pub key_expression))
        (bnd (ask (e_ok e)) (\<lambda>ok.
        if \<not> ok then ret False
        else andthen (update_pub zenoh_pub (\<lambda>p. p\<lparr>pub_keyexpr := key_expression\<rparr>)) (ret True))))))"

definition zenoh_start_read_task :: "addr \<Rightarrow> unit c_prog" where
  "zenoh_start_read_task zenoh =
     (if zenoh = 0 then ret ()
      else bnd (load as_zenoh zenoh) (\<lambda>_. call (Lib ''zp_start_read_task'')))"

definition zenoh_start_lease_task :: "addr \<Rightarrow> unit c_prog" where
  "zenoh_start_lease_task zenoh =
     (if zenoh = 0 then ret ()
      else bnd (load as_zenoh zenoh) (\<lambda>_. call (Lib ''zp_start_lease_task'')))"

section \<open>Publishing\<close>

definition zenoh_publish :: "env \<Rightarrow> addr \<Rightarrow> string \<Rightarrow> addr \<Rightarrow> bool c_prog" where
  "zenoh_publish e zenoh message zenoh_pub =
     (if zenoh = 0 then ret False
      else bnd (load as_pub zenoh_pub) (\<lambda>p.
        andthen (call (Z_put (pub_keyexpr p) (map of_char message)))
        (bnd (ask (e_ok e)) (\<lambda>ok. if \<not> ok then ret False else ret True))))"

text \<open>\<open>z_bytes_copy_from_buf\<close> reads as many bytes as it is told, whatever the buffer's size.\<close>

definition zenoh_publish_encoded :: "env \<Rightarrow> addr \<Rightarrow> addr \<Rightarrow> u8 list \<Rightarrow> u32 \<Rightarrow> bool c_prog" where
  "zenoh_publish_encoded e zenoh zenoh_pub buffer buffer_len =
     (if zenoh = 0 \<or> zenoh_pub = 0 then ret False
      else
        andthen (check (unat buffer_len \<le> length buffer) OutOfBounds)
        (bnd (load as_pub zenoh_pub) (\<lambda>p.
        andthen (call (Z_put (pub_keyexpr p) (take (unat buffer_len) buffer)))
        (bnd (ask (e_ok e)) (\<lambda>ok. if \<not> ok then ret False else ret True)))))"

lemma zenoh_publish_encoded_ok:
  assumes "heap s pub = Some (OPub p)" "zenoh \<noteq> 0" "pub \<noteq> 0" "unat len \<le> length b"
  shows "zenoh_publish_encoded e zenoh pub b len s =
    (let tr = trace s @ [Z_put (pub_keyexpr p) (take (unat len) b)] in Inr (e_ok e tr, s\<lparr>trace := tr\<rparr>))"
  using assms by (simp add: zenoh_publish_encoded_def prog_simps Let_def)

lemma zenoh_publish_encoded_null:
  "zenoh = 0 \<or> pub = 0 \<Longrightarrow> zenoh_publish_encoded e zenoh pub b len s = Inr (False, s)"
  by (auto simp: zenoh_publish_encoded_def prog_simps)

lemma zenoh_declare_pub_ok:
  assumes "heap s z = Some OZenoh" "z \<noteq> 0" "heap s pub = Some (OPub p)"
  shows "zenoh_declare_pub e z ke pub s =
    (let s' = s\<lparr>trace := trace s @ [Z_pub ke]\<rparr> in
     if e_ok e (trace s') then Inr (True, s'\<lparr>heap := (heap s)(pub := Some (OPub (p\<lparr>pub_keyexpr := ke\<rparr>)))\<rparr>)
     else Inr (False, s'))"
  using assms by (simp add: zenoh_declare_pub_def prog_simps Let_def)

text \<open>A session that does not open is not returned, and not released.\<close>

lemma zenoh_init_fails:
  assumes "no_oom s" "\<And>tr. \<not> e_ok e (tr @ [Lib ''z_open''])"
  shows "\<exists>s'. zenoh_init e s = Inr (0, s') \<and> heap s' = (heap s)(Suc (brk s) := Some OZenoh)"
proof -
  have "\<not> e_ok e (trace s @ [Lib ''z_config_default'', Lib ''zp_config_insert'', Lib ''zp_config_insert'', Lib ''z_open''])"
    using assms(2) [of "trace s @ [Lib ''z_config_default'', Lib ''zp_config_insert'', Lib ''zp_config_insert'']"]
    by simp
  with assms(1) show ?thesis by (simp add: zenoh_init_def prog_simps)
qed

lemma zenoh_init_ok:
  assumes "no_oom s" "\<And>tr. e_ok e (tr @ [Lib ''z_open''])"
  shows "zenoh_init e s = Inr (Suc (brk s), s\<lparr>brk := Suc (brk s), heap := (heap s)(Suc (brk s) := Some OZenoh),
    total_mem_usage := total_mem_usage s + sz_zenoh e,
    trace := trace s @ [Lib ''z_config_default'', Lib ''zp_config_insert'', Lib ''zp_config_insert'', Lib ''z_open'']\<rparr>)"
proof -
  have "e_ok e (trace s @ [Lib ''z_config_default'', Lib ''zp_config_insert'', Lib ''zp_config_insert'', Lib ''z_open''])"
    using assms(2) [of "trace s @ [Lib ''z_config_default'', Lib ''zp_config_insert'', Lib ''zp_config_insert'']"]
    by simp
  with assms(1) show ?thesis by (simp add: zenoh_init_def prog_simps)
qed

section \<open>Scouting\<close>

text \<open>
  The count of peers is an \<open>int\<close> on the heap, little-endian. \<open>z_scout\<close> calls \<open>scout_callback\<close> for
  each of the \<open>hellos\<close> it receives and \<open>scout_drop\<close> when it is done with the closure; \<open>dropped\<close> says
  whether that is before \<open>zenoh_scout\<close> goes on. The macro \<open>free\<close> on the \<open>void*\<close> takes the block for
  a string.
\<close>

definition int_bytes :: "i32 \<Rightarrow> u8 list" where
  "int_bytes x = map (\<lambda>i. ucast (drop_bit (8 * i) x)) [0, 1, 2, 3]"

fun bytes_int :: "u8 list \<Rightarrow> i32" where
  "bytes_int [] = 0"
| "bytes_int (b # bs) = ucast b + push_bit 8 (bytes_int bs)"

definition scout_callback :: "addr \<Rightarrow> unit c_prog" where
  "scout_callback context = bnd (load as_bytes context) (\<lambda>b. store context (OBytes (int_bytes (bytes_int b + 1))))"

definition scout_drop :: "addr \<Rightarrow> unit c_prog" where
  "scout_drop context =
     bnd (load as_bytes context) (\<lambda>b.
     andthen (check (0 \<in> set b) OutOfBounds)
     (free_sized context (of_nat (length (takeWhile (\<lambda>x. x \<noteq> 0) b) + 1))))"

definition zenoh_scout :: "env \<Rightarrow> nat \<Rightarrow> bool \<Rightarrow> bool c_prog" where
  "zenoh_scout e hellos dropped =
     bnd (calloc (OBytes (int_bytes 0)) 4) (\<lambda>peer_count.
     if peer_count = 0 then ret False
     else
       andthen (store peer_count (OBytes (int_bytes 0)))
       (andthen (call (Lib ''z_config_default''))
       (bnd (ask (e_ok e)) (\<lambda>ok.
       if \<not> ok then andthen (free_sized peer_count 4) (ret False)
       else
         andthen (call (Lib ''z_closure_hello''))
         (bnd (ask (e_ok e)) (\<lambda>ok.
         if \<not> ok then andthen (free_sized peer_count 4) (ret False)
         else
           andthen (call (Lib ''z_scout''))
           (andthen (for_loop hellos (\<lambda>_. scout_callback peer_count))
           (andthen (if dropped then scout_drop peer_count else ret ())
           (bnd (load as_bytes peer_count) (\<lambda>b. ret (0 <s bytes_int b)))))))))))"

lemma bytes_int_bytes [simp]: "bytes_int (int_bytes x) = x"
proof -
  have "ucast (ucast x :: u8) + push_bit 8 (ucast (ucast (drop_bit 8 x) :: u8)
      + push_bit 8 (ucast (ucast (drop_bit 16 x) :: u8) + push_bit 8 (ucast (ucast (drop_bit 24 x) :: u8)))) = x"
    (is "?l = x") for x :: i32
  proof -
    have "ucast (ucast y :: u8) = take_bit 8 y" for y :: i32
      by (rule bit_word_eqI) (auto simp: bit_simps)
    moreover have "take_bit 8 y + push_bit 8 (drop_bit 8 y) = y" for y :: i32
      using bits_ident [of 8 y] by (simp only: add.commute)
    moreover have "drop_bit 16 y = drop_bit 8 (drop_bit 8 y)" "drop_bit 24 y = drop_bit 8 (drop_bit 8 (drop_bit 8 y))"
      for y :: i32 by simp_all
    moreover have "take_bit 8 (drop_bit 24 y) = drop_bit 24 y" for y :: i32
      by (rule bit_word_eqI) (auto simp: bit_simps dest: bit_imp_le_length)
    ultimately show ?thesis by metis
  qed
  then show ?thesis by (simp add: int_bytes_def)
qed

lemma scouting:
  assumes "heap s p = Some (OBytes (int_bytes n))"
  shows "for_from k i (\<lambda>_. scout_callback p) s = Inr ((), s\<lparr>heap := (heap s)(p := Some (OBytes (int_bytes (n + of_nat k))))\<rparr>)"
  using assms
proof (induction k arbitrary: i s n)
  case 0
  then show ?case by (simp add: prog_simps fun_upd_idem)
next
  case (Suc k)
  let ?s = "s\<lparr>heap := (heap s)(p := Some (OBytes (int_bytes (n + 1))))\<rparr>"
  have "scout_callback p s = Inr ((), ?s)" using Suc.prems by (simp add: scout_callback_def prog_simps)
  moreover have "for_from k (Suc i) (\<lambda>_. scout_callback p) ?s
      = Inr ((), ?s\<lparr>heap := (heap ?s)(p := Some (OBytes (int_bytes (n + 1 + of_nat k))))\<rparr>)"
    by (rule Suc.IH) simp
  ultimately show ?case
    by (auto simp: prog_simps add.assoc fun_eq_iff intro!: arg_cong2 [where f = heap_update])
qed

lemma int_bytes_zero: "n < 2 ^ 24 \<Longrightarrow> 0 \<in> set (int_bytes n)"
proof -
  assume n: "n < 2 ^ 24"
  then have "unat (drop_bit 24 n) = 0"
    unfolding unat_drop_bit_eq drop_bit_eq_div [of 24 "unat n"] by (simp add: word_less_nat_alt)
  then have "drop_bit 24 n = 0" by (simp only: unat_eq_zero)
  then show ?thesis by (simp add: int_bytes_def)
qed


end
