(* ===== verification/Cbor_Interface.thy ===== *)
theory Cbor_Interface
  imports Prelude
begin

text \<open>
  The CBOR library is not part of the repository: here is what the code calls of it, as parameters.

  Encoding: the library sees the sequence of calls made on the three encoder objects, and from it
  (and the size of the buffer) determines the bytes in the buffer and the size it reports. The code
  ignores every error code, so nothing else comes back.

  Decoding: the library hands out cursors (\<open>CborValue\<close>); every function of a cursor that the code
  calls is a parameter.

  \<open>run_calls\<close> is the documented reading of a call sequence as a CBOR data item; the locale
  \<open>cbor_codec\<close> states what the documentation promises of the library: a sequence of calls that
  builds an item leaves the encoding of that item, if it fits, and a cursor over that encoding
  walks the item.
\<close>

section \<open>The encoder\<close>

text \<open>The encoder objects of \<open>command_new_using_arg\<close>: \<open>encoder\<close>, \<open>mapEncoder\<close>, \<open>arrayEncoder\<close>.\<close>

datatype enc_id = TopEnc | MapEnc | ArrEnc

datatype enc_call =
    Encoder_create_map enc_id enc_id nat
  | Encoder_create_array enc_id enc_id nat
  | Encode_text_stringz enc_id string
  | Encode_byte_string enc_id "u8 list"
  | Encode_int enc_id int
  | Encode_uint enc_id u64
  | Encode_negative_int enc_id u64
  | Encode_double enc_id u64
  | Encode_null enc_id
  | Encoder_close_container enc_id enc_id

record cbor_encoder =
  enc_buffer :: "nat \<Rightarrow> enc_call list \<Rightarrow> u8 list" \<comment> \<open>the buffer after the calls\<close>
  enc_size :: "nat \<Rightarrow> enc_call list \<Rightarrow> i32"       \<comment> \<open>\<open>cbor_encoder_get_buffer_size\<close>\<close>

section \<open>The parser\<close>

text \<open>The types \<open>cbor_value_get_type\<close> can return that the code distinguishes, and the others.\<close>

datatype cbor_type =
    CborIntegerType | CborByteStringType | CborTextStringType | CborArrayType | CborMapType
  | CborFloatType | CborDoubleType | CborNullType | CborOtherType

record 'v cbor_parser =
  parser_init :: "u8 list \<Rightarrow> 'v"          \<comment> \<open>\<open>cbor_parser_init\<close> on these bytes: the first value\<close>
  enter_container :: "'v \<Rightarrow> 'v"
  at_end :: "'v \<Rightarrow> bool"
  get_type :: "'v \<Rightarrow> cbor_type"
  type_code :: "cbor_type \<Rightarrow> int"         \<comment> \<open>the number of the enumerator\<close>
  is_text_string :: "'v \<Rightarrow> bool"
  get_int :: "'v \<Rightarrow> i32"
  get_double :: "'v \<Rightarrow> u64"
  get_float :: "'v \<Rightarrow> u64"                \<comment> \<open>already widened to a double\<close>
  u64_of_double :: "u64 \<Rightarrow> u64"           \<comment> \<open>the C conversion \<open>(uint64_t) d\<close>\<close>
  get_array_length :: "'v \<Rightarrow> nat option"  \<comment> \<open>\<open>None\<close>: an error, the output is not written\<close>
  copy_text_string :: "'v \<Rightarrow> char list \<Rightarrow> nat \<Rightarrow> char list \<times> nat"
    \<comment> \<open>into this buffer, of which this many bytes may be used: the buffer and \<open>*buflen\<close> after\<close>
  advance :: "'v \<Rightarrow> 'v"

section \<open>Data items\<close>

text \<open>A map is the list of its keys and values, alternating, as a cursor inside it meets them.\<close>

datatype item =
    IInt int
  | IText string
  | IBytes "u8 list"
  | IDouble u64
  | INull
  | IArray "item list"
  | IMap "item list"

fun item_type :: "item \<Rightarrow> cbor_type" where
  "item_type (IInt i) = CborIntegerType"
| "item_type (IText x) = CborTextStringType"
| "item_type (IBytes b) = CborByteStringType"
| "item_type (IDouble d) = CborDoubleType"
| "item_type INull = CborNullType"
| "item_type (IArray xs) = CborArrayType"
| "item_type (IMap xs) = CborMapType"

text \<open>Items the format can represent: integers of 64 bits and a sign, lengths below \<open>2 ^ 64\<close>.\<close>

fun wf_item :: "item \<Rightarrow> bool" where
  "wf_item (IInt i) \<longleftrightarrow> - (2 ^ 64) \<le> i \<and> i < 2 ^ 64"
| "wf_item (IText x) \<longleftrightarrow> length x < 2 ^ 64"
| "wf_item (IBytes b) \<longleftrightarrow> length b < 2 ^ 64"
| "wf_item (IArray xs) \<longleftrightarrow> length xs < 2 ^ 64 \<and> list_all wf_item xs"
| "wf_item (IMap xs) \<longleftrightarrow> length xs < 2 ^ 64 \<and> even (length xs) \<and> list_all wf_item xs"
| "wf_item _ \<longleftrightarrow> True"

section \<open>The item a sequence of calls builds\<close>

text \<open>
  The containers that are open, innermost first: whether it is a map, on which encoder object it is
  built, how many items it was announced to hold, and those appended so far, last first.
\<close>

datatype frame = Frame bool enc_id nat "item list"

fun append_item :: "enc_id \<Rightarrow> item \<Rightarrow> frame list \<Rightarrow> frame list option" where
  "append_item e x (Frame m e' n xs # fs) =
     (if e = e' \<and> length xs < n then Some (Frame m e' n (x # xs) # fs) else None)"
| "append_item e x [] = None"

fun run_call :: "enc_call \<Rightarrow> frame list \<Rightarrow> frame list option" where
  "run_call (Encoder_create_map e e' n) (Frame m e0 k xs # fs) =
     (if e = e0 \<and> length xs < k then Some (Frame True e' (2 * n) [] # Frame m e0 k xs # fs) else None)"
| "run_call (Encoder_create_array e e' n) (Frame m e0 k xs # fs) =
     (if e = e0 \<and> length xs < k then Some (Frame False e' n [] # Frame m e0 k xs # fs) else None)"
| "run_call (Encoder_close_container e e') (Frame m e1 n xs # fs) =
     (if e' = e1 \<and> length xs = n
      then append_item e (if m then IMap (rev xs) else IArray (rev xs)) fs else None)"
| "run_call (Encode_text_stringz e x) fs = append_item e (IText x) fs"
| "run_call (Encode_byte_string e b) fs = append_item e (IBytes b) fs"
| "run_call (Encode_int e i) fs = append_item e (IInt i) fs"
| "run_call (Encode_uint e w) fs = append_item e (IInt (uint w)) fs"
| "run_call (Encode_negative_int e w) fs = append_item e (IInt (- uint w)) fs"
| "run_call (Encode_double e d) fs = append_item e (IDouble d) fs"
| "run_call (Encode_null e) fs = append_item e INull fs"
| "run_call _ [] = None"

fun run_from :: "enc_call list \<Rightarrow> frame list \<Rightarrow> frame list option" where
  "run_from [] fs = Some fs"
| "run_from (c # cs) fs = (case run_call c fs of None \<Rightarrow> None | Some fs' \<Rightarrow> run_from cs fs')"

text \<open>A top-level encoder holds one item. \<open>None\<close>: the calls do not build a well-formed item.\<close>

definition run_calls :: "enc_call list \<Rightarrow> item option" where
  "run_calls cs = (case run_from cs [Frame False TopEnc 1 []] of
     Some [Frame _ _ _ [x]] \<Rightarrow> Some x | _ \<Rightarrow> None)"

lemma run_from_append:
  "run_from (cs @ ds) fs = (case run_from cs fs of None \<Rightarrow> None | Some fs' \<Rightarrow> run_from ds fs')"
  by (induction cs arbitrary: fs) (auto split: option.splits)

section \<open>What the library promises\<close>

text \<open>
  \<open>bytes\<close> is the encoding of an item and \<open>view v\<close> what is left to read in the container the cursor
  \<open>v\<close> is in. The laws are those of the documentation: an integer is read modulo the width of an
  \<open>int\<close>; a text that fits with its terminator is copied with it.
\<close>

locale cbor_codec =
  fixes E :: cbor_encoder
    and P :: "'v cbor_parser"
    and bytes :: "item \<Rightarrow> u8 list"
    and view :: "'v \<Rightarrow> item list"
  assumes enc_fits: "run_calls cs = Some t \<Longrightarrow> wf_item t \<Longrightarrow> length (bytes t) \<le> cap \<Longrightarrow>
      enc_size E cap cs = of_nat (length (bytes t)) \<and> length (enc_buffer E cap cs) = cap
      \<and> take (length (bytes t)) (enc_buffer E cap cs) = bytes t"
    and view_init: "wf_item t \<Longrightarrow> view (parser_init P (bytes t)) = [t]"
    and view_enter_array: "view v = IArray xs # r \<Longrightarrow> view (enter_container P v) = xs"
    and view_enter_map: "view v = IMap xs # r \<Longrightarrow> view (enter_container P v) = xs"
    and view_advance: "view v = t # r \<Longrightarrow> view (advance P v) = r"
    and view_end: "at_end P v \<longleftrightarrow> view v = []"
    and view_type: "view v = t # r \<Longrightarrow> get_type P v = item_type t"
    and type_codes: "type_code P ty = 251 \<longleftrightarrow> ty = CborDoubleType"
    and view_text: "view v = t # r \<Longrightarrow> is_text_string P v \<longleftrightarrow> item_type t = CborTextStringType"
    and view_int: "view v = IInt i # r \<Longrightarrow> get_int P v = word_of_int i"
    and view_double: "view v = IDouble d # r \<Longrightarrow> get_double P v = d"
    and view_length: "view v = IArray xs # r \<Longrightarrow> get_array_length P v = Some (length xs)"
    and view_copy: "view v = IText x # r \<Longrightarrow> length x < n \<Longrightarrow> n \<le> length b \<Longrightarrow>
      copy_text_string P v b n = (x @ NUL # drop (Suc (length x)) b, length x)"

end
