(* ===== verification/Command.thy ===== *)
theory Command
  imports Args Cbor_Interface
begin

text \<open>
  The commands of \<open>src/command.c\<close> on the sending side: building a command object together with its
  CBOR encoding (\<open>command_new\<close>, \<open>command_new_using_arg\<close>), its reference count (\<open>command_hold\<close>,
  \<open>command_free\<close>), the internal commands, and \<open>command_to_string\<close>.

  A \<open>const char*\<close> parameter is a \<open>string option\<close>, \<open>None\<close> for \<open>NULL\<close>. The calls into the CBOR
  library are collected in the order they are made; the library \<open>E\<close> turns them into the contents of
  the buffer.
\<close>

section \<open>Building a command\<close>

text \<open>Reading a string through a pointer.\<close>

fun str_ptr :: "string option \<Rightarrow> string c_prog" where
  "str_ptr (Some x) = ret x"
| "str_ptr None = raise NullDeref"

text \<open>The macro \<open>COPY_STRING\<close>.\<close>

fun copy_string :: "char list \<Rightarrow> string option \<Rightarrow> nat \<Rightarrow> char list" where
  "copy_string x (Some y) n = strncpy x y (n - 1)"
| "copy_string x None n = x[0 := NUL]"

text \<open>The library call made for one argument.\<close>

definition encode_arg :: "addr \<Rightarrow> nat \<Rightarrow> enc_call list c_prog" where
  "encode_arg p i = bnd (get_arg p i) (\<lambda>a.
     case arg_type a of
       NVOID_TYPE \<Rightarrow> bnd (get_ptr (arg_val a)) (\<lambda>q. bnd (nvoid_field q 8) (\<lambda>n.
         bnd (load as_bytes (nv_data n)) (\<lambda>b.
         if unat (nv_len n) \<le> length b then ret [Encode_byte_string ArrEnc (take (unat (nv_len n)) b)]
         else raise OutOfBounds)))
     | STRING_TYPE \<Rightarrow> bnd (get_ptr (arg_val a)) (\<lambda>q. bnd (load as_chars q) (\<lambda>b.
         bnd (read_str b) (\<lambda>x. ret [Encode_text_stringz ArrEnc x])))
     | INT_TYPE \<Rightarrow> bnd (get_ival (arg_val a)) (\<lambda>x. ret
         [if x <s 0 then Encode_negative_int ArrEnc (scast (- x)) else Encode_int ArrEnc (sint x)])
     | LONG_TYPE \<Rightarrow> bnd (get_ival (arg_val a)) (\<lambda>x. ret
         [if x <s 0 then Encode_negative_int ArrEnc (scast (- x)) else Encode_int ArrEnc (sint x)])
     | DOUBLE_TYPE \<Rightarrow> bnd (get_dval (arg_val a)) (\<lambda>d. ret [Encode_double ArrEnc d])
     | NULL_TYPE \<Rightarrow> ret [Encode_null ArrEnc]
     | VOID_TYPE \<Rightarrow> ret [])"

primrec encode_args :: "nat \<Rightarrow> nat \<Rightarrow> addr \<Rightarrow> enc_call list c_prog" where
  "encode_args 0 i p = ret []"
| "encode_args (Suc k) i p = bnd (encode_arg p i) (\<lambda>cs.
     bnd (encode_args k (Suc i) p) (\<lambda>rest. ret (cs @ rest)))"

text \<open>The calls for a key and its value, and for the fields before the arguments.\<close>

definition field_calls :: "i32 \<Rightarrow> i32 \<Rightarrow> string \<Rightarrow> u64 \<Rightarrow> string \<Rightarrow> string \<Rightarrow> enc_call list" where
  "field_calls cmd subcmd fn_name taskid node_id fn_argsig =
    [Encoder_create_map TopEnc MapEnc 7,
     Encode_text_stringz MapEnc ''cmd'', Encode_int MapEnc (sint cmd),
     Encode_text_stringz MapEnc ''subcmd'', Encode_int MapEnc (sint subcmd),
     Encode_text_stringz MapEnc ''fn_name'', Encode_text_stringz MapEnc fn_name,
     Encode_text_stringz MapEnc ''taskid'', Encode_uint MapEnc taskid,
     Encode_text_stringz MapEnc ''nodeid'', Encode_text_stringz MapEnc node_id,
     Encode_text_stringz MapEnc ''fn_argsig'', Encode_text_stringz MapEnc fn_argsig,
     Encode_text_stringz MapEnc ''args'']"

text \<open>The argument array: its calls, and the clone stored in the command.\<close>

definition encode_arg_array :: "addr \<Rightarrow> addr \<Rightarrow> enc_call list c_prog" where
  "encode_arg_array cmdo args =
     (if args = 0 then
        andthen (update_cmd cmdo (\<lambda>c. c\<lparr>c_args := 0\<rparr>))
        (ret [Encoder_create_array MapEnc ArrEnc 0])
      else
        bnd (command_args_clone args) (\<lambda>q.
        andthen (update_cmd cmdo (\<lambda>c. c\<lparr>c_args := q\<rparr>))
        (bnd (get_arg args 0) (\<lambda>a0.
        bnd (encode_args (iterations (nargs a0)) 0 args) (\<lambda>cs.
        ret (Encoder_create_array MapEnc ArrEnc (unat (nargs a0)) # cs))))))"

definition command_new_using_arg :: "cbor_encoder \<Rightarrow> i32 \<Rightarrow> i32 \<Rightarrow> string option \<Rightarrow> u64 \<Rightarrow>
    string option \<Rightarrow> string option \<Rightarrow> addr \<Rightarrow> addr c_prog" where
  "command_new_using_arg E cmd subcmd fn_name taskid node_id fn_argsig args =
     bnd (calloc (OCmd zero_command) 1248) (\<lambda>cmdo.
     andthen (update_cmd cmdo (\<lambda>c. c\<lparr>c_cmd := cmd, c_subcmd := subcmd,
       c_fn_name := copy_string (c_fn_name c) fn_name SMALL_CMD_STR_LEN\<rparr>))
     (bnd (str_ptr fn_name) (\<lambda>fn.
     andthen (update_cmd cmdo (\<lambda>c. c\<lparr>c_task_id := taskid,
       c_node_id := copy_string (c_node_id c) node_id LARGE_CMD_STR_LEN\<rparr>))
     (bnd (str_ptr node_id) (\<lambda>node.
     andthen (update_cmd cmdo (\<lambda>c. c\<lparr>
       c_fn_argsig := copy_string (c_fn_argsig c) fn_argsig SMALL_CMD_STR_LEN\<rparr>))
     (bnd (str_ptr fn_argsig) (\<lambda>sig.
     bnd (encode_arg_array cmdo args) (\<lambda>acs.
     let calls = field_calls cmd subcmd fn taskid node sig @ acs
           @ [Encoder_close_container MapEnc ArrEnc, Encoder_close_container TopEnc MapEnc] in
     bnd (gets cmd_id) (\<lambda>n.
     andthen (modify (\<lambda>s. s\<lparr>cmd_id := n + 1\<rparr>))
     (andthen (update_cmd cmdo (\<lambda>c. c\<lparr>c_id := n, c_refcount := 1,
       c_buffer := enc_buffer E HUGE_CMD_STR_LEN calls,
       c_length := enc_size E HUGE_CMD_STR_LEN calls\<rparr>))
     (ret cmdo)))))))))))"

definition command_new :: "cbor_encoder \<Rightarrow> i32 \<Rightarrow> i32 \<Rightarrow> string option \<Rightarrow> u64 \<Rightarrow>
    string option \<Rightarrow> string option \<Rightarrow> vararg list \<Rightarrow> addr c_prog" where
  "command_new E cmd subcmd fn_name task_id node_id fn_argsig vs =
     bnd (str_ptr fn_argsig) (\<lambda>sig.
     let len = of_nat (length sig) in
     bnd (if 0 < sint len then bnd (calloc_args len) (\<lambda>q.
            andthen (fill_loop new_switch sig q 0 len vs) (ret q))
          else ret 0) (\<lambda>qargs.
     bnd (command_new_using_arg E cmd subcmd fn_name task_id node_id fn_argsig qargs) (\<lambda>c.
     andthen (if qargs \<noteq> 0 then command_args_free qargs else ret ())
     (ret c))))"

section \<open>Reference counting\<close>

definition command_hold :: "addr \<Rightarrow> unit c_prog" where
  "command_hold cmd = update_cmd cmd (\<lambda>c. c\<lparr>c_refcount := c_refcount c + 1\<rparr>)"

definition free_cmd_elem :: "addr \<Rightarrow> nat \<Rightarrow> unit c_prog" where
  "free_cmd_elem arg i = bnd (get_arg arg i) (\<lambda>a.
     case arg_type a of
       STRING_TYPE \<Rightarrow> bnd (get_ptr (arg_val a)) free_chars
     | NVOID_TYPE \<Rightarrow> bnd (get_ptr (arg_val a)) (\<lambda>q. if q \<noteq> 0 then nvoid_free q else ret ())
     | _ \<Rightarrow> ret ())"

definition command_free :: "addr \<Rightarrow> unit c_prog" where
  "command_free cmd =
     bnd (load as_cmd cmd) (\<lambda>c.
     let rc = c_refcount c - 1 in
     andthen (store cmd (OCmd (c\<lparr>c_refcount := rc\<rparr>)))
     (if 0 <s rc then ret ()
      else
        bnd (if c_args c \<noteq> 0 then bnd (get_arg (c_args c) 0) (\<lambda>a0. ret (nargs a0)) else ret 0) (\<lambda>n.
        andthen (for_loop (iterations n) (free_cmd_elem (c_args c)))
        (andthen (if c_args c \<noteq> 0 then
            bnd (get_arg (c_args c) 0) (\<lambda>a0.
            andthen (modify (\<lambda>s. s\<lparr>total_mem_usage := total_mem_usage s - (nargs a0 - 1) * 16\<rparr>))
            (free_sized (c_args c) 16))
          else ret ())
        (free_sized cmd 1248)))))"

section \<open>Internal commands\<close>

definition internal_command_new :: "addr \<Rightarrow> addr c_prog" where
  "internal_command_new cmd =
     bnd (calloc (OIcmd \<lparr>ic_cmd = 0, ic_task_id = 0, ic_args = 0\<rparr>) 12) (\<lambda>ic.
     bnd (load as_cmd cmd) (\<lambda>c.
     andthen (store ic (OIcmd \<lparr>ic_cmd = c_cmd c, ic_task_id = ucast (c_task_id c), ic_args = 0\<rparr>))
     (bnd (command_args_clone (c_args c)) (\<lambda>q.
     andthen (store ic (OIcmd \<lparr>ic_cmd = c_cmd c, ic_task_id = ucast (c_task_id c), ic_args = q\<rparr>))
     (ret ic)))))"

definition internal_command_free :: "addr \<Rightarrow> unit c_prog" where
  "internal_command_free ic = bnd (load as_icmd ic) (\<lambda>c.
     andthen (command_args_free (ic_args c)) (free_sized ic 12))"

section \<open>Names of commands\<close>

definition command_name :: "i32 \<Rightarrow> string" where
  "command_name cmd =
     (if cmd = cmd_code CMD_PING then ''PING''
      else if cmd = cmd_code CMD_REXEC then ''REXEC''
      else if cmd = cmd_code CMD_REXEC_ACK then ''REXEC_ACK''
      else if cmd = cmd_code CMD_REXEC_RES then ''REXEC_RES''
      else if cmd = cmd_code CMD_GET_REXEC_RES then ''GET_REXEC_RES''
      else ''UNKNOWN_COMMAND'')"

text \<open>\<open>None\<close>: the function returns \<open>NULL\<close>. \<open>strcpy\<close> writes the name and its terminator.\<close>

definition command_to_string :: "i32 \<Rightarrow> char list \<Rightarrow> nat \<Rightarrow> fault + char list option" where
  "command_to_string cmd output_str max_len =
     (let str = command_name cmd; l = length str in
      if l + 1 > max_len then Inr None
      else if l + 1 > length output_str then Inl OutOfBounds
      else Inr (Some (str @ [NUL] @ drop (l + 1) output_str)))"


section \<open>A command and what it owns\<close>

text \<open>
  \<open>cmd_at s p c ds vs\<close>: at \<open>p\<close> is the command \<open>c\<close>; its arguments are the array \<open>ds\<close> with values
  \<open>vs\<close>, none if the pointer is \<open>NULL\<close>. \<open>cmd_ptrs\<close> are the objects it owns.
\<close>

definition cmd_at :: "world \<Rightarrow> addr \<Rightarrow> command_t \<Rightarrow> arg_t list \<Rightarrow> argv list \<Rightarrow> bool" where
  "cmd_at s p c ds vs \<longleftrightarrow> p \<noteq> 0 \<and> heap s p = Some (OCmd c)
     \<and> (if c_args c = 0 then ds = [] \<and> vs = []
        else args_at s (c_args c) ds vs \<and> distinct (c_args c # args_ptrs ds))"

definition cmd_ptrs :: "addr \<Rightarrow> command_t \<Rightarrow> arg_t list \<Rightarrow> addr list" where
  "cmd_ptrs p c ds = p # (if c_args c = 0 then [] else c_args c # args_ptrs ds)"

lemma free_cmd_elem_ok:
  "heap s p = Some (OArgs as) \<Longrightarrow> i < length as \<Longrightarrow> arg_view s (as ! i) = Some v \<Longrightarrow>
    free_cmd_elem p i s = Inr ((), released (set (arg_ptrs (as ! i))) (of_nat (str_size v)) s)"
  using free_elem_ok [of s p as i v]
  by (cases "arg_type (as ! i)") (auto simp: free_elem_def free_cmd_elem_def prog_simps arg_view_def)

text \<open>The last reference: the command and everything it owns is released, and nothing else.\<close>

lemma command_free_last:
  assumes at: "cmd_at s p c ds vs" and rc: "\<not> 0 <s c_refcount c - 1"
  shows "command_free p s = Inr ((), released (set (cmd_ptrs p c ds))
     (1248 + of_nat (length ds) * 16 + of_nat (str_bytes vs)) s)"
proof -
  let ?s = "s\<lparr>heap := (heap s)(p := Some (OCmd (c\<lparr>c_refcount := c_refcount c - 1\<rparr>)))\<rparr>"
  have p: "p \<noteq> 0" "heap s p = Some (OCmd c)" using at by (auto simp: cmd_at_def)
  show ?thesis
  proof (cases "c_args c = 0")
    case True
    with p rc at show ?thesis
      by (auto simp: command_free_def prog_simps for_loop_def iterations_def released_def cmd_ptrs_def
          cmd_at_def fun_eq_iff intro!: arg_cong2 [where f = heap_update])
  next
    case False
    let ?q = "c_args c"
    have as: "args_at s ?q ds vs" and dist: "distinct (?q # args_ptrs ds)"
      using at False by (auto simp: cmd_at_def)
    have q: "p \<noteq> ?q" "p \<notin> set (args_ptrs ds)"
      using p args_at_heap [OF as] args_at_ptrs_live [OF as, of p] by auto
    have as': "args_at ?s ?q ds vs"
      using as by (rule args_at_cong) (use q in auto)
    have n: "0 < length ds" "length ds < 2 ^ 28" "nargs (ds ! 0) = of_nat (length ds)"
      using args_at_bounds [OF as] args_at_nth(2) [OF as, of 0] by auto
    have "for_loop (length ds) (free_cmd_elem ?q) ?s
        = Inr ((), released (set (args_ptrs ds)) (of_nat (str_bytes vs)) ?s)"
      using as' dist free_cmd_elem_ok by (rule free_loop_ok)
    with p rc False q n dist args_at_heap [OF as] show ?thesis
      by (auto simp: command_free_def prog_simps released_def cmd_ptrs_def Let_def fun_eq_iff
          algebra_simps intro!: arg_cong2 [where f = heap_update])
  qed
qed

text \<open>A reference that is not the last: only the count changes.\<close>

lemma command_free_shared:
  assumes "heap s p = Some (OCmd c)" "0 <s c_refcount c - 1"
  shows "command_free p s =
    Inr ((), s\<lparr>heap := (heap s)(p := Some (OCmd (c\<lparr>c_refcount := c_refcount c - 1\<rparr>)))\<rparr>)"
  using assms by (simp add: command_free_def prog_simps)

lemma command_free_freed: "heap s p = None \<Longrightarrow> command_free p s = Inl (bad_ptr p s)"
  by (simp add: command_free_def prog_simps)


section \<open>The calls made for a command\<close>

definition int_call :: "i32 \<Rightarrow> enc_call" where
  "int_call x = (if x <s 0 then Encode_negative_int ArrEnc (scast (- x)) else Encode_int ArrEnc (sint x))"

fun argv_calls :: "argv \<Rightarrow> enc_call list" where
  "argv_calls VNull = [Encode_null ArrEnc]"
| "argv_calls (VInt x) = [int_call x]"
| "argv_calls (VLong x) = [int_call x]"
| "argv_calls (VDouble d) = [Encode_double ArrEnc d]"
| "argv_calls (VStr x) = [Encode_text_stringz ArrEnc x]"
| "argv_calls VVoid = []"

definition cmd_calls :: "i32 \<Rightarrow> i32 \<Rightarrow> string \<Rightarrow> u64 \<Rightarrow> string \<Rightarrow> string \<Rightarrow> argv list \<Rightarrow> enc_call list" where
  "cmd_calls cmd subcmd fn tid node sig vs = field_calls cmd subcmd fn tid node sig
     @ (Encoder_create_array MapEnc ArrEnc (length vs) # concat (map argv_calls vs))
     @ [Encoder_close_container MapEnc ArrEnc, Encoder_close_container TopEnc MapEnc]"

lemma encode_arg_ok:
  assumes "heap s p = Some (OArgs as)" "i < length as" "arg_view s (as ! i) = Some v"
  shows "encode_arg p i s = Inr (argv_calls v, s)"
proof (cases "arg_type (as ! i)")
  case STRING_TYPE
  with assms(3) obtain r b where "arg_val (as ! i) = PVal r" "heap s r = Some (OChars b)"
    "NUL \<in> set b" "v = VStr (c_str b)"
    by (auto simp: arg_view_def dest!: str_viewD)
  with STRING_TYPE assms show ?thesis by (simp add: encode_arg_def prog_simps)
qed (use assms in \<open>auto simp: encode_arg_def prog_simps arg_view_def int_call_def
      dest!: int_viewD dbl_viewD\<close>)

lemma encode_args_ok:
  assumes "args_at s p as vs" "i + k \<le> length as"
  shows "encode_args k i p s = Inr (concat (map argv_calls (take k (drop i vs))), s)"
  using assms(2)
proof (induction k arbitrary: i)
  case 0
  then show ?case by (simp add: prog_simps)
next
  case (Suc k)
  then have i: "i < length as" by simp
  have "encode_arg p i s = Inr (argv_calls (vs ! i), s)"
    using args_at_heap [OF assms(1)] i args_at_nth(1) [OF assms(1) i] by (rule encode_arg_ok)
  moreover have "take (Suc k) (drop i vs) = vs ! i # take k (drop (Suc i) vs)"
    using i args_at_length [OF assms(1)] by (simp add: Cons_nth_drop_Suc [symmetric])
  ultimately show ?case using Suc by (simp add: prog_simps)
qed

text \<open>The data items for the values of the arguments; a \<open>void\<close> has none.\<close>

definition int_item :: "i32 \<Rightarrow> item" where
  "int_item x = IInt (if x <s 0 then - uint (scast (- x) :: u64) else sint x)"

fun argv_items :: "argv \<Rightarrow> item list" where
  "argv_items VNull = [INull]"
| "argv_items (VInt x) = [int_item x]"
| "argv_items (VLong x) = [int_item x]"
| "argv_items (VDouble d) = [IDouble d]"
| "argv_items (VStr x) = [IText x]"
| "argv_items VVoid = []"

definition cmd_item :: "i32 \<Rightarrow> i32 \<Rightarrow> string \<Rightarrow> u64 \<Rightarrow> string \<Rightarrow> string \<Rightarrow> argv list \<Rightarrow> item" where
  "cmd_item cmd subcmd fn tid node sig vs = IMap
    [IText ''cmd'', IInt (sint cmd), IText ''subcmd'', IInt (sint subcmd),
     IText ''fn_name'', IText fn, IText ''taskid'', IInt (uint tid),
     IText ''nodeid'', IText node, IText ''fn_argsig'', IText sig,
     IText ''args'', IArray (concat (map argv_items vs))]"

lemma argv_items_length: "length (argv_items v) = (if v = VVoid then 0 else 1)"
  by (cases v) auto

lemma items_length: "length (concat (map argv_items vs)) + count_list vs VVoid = length vs"
  by (induction vs) (auto simp: argv_items_length)

lemma run_argv_calls:
  "length xs + length (argv_items v) \<le> n \<Longrightarrow> run_from (argv_calls v @ cs) (Frame m ArrEnc n xs # fs) =
     run_from cs (Frame m ArrEnc n (rev (argv_items v) @ xs) # fs)"
  by (cases v) (auto simp: int_call_def int_item_def)

lemma run_args_calls:
  "length xs + length (concat (map argv_items vs)) \<le> n \<Longrightarrow>
    run_from (concat (map argv_calls vs) @ cs) (Frame m ArrEnc n xs # fs) =
    run_from cs (Frame m ArrEnc n (rev (concat (map argv_items vs)) @ xs) # fs)"
  by (induction vs arbitrary: xs) (auto simp: run_argv_calls)

text \<open>
  The calls build the item of the command exactly if no argument is \<open>void\<close>: the array is announced
  with one place for each argument, and a \<open>void\<close> leaves its place empty.
\<close>

lemma run_calls_cmd:
  "run_calls (cmd_calls cmd subcmd fn tid node sig vs) =
     (if VVoid \<in> set vs then None else Some (cmd_item cmd subcmd fn tid node sig vs))"
proof -
  let ?xs = "concat (map argv_items vs)"
  have len: "length ?xs \<le> length vs" "length ?xs = length vs \<longleftrightarrow> VVoid \<notin> set vs"
    using items_length [of vs] count_list_0_iff [of vs VVoid] by linarith+
  then show ?thesis
    by (simp add: run_calls_def cmd_calls_def field_calls_def cmd_item_def run_args_calls
        del: length_concat)
qed

section \<open>A new command\<close>

definition new_cmd :: "cbor_encoder \<Rightarrow> i32 \<Rightarrow> i32 \<Rightarrow> string \<Rightarrow> u64 \<Rightarrow> string \<Rightarrow> string \<Rightarrow> argv list \<Rightarrow>
    addr \<Rightarrow> i32 \<Rightarrow> command_t" where
  "new_cmd E cmd subcmd fn tid node sig vs q n = \<lparr>c_cmd = cmd, c_subcmd = subcmd,
     c_fn_name = strncpy (replicate SMALL_CMD_STR_LEN NUL) fn 31, c_task_id = tid,
     c_node_id = strncpy (replicate LARGE_CMD_STR_LEN NUL) node 127,
     c_fn_argsig = strncpy (replicate SMALL_CMD_STR_LEN NUL) sig 31,
     c_buffer = enc_buffer E HUGE_CMD_STR_LEN (cmd_calls cmd subcmd fn tid node sig vs),
     c_length = enc_size E HUGE_CMD_STR_LEN (cmd_calls cmd subcmd fn tid node sig vs),
     c_args = q, c_refcount = 1, c_id = n\<rparr>"

definition args_opt :: "world \<Rightarrow> addr \<Rightarrow> arg_t list \<Rightarrow> argv list \<Rightarrow> bool" where
  "args_opt s p as vs \<longleftrightarrow> (if p = 0 then as = [] \<and> vs = [] else args_at s p as vs)"

text \<open>
  The argument array: the calls made for it, and the clone now owned by the command \<open>p\<close>.
\<close>

lemma encode_arg_array_ok:
  assumes args: "args_opt s args as vs" and mem: "wf_mem s" "no_oom s"
    and cmd: "heap s p = Some (OCmd c)"
  shows "\<exists>s' q ds. encode_arg_array p args s =
      Inr (Encoder_create_array MapEnc ArrEnc (length vs) # concat (map argv_calls vs), s')
    \<and> grows {p} s s' \<and> wf_mem s' \<and> cmd_at s' p (c\<lparr>c_args := q\<rparr>) ds vs
    \<and> set (cmd_ptrs p (c\<lparr>c_args := q\<rparr>) ds) \<subseteq> {p} \<union> {brk s<..brk s'}
    \<and> new_objs s s' (set (cmd_ptrs p (c\<lparr>c_args := q\<rparr>) ds))
    \<and> total_mem_usage s' = total_mem_usage s + of_nat (length vs) * 16 \<and> length ds = length vs"
proof (cases "args = 0")
  case True
  have "p \<noteq> 0" "p \<le> brk s" using mem(1) cmd by (auto dest: wf_memD)
  with True args mem cmd show ?thesis
    by (intro exI [of _ "s\<lparr>heap := (heap s)(p := Some (OCmd (c\<lparr>c_args := 0\<rparr>)))\<rparr>"]
        exI [of _ 0] exI [of _ "[]"])
      (auto simp: encode_arg_array_def prog_simps args_opt_def cmd_at_def cmd_ptrs_def new_objs_def
        wf_mem_def intro!: grows_store)
next
  case False
  with args have at: "args_at s args as vs" by (simp add: args_opt_def)
  from command_args_clone_ok [OF at mem] obtain q t ds where clone:
    "command_args_clone args s = Inr (q, t)" "extends s t" "wf_mem t" "args_at t q ds vs"
    "distinct (q # args_ptrs ds)" "set (q # args_ptrs ds) \<subseteq> {brk s<..brk t}"
    "new_objs s t (set (q # args_ptrs ds))"
    "total_mem_usage t = total_mem_usage s + of_nat (length as) * 16"
    by blast
  let ?t = "t\<lparr>heap := (heap t)(p := Some (OCmd (c\<lparr>c_args := q\<rparr>)))\<rparr>"
  have p: "p \<noteq> 0" "heap t p = Some (OCmd c)" "p \<le> brk s"
    using mem(1) cmd clone(2) by (auto dest: wf_memD extends_live)
  have cong: "args_at ?t r bs vs" if *: "args_at t r bs vs" for r bs
    using that
  proof (rule args_at_cong)
    show "heap ?t r = heap t r" using args_at_heap [OF *] p(2) by auto
    fix x assume "x \<in> set (args_ptrs bs)"
    with * obtain b where "heap t x = Some (OChars b)" by (blast dest: args_at_ptrs_live)
    with p(2) show "heap ?t x = heap t x" by auto
  qed
  have at_t: "args_at t args as vs" using at clone(2) mem(1) by (rule args_at_extends)
  have len: "0 < length as" "length as < 2 ^ 28" "length vs = length as"
    "nargs (as ! 0) = of_nat (length as)"
    using args_at_bounds [OF at] args_at_length [OF at] args_at_nth(2) [OF at, of 0] by auto
  have "heap ?t args = Some (OArgs as)"
    using args_at_heap [OF cong [OF at_t]] .
  moreover have "encode_args (length as) 0 args ?t = Inr (concat (map argv_calls vs), ?t)"
    using encode_args_ok [OF cong [OF at_t], of 0 "length as"] len by simp
  ultimately have "encode_arg_array p args s =
      Inr (Encoder_create_array MapEnc ArrEnc (length vs) # concat (map argv_calls vs), ?t)"
    using False clone(1) p len by (simp add: encode_arg_array_def prog_simps)
  moreover have "grows {p} s ?t"
    by (rule grows_store [OF grows_mono [OF clone(2)]]) simp_all
  moreover have "wf_mem ?t" using clone(3) p(2) by (rule wf_mem_store)
  moreover have "cmd_at ?t p (c\<lparr>c_args := q\<rparr>) ds vs"
    using cong [OF clone(4)] clone(5,6) p by (auto simp: cmd_at_def)
  moreover have "new_objs s ?t (set (cmd_ptrs p (c\<lparr>c_args := q\<rparr>) ds))"
    using clone(6,7) by (auto simp: new_objs_def cmd_ptrs_def)
  moreover have "set (cmd_ptrs p (c\<lparr>c_args := q\<rparr>) ds) \<subseteq> {p} \<union> {brk s<..brk ?t}"
    using clone(6) by (auto simp: cmd_ptrs_def)
  moreover have "total_mem_usage ?t = total_mem_usage s + of_nat (length vs) * 16"
    using clone(8) len(3) by simp
  moreover have "length ds = length vs"
    using args_at_length [OF clone(4)] by (rule sym)
  ultimately show ?thesis by blast
qed

text \<open>
  What a constructor leaves: the command \<open>c\<close> at \<open>p\<close> and what it owns are fresh, nothing else was
  allocated, nothing that existed was touched, and one number was taken for its \<open>id\<close>.
\<close>

definition created :: "world \<Rightarrow> world \<Rightarrow> addr \<Rightarrow> command_t \<Rightarrow> arg_t list \<Rightarrow> argv list \<Rightarrow> bool" where
  "created s s' p c ds vs \<longleftrightarrow> extends s (s'\<lparr>cmd_id := cmd_id s\<rparr>) \<and> cmd_id s' = cmd_id s + 1
    \<and> wf_mem s' \<and> cmd_at s' p c ds vs \<and> set (cmd_ptrs p c ds) \<subseteq> {brk s<..brk s'}
    \<and> new_objs s s' (set (cmd_ptrs p c ds)) \<and> length ds = length vs"

lemma args_opt_cong:
  assumes "args_opt s p as vs" "wf_mem s" "\<And>r. r \<le> brk s \<Longrightarrow> heap s' r = heap s r"
  shows "args_opt s' p as vs"
proof (cases "p = 0")
  case False
  with assms(1) have at: "args_at s p as vs" by (simp add: args_opt_def)
  have "heap s' r = heap s r" if "heap s r = Some ob" for r ob
    using assms(2,3) that by (auto dest: wf_memD)
  then have "args_at s' p as vs"
    using at args_at_heap [OF at] args_at_ptrs_live [OF at] by (metis args_at_cong)
  with False show ?thesis by (simp add: args_opt_def)
qed (use assms(1) in \<open>simp add: args_opt_def\<close>)

lemma cmd_at_cong:
  assumes "cmd_at s p c ds vs" "\<And>r. r \<in> set (cmd_ptrs p c ds) \<Longrightarrow> heap s' r = heap s r"
  shows "cmd_at s' p c ds vs"
proof (cases "c_args c = 0")
  case False
  with assms(1) have at: "args_at s (c_args c) ds vs" by (simp add: cmd_at_def)
  then have "args_at s' (c_args c) ds vs"
    by (rule args_at_cong) (use False assms(2) in \<open>auto simp: cmd_ptrs_def\<close>)
  with False assms show ?thesis by (auto simp: cmd_at_def cmd_ptrs_def)
qed (use assms in \<open>auto simp: cmd_at_def cmd_ptrs_def\<close>)

text \<open>Fields of the command other than its arguments do not matter to what it owns.\<close>

lemma cmd_at_update:
  assumes at: "cmd_at s p c ds vs" and c: "c_args c' = c_args c"
  shows "cmd_at (s\<lparr>heap := (heap s)(p := Some (OCmd c'))\<rparr>) p c' ds vs"
proof (cases "c_args c = 0")
  case False
  let ?s = "s\<lparr>heap := (heap s)(p := Some (OCmd c'))\<rparr>"
  from at False have as: "args_at s (c_args c) ds vs" and p: "heap s p = Some (OCmd c)"
    by (auto simp: cmd_at_def)
  have "args_at ?s (c_args c) ds vs"
    using as
  proof (rule args_at_cong)
    show "heap ?s (c_args c) = heap s (c_args c)" using args_at_heap [OF as] p by auto
    fix x assume "x \<in> set (args_ptrs ds)"
    with as obtain b where "heap s x = Some (OChars b)" by (blast dest: args_at_ptrs_live)
    with p show "heap ?s x = heap s x" by auto
  qed
  with at c False show ?thesis by (auto simp: cmd_at_def)
qed (use assms in \<open>auto simp: cmd_at_def\<close>)

lemma cmd_ptrs_cong: "c_args c' = c_args c \<Longrightarrow> cmd_ptrs p c' ds = cmd_ptrs p c ds"
  by (simp add: cmd_ptrs_def)

lemma command_new_using_arg_ok:
  assumes args: "args_opt s args as vs" and mem: "wf_mem s" "no_oom s"
  shows "\<exists>p s' q ds.
    command_new_using_arg E cmd subcmd (Some fn) tid (Some node) (Some sig) args s = Inr (p, s')
    \<and> created s s' p (new_cmd E cmd subcmd fn tid node sig vs q (cmd_id s)) ds vs
    \<and> total_mem_usage s' = total_mem_usage s + 1248 + of_nat (length vs) * 16"
proof -
  define p where "p = Suc (brk s)"
  define c where "c = \<lparr>c_cmd = cmd, c_subcmd = subcmd,
     c_fn_name = strncpy (replicate SMALL_CMD_STR_LEN NUL) fn 31, c_task_id = tid,
     c_node_id = strncpy (replicate LARGE_CMD_STR_LEN NUL) node 127,
     c_fn_argsig = strncpy (replicate SMALL_CMD_STR_LEN NUL) sig 31,
     c_buffer = replicate HUGE_CMD_STR_LEN 0, c_length = 0, c_args = 0, c_refcount = 0, c_id = 0\<rparr>"
  define s1 where "s1 = s\<lparr>brk := p, total_mem_usage := total_mem_usage s + 1248,
    heap := (heap s)(p := Some (OCmd c))\<rparr>"
  have "args_opt s1 args as vs"
    using args mem(1) by (rule args_opt_cong) (simp add: s1_def p_def)
  moreover have "wf_mem s1" "no_oom s1" "heap s1 p = Some (OCmd c)"
    using mem by (auto simp: s1_def p_def wf_mem_def)
  ultimately obtain s2 q ds where s2: "encode_arg_array p args s1 =
      Inr (Encoder_create_array MapEnc ArrEnc (length vs) # concat (map argv_calls vs), s2)"
    "grows {p} s1 s2" "wf_mem s2" "cmd_at s2 p (c\<lparr>c_args := q\<rparr>) ds vs"
    "set (cmd_ptrs p (c\<lparr>c_args := q\<rparr>) ds) \<subseteq> {p} \<union> {brk s1<..brk s2}"
    "new_objs s1 s2 (set (cmd_ptrs p (c\<lparr>c_args := q\<rparr>) ds))"
    "total_mem_usage s2 = total_mem_usage s1 + of_nat (length vs) * 16" "length ds = length vs"
    by (blast dest: encode_arg_array_ok)
  let ?c = "new_cmd E cmd subcmd fn tid node sig vs q (cmd_id s)"
  define s3 where "s3 = s2\<lparr>cmd_id := cmd_id s + 1, heap := (heap s2)(p := Some (OCmd ?c))\<rparr>"
  have hp: "heap s2 p = Some (OCmd (c\<lparr>c_args := q\<rparr>))" using s2(4) by (simp add: cmd_at_def)
  have id: "cmd_id s2 = cmd_id s" using s2(2) by (simp add: grows_def s1_def)
  have "command_new_using_arg E cmd subcmd (Some fn) tid (Some node) (Some sig) args s = Inr (p, s3)"
    using mem(2) s2(1) hp id
    by (simp add: command_new_using_arg_def prog_simps p_def s1_def c_def zero_command_def
        s3_def new_cmd_def cmd_calls_def Let_def)
  moreover have "extends s (s3\<lparr>cmd_id := cmd_id s\<rparr>)"
  proof (rule grows_fresh [of "{p}"])
    have "grows {p} s s2" using grows_trans [OF _ s2(2), of s] by (simp add: s1_def p_def grows_def)
    then show "grows {p} s (s3\<lparr>cmd_id := cmd_id s\<rparr>)" by (simp add: s3_def grows_def)
  qed (simp add: p_def)
  moreover have "wf_mem s3"
    using wf_mem_store [OF s2(3) hp] by (simp add: s3_def wf_mem_def)
  moreover have "cmd_at s3 p ?c ds vs"
    using cmd_at_update [OF s2(4), of ?c] by (rule cmd_at_cong) (auto simp: s3_def new_cmd_def)
  moreover have "set (cmd_ptrs p ?c ds) \<subseteq> {brk s<..brk s3} \<and> new_objs s s3 (set (cmd_ptrs p ?c ds))"
  proof -
    have eq: "cmd_ptrs p ?c ds = cmd_ptrs p (c\<lparr>c_args := q\<rparr>) ds"
      by (rule cmd_ptrs_cong) (simp add: new_cmd_def)
    have "p \<le> brk s2" using s2(2) by (auto simp: grows_def s1_def)
    moreover have "new_objs s s2 (set (cmd_ptrs p (c\<lparr>c_args := q\<rparr>) ds))"
      using s2(6) by (rule new_objs_Suc) (simp_all add: s1_def p_def cmd_ptrs_def)
    then have "new_objs s s3 (set (cmd_ptrs p (c\<lparr>c_args := q\<rparr>) ds))"
      by (auto simp: new_objs_def s3_def cmd_ptrs_def)
    ultimately show ?thesis
      using s2(5) unfolding eq by (auto simp: s1_def s3_def p_def)
  qed
  moreover have "cmd_id s3 = cmd_id s + 1" "total_mem_usage s3 = total_mem_usage s + 1248 + of_nat (length vs) * 16"
    using s2(7) by (simp_all add: s3_def s1_def)
  ultimately show ?thesis unfolding created_def using s2(8) by blast
qed

text \<open>A \<open>NULL\<close> name is copied with care by \<open>COPY_STRING\<close>, and then given to the CBOR library.\<close>

lemma command_new_using_arg_null_name:
  assumes "no_oom s"
  shows "command_new_using_arg E cmd subcmd None tid node sig args s = Inl NullDeref"
  using assms by (simp add: command_new_using_arg_def prog_simps)

text \<open>
  Creating a command and dropping its only reference leaves the heap as it was; the counter of
  allocated bytes ends below by the bytes of the strings, which \<open>strdup\<close> did not count.
\<close>

lemma created_free:
  assumes new: "created s s' p c ds vs" "wf_mem s" and rc: "c_refcount c = 1"
    and usage: "total_mem_usage s' = u + 1248 + of_nat (length vs) * 16"
  shows "\<exists>s''. command_free p s' = Inr ((), s'') \<and> heap s'' = heap s
    \<and> total_mem_usage s'' = u - of_nat (str_bytes vs)"
proof -
  let ?A = "set (cmd_ptrs p c ds)"
  have grow: "extends s (s'\<lparr>cmd_id := cmd_id s\<rparr>)" and at: "cmd_at s' p c ds vs" "wf_mem s'"
    and A: "?A \<subseteq> {brk s<..brk s'}" "new_objs s s' ?A" and len: "length ds = length vs"
    using new(1) unfolding created_def by blast+
  have "heap (released ?A n s') r = heap s r" for n r
  proof (cases "r \<le> brk s")
    case True
    with A(1) grows_heap [OF grow True] show ?thesis by auto
  next
    case False
    then have "heap s r = None" "heap s' r \<noteq> None \<Longrightarrow> r \<in> ?A"
      using A(2) new(2) by (simp_all add: new_objs_def wf_mem_def)
    then show ?thesis by (cases "heap s' r") auto
  qed
  then have "heap (released ?A n s') = heap s" for n by (rule ext)
  with command_free_last [OF at(1)] rc usage len show ?thesis by (simp add: word_sless_alt)
qed

text \<open>What a constructor leaves stays so when fresh scratch objects around it come and go.\<close>

lemma created_around:
  assumes pre: "extends s t" "brk s \<le> brk t" "new_objs s t A" "A \<subseteq> {brk s<..brk t}"
    and new: "created t s' p c ds vs"
  shows "created s (released A n s') p c ds vs"
proof -
  have grow: "extends t (s'\<lparr>cmd_id := cmd_id t\<rparr>)" and id: "cmd_id s' = cmd_id t + 1" and mem: "wf_mem s'"
    and at: "cmd_at s' p c ds vs" and C: "set (cmd_ptrs p c ds) \<subseteq> {brk t<..brk s'}"
    "new_objs t s' (set (cmd_ptrs p c ds))" and len: "length ds = length vs"
    using new unfolding created_def by blast+
  have "r \<notin> A" if "r \<in> set (cmd_ptrs p c ds)" for r
    using that C(1) pre(4) by (meson greaterThanAtMost_iff leD subsetD)
  then have "cmd_at (released A n s') p c ds vs"
    by (intro cmd_at_cong [OF at]) simp
  moreover have "extends s (released A n s'\<lparr>cmd_id := cmd_id s\<rparr>)"
    using grows_trans [OF pre(1) grow] C pre(4) by (auto simp: grows_def subset_iff)
  moreover have "new_objs s (released A n s') (set (cmd_ptrs p c ds))"
    unfolding new_objs_def
  proof (intro allI impI)
    fix r assume r: "brk s < r" "heap (released A n s') r \<noteq> None"
    show "r \<in> set (cmd_ptrs p c ds)"
    proof (cases "r \<le> brk t")
      case True
      with r pre(3) grows_heap [OF grow True] show ?thesis
        by (auto simp: new_objs_def split: if_splits)
    next
      case False
      with r C(2) show ?thesis by (auto simp: new_objs_def split: if_splits)
    qed
  qed
  moreover have "cmd_id t = cmd_id s" using pre(1) by (simp add: grows_def)
  ultimately show ?thesis
    using mem id C(1) pre(2) len unfolding created_def by auto
qed

text \<open>
  \<open>command_new\<close> on a signature of strings, integers and doubles: the command carries the values, and
  the array they were collected in is gone.
\<close>

lemma command_new_ok:
  assumes mem: "wf_mem s" "no_oom s" and vals: "va_vals s sig vs = Some vals"
    and n: "length sig < 2 ^ 28"
  shows "\<exists>p s' q ds. command_new E cmd subcmd (Some fn) tid (Some node) (Some sig) vs s = Inr (p, s')
    \<and> created s s' p (new_cmd E cmd subcmd fn tid node sig vals q (cmd_id s)) ds vals
    \<and> total_mem_usage s' = total_mem_usage s + 1248 + of_nat (length vals) * 16 - of_nat (str_bytes vals)"
proof (cases "sig = []")
  case True
  with vals have "vals = []" by simp
  with command_new_using_arg_ok [of s 0 "[]" "[]" E cmd subcmd fn tid node sig] mem True
  show ?thesis
    by (fastforce simp: args_opt_def command_new_def prog_simps split: sum.splits)
next
  case False
  with n have len: "0 < length sig" by simp
  from new_sw.filled [OF mem vals len n] obtain q t ds where run:
    "bnd (calloc_args (of_nat (length sig))) (\<lambda>q.
        andthen (fill_loop new_switch sig q 0 (of_nat (length sig)) vs) (ret q)) s = Inr (q, t)"
    and t: "extends s t" "wf_mem t" "args_at t q ds vals" "distinct (q # args_ptrs ds)"
    "set (q # args_ptrs ds) \<subseteq> {brk s<..brk t}" "new_objs s t (set (q # args_ptrs ds))"
    "total_mem_usage t = total_mem_usage s + of_nat (length sig) * 16" "length ds = length sig"
    by blast
  have q: "q \<noteq> 0" using t(5) by auto
  with t(3) have "args_opt t q ds vals" by (simp add: args_opt_def)
  moreover have "no_oom t" using t(1) mem(2) by (simp add: grows_no_oom)
  ultimately obtain p s2 q' ds' where new:
    "command_new_using_arg E cmd subcmd (Some fn) tid (Some node) (Some sig) q t = Inr (p, s2)"
    "created t s2 p (new_cmd E cmd subcmd fn tid node sig vals q' (cmd_id t)) ds' vals"
    "total_mem_usage s2 = total_mem_usage t + 1248 + of_nat (length vals) * 16"
    using command_new_using_arg_ok [OF _ t(2)] by blast
  have "extends t (s2\<lparr>cmd_id := cmd_id t\<rparr>)" using new(2) unfolding created_def by blast
  from args_at_extends [OF t(3) this t(2)] have "args_at (s2\<lparr>cmd_id := cmd_id t\<rparr>) q ds vals" .
  then have "args_at s2 q ds vals" by (rule args_at_cong) simp_all
  from command_args_free_ok [OF this t(4) q]
  have free: "command_args_free q s2 = Inr ((), released (set (q # args_ptrs ds))
      (of_nat (length ds) * 16 + of_nat (str_bytes vals)) s2)" .
  from run obtain t0 where "calloc_args (of_nat (length sig)) s = Inr (q, t0)"
    "fill_loop new_switch sig q 0 (of_nat (length sig)) vs t0 = Inr ((), t)"
    by (auto simp: bnd_Inr_iff andthen_Inr_iff ret_app)
  then have "command_new E cmd subcmd (Some fn) tid (Some node) (Some sig) vs s
      = Inr (p, released (set (q # args_ptrs ds)) (of_nat (length ds) * 16 + of_nat (str_bytes vals)) s2)"
    using new(1) free q len n by (simp add: command_new_def Let_def prog_simps)
  moreover have "created s (released (set (q # args_ptrs ds))
      (of_nat (length ds) * 16 + of_nat (str_bytes vals)) s2) p
      (new_cmd E cmd subcmd fn tid node sig vals q' (cmd_id s)) ds' vals"
    using created_around [OF t(1) grows_brk [OF t(1)] t(6,5) new(2)] t(1) by (simp add: grows_def)
  moreover have "length vals = length sig" using vals by (rule va_vals_length)
  ultimately show ?thesis
    using new(3) t(7,8) by (intro exI conjI) (assumption | simp)+
qed

end
