(* ===== verification/Decode.thy ===== *)
theory Decode
  imports Command
begin

text \<open>
  The commands of \<open>src/command.c\<close> on the receiving side: \<open>command_from_data\<close> and
  \<open>command_from_data_inplace\<close>. Their two loops run over cursors of the CBOR library \<open>P\<close> until the
  cursor is at the end of its container; they are given fuel, and \<open>NoFuel\<close> says that the loop has not
  ended by then.

  The local variables live across the iterations (a key that is not a text leaves the previous key in
  place), and their first contents are whatever the stack held: they are a parameter.
\<close>

section \<open>The local variables\<close>

record locals =
  l_length :: nat
  l_i :: nat
  l_bytebuf :: "char list" \<comment> \<open>\<open>LARGE_CMD_STR_LEN\<close> characters\<close>
  l_strbuf :: "char list"  \<comment> \<open>\<open>LARGE_CMD_STR_LEN\<close> characters\<close>
  l_keybuf :: "char list"  \<comment> \<open>32 characters\<close>

definition wf_locals :: "locals \<Rightarrow> bool" where
  "wf_locals l \<longleftrightarrow> l_i l = 0 \<and> length (l_bytebuf l) = LARGE_CMD_STR_LEN
     \<and> length (l_strbuf l) = LARGE_CMD_STR_LEN \<and> length (l_keybuf l) = 32"

section \<open>One argument\<close>

definition set_arg :: "addr \<Rightarrow> locals \<Rightarrow> argtype_t \<Rightarrow> argvalue_t \<Rightarrow> unit c_prog" where
  "set_arg q l ty x = update_arg q (l_i l) (\<lambda>a. a\<lparr>arg_type := ty, arg_val := x\<rparr>)"

definition decode_arg :: "'v cbor_parser \<Rightarrow> addr \<Rightarrow> nat \<Rightarrow> 'v \<Rightarrow> locals \<Rightarrow> locals c_prog" where
  "decode_arg P cmd nelems arr l =
     bnd (load as_cmd cmd) (\<lambda>c.
     andthen (update_arg (c_args c) (l_i l) (\<lambda>a. a\<lparr>nargs := of_nat nelems\<rparr>))
     (case get_type P arr of
        CborIntegerType \<Rightarrow>
          andthen (set_arg (c_args c) l INT_TYPE (IVal (get_int P arr))) (ret l)
      | CborTextStringType \<Rightarrow>
          andthen (update_arg (c_args c) (l_i l) (\<lambda>a. a\<lparr>arg_type := STRING_TYPE\<rparr>))
          (let (b, n) = copy_text_string P arr (l_strbuf l) LARGE_CMD_STR_LEN in
           bnd (read_str b) (\<lambda>x. bnd (strdup_str x) (\<lambda>r.
           andthen (set_arg (c_args c) l STRING_TYPE (PVal r))
           (ret (l\<lparr>l_strbuf := b, l_length := n\<rparr>)))))
      | CborByteStringType \<Rightarrow>
          andthen (update_arg (c_args c) (l_i l) (\<lambda>a. a\<lparr>arg_type := NVOID_TYPE\<rparr>))
          (let (b, n) = copy_text_string P arr (l_bytebuf l) (l_length l) in
           bnd (nvoid_new (ret (map of_char b)) (of_nat n)) (\<lambda>r.
           andthen (set_arg (c_args c) l NVOID_TYPE (PVal r))
           (ret (l\<lparr>l_bytebuf := b, l_length := n\<rparr>))))
      | CborFloatType \<Rightarrow>
          andthen (set_arg (c_args c) l DOUBLE_TYPE (DVal (get_float P arr)))
          (andthen (set_arg (c_args c) l DOUBLE_TYPE (DVal (get_double P arr))) (ret l))
      | CborDoubleType \<Rightarrow>
          andthen (set_arg (c_args c) l DOUBLE_TYPE (DVal (get_double P arr))) (ret l)
      | _ \<Rightarrow> ret l))"

primrec decode_args :: "'v cbor_parser \<Rightarrow> nat \<Rightarrow> addr \<Rightarrow> nat \<Rightarrow> 'v \<Rightarrow> locals \<Rightarrow> locals c_prog" where
  "decode_args P 0 cmd nelems arr l = raise NoFuel"
| "decode_args P (Suc k) cmd nelems arr l =
     (if at_end P arr then ret l
      else bnd (decode_arg P cmd nelems arr l) (\<lambda>l'.
        decode_args P k cmd nelems (advance P arr) (l'\<lparr>l_i := Suc (l_i l')\<rparr>)))"

section \<open>One field\<close>

definition decode_array :: "'v cbor_parser \<Rightarrow> nat \<Rightarrow> addr \<Rightarrow> 'v \<Rightarrow> locals \<Rightarrow> locals c_prog" where
  "decode_array P fuel cmd mp l =
     (let arr = enter_container P mp;
          nelems = (case get_array_length P mp of Some n \<Rightarrow> n | None \<Rightarrow> 0) in
      if nelems > 0 then
        bnd (calloc_args (of_nat nelems)) (\<lambda>q.
        andthen (update_cmd cmd (\<lambda>c. c\<lparr>c_args := q\<rparr>))
        (decode_args P fuel cmd nelems arr l))
      else andthen (update_cmd cmd (\<lambda>c. c\<lparr>c_args := 0\<rparr>)) (ret l))"

definition decode_value :: "'v cbor_parser \<Rightarrow> nat \<Rightarrow> addr \<Rightarrow> 'v \<Rightarrow> locals \<Rightarrow> locals c_prog" where
  "decode_value P fuel cmd mp l =
     (let key = l_keybuf l in
      if str_is key ''cmd'' then
        andthen (update_cmd cmd (\<lambda>c. c\<lparr>c_cmd := get_int P mp\<rparr>)) (ret l)
      else if str_is key ''subcmd'' then
        andthen (update_cmd cmd (\<lambda>c. c\<lparr>c_subcmd := get_int P mp\<rparr>)) (ret l)
      else if str_is key ''taskid'' then
        (if type_code P (get_type P mp) = 251 then
           andthen (update_cmd cmd (\<lambda>c. c\<lparr>c_task_id := u64_of_double P (get_double P mp)\<rparr>)) (ret l)
         else
           andthen (update_cmd cmd (\<lambda>c. c\<lparr>c_task_id := scast (get_int P mp)\<rparr>)) (ret l))
      else if str_is key ''nodeid'' then
        (if is_text_string P mp then
           bnd (load as_cmd cmd) (\<lambda>c.
           let (b, n) = copy_text_string P mp (c_node_id c) LARGE_CMD_STR_LEN in
           andthen (store cmd (OCmd (c\<lparr>c_node_id := b\<rparr>))) (ret (l\<lparr>l_length := n\<rparr>)))
         else
           andthen (update_cmd cmd (\<lambda>c. c\<lparr>c_node_id := (c_node_id c)[0 := NUL]\<rparr>))
           (ret (l\<lparr>l_length := LARGE_CMD_STR_LEN\<rparr>)))
      else if str_is key ''fn_name'' then
        bnd (load as_cmd cmd) (\<lambda>c.
        let (b, n) = copy_text_string P mp (c_fn_name c) SMALL_CMD_STR_LEN in
        andthen (store cmd (OCmd (c\<lparr>c_fn_name := b\<rparr>))) (ret (l\<lparr>l_length := n\<rparr>)))
      else if str_is key ''fn_argsig'' then
        (if is_text_string P mp then
           bnd (load as_cmd cmd) (\<lambda>c.
           let (b, n) = copy_text_string P mp (c_fn_argsig c) SMALL_CMD_STR_LEN in
           andthen (store cmd (OCmd (c\<lparr>c_fn_argsig := b\<rparr>))) (ret (l\<lparr>l_length := n\<rparr>)))
         else
           andthen (update_cmd cmd (\<lambda>c. c\<lparr>c_fn_argsig := (c_fn_argsig c)[0 := NUL]\<rparr>))
           (ret (l\<lparr>l_length := SMALL_CMD_STR_LEN\<rparr>)))
      else if str_is key ''args'' then decode_array P fuel cmd mp l
      else ret l)"

definition decode_key :: "'v cbor_parser \<Rightarrow> 'v \<Rightarrow> locals \<Rightarrow> locals" where
  "decode_key P mp l =
     (if get_type P mp = CborTextStringType then
        let (b, n) = copy_text_string P mp (l_keybuf l) 32 in l\<lparr>l_keybuf := b, l_length := n\<rparr>
      else l)"

primrec decode_map :: "'v cbor_parser \<Rightarrow> nat \<Rightarrow> nat \<Rightarrow> addr \<Rightarrow> 'v \<Rightarrow> locals \<Rightarrow> unit c_prog" where
  "decode_map P 0 fuel cmd mp l = raise NoFuel"
| "decode_map P (Suc k) fuel cmd mp l =
     (if at_end P mp then ret ()
      else let l' = decode_key P mp l; val = advance P mp in
        bnd (decode_value P fuel cmd val l') (\<lambda>l''.
        decode_map P k fuel cmd (advance P val) l''))"

section \<open>The two functions\<close>

text \<open>What both do once the bytes are in the command's buffer.\<close>

definition decode_buffer :: "'v cbor_parser \<Rightarrow> nat \<Rightarrow> addr \<Rightarrow> i32 \<Rightarrow> locals \<Rightarrow> unit c_prog" where
  "decode_buffer P fuel cmd len l =
     andthen (update_cmd cmd (\<lambda>c. c\<lparr>c_length := len\<rparr>))
     (bnd (load as_cmd cmd) (\<lambda>c.
     andthen (check (unat len \<le> length (c_buffer c)) OutOfBounds)
     (andthen (decode_map P fuel fuel cmd
        (enter_container P (parser_init P (take (unat len) (c_buffer c)))) l)
     (bnd (gets cmd_id) (\<lambda>n.
     andthen (modify (\<lambda>s. s\<lparr>cmd_id := n + 1\<rparr>))
     (update_cmd cmd (\<lambda>c. c\<lparr>c_refcount := 1, c_id := n\<rparr>)))))))"

definition command_from_data_inplace :: "'v cbor_parser \<Rightarrow> nat \<Rightarrow> locals \<Rightarrow> addr \<Rightarrow> i32 \<Rightarrow> unit c_prog" where
  "command_from_data_inplace P fuel l cmd len = decode_buffer P fuel cmd len l"

text \<open>\<open>data\<close> are the bytes the pointer refers to.\<close>

definition command_from_data :: "'v cbor_parser \<Rightarrow> nat \<Rightarrow> locals \<Rightarrow> u8 list \<Rightarrow> i32 \<Rightarrow> addr c_prog" where
  "command_from_data P fuel l data len =
     bnd (calloc (OCmd zero_command) 1248) (\<lambda>cmd.
     bnd (load as_cmd cmd) (\<lambda>c.
     andthen (check (unat len \<le> length data \<and> unat len \<le> length (c_buffer c)) OutOfBounds)
     (andthen (store cmd (OCmd (c\<lparr>c_buffer := take (unat len) data @ drop (unat len) (c_buffer c)\<rparr>)))
     (andthen (decode_buffer P fuel cmd len l)
     (ret cmd)))))"

section \<open>The loops end\<close>

lemma never_nvoid [never_intros]: "never NoFuel (nvoid_new (ret b) n)"
  unfolding nvoid_new_def nvoid_field_def memcpy_def
  by (intro never_intros | simp)+

lemma never_calloc_args [never_intros]: "never NoFuel (calloc_args n)"
  unfolding calloc_args_def by (intro never_intros)

lemma never_set_arg [never_intros]: "never NoFuel (set_arg q l ty x)"
  unfolding set_arg_def by (intro never_intros)

lemma never_decode_arg: "never NoFuel (decode_arg P cmd n arr l)"
  unfolding decode_arg_def
  by (intro never_intros) (cases "get_type P arr"; auto split: prod.splits intro!: never_intros)

text \<open>
  The array of the command has at most \<open>n\<close> elements. The loop over the arguments writes one element in each
  iteration, so it takes no more than that: a cursor that does not reach the end runs out of the array.
\<close>

definition room_for :: "addr \<Rightarrow> nat \<Rightarrow> world \<Rightarrow> bool" where
  "room_for cmd n s \<longleftrightarrow> wf_mem s \<and> (\<forall>c as. heap s cmd = Some (OCmd c) \<longrightarrow> heap s (c_args c) = Some (OArgs as) \<longrightarrow> length as \<le> n)"

lemma room_for_preserved:
  "preserves (room_for cmd n) (load sel p)" "preserves (room_for cmd n) (read_str b)"
  "preserves (room_for cmd n) (strdup_str x)" "preserves (room_for cmd n) (update_arg p i g)"
proof -
  show "preserves (room_for cmd n) (load sel p)" "preserves (room_for cmd n) (read_str b)"
    by (auto simp: preserves_def load_app read_str_def ret_app raise_app split: option.splits if_splits)
  show "preserves (room_for cmd n) (strdup_str x)"
    by (auto simp: preserves_def strdup_str_def alloc_app room_for_def wf_mem_def)
  show "preserves (room_for cmd n) (update_arg p i g)"
    unfolding preserves_def
  proof (intro allI impI)
    fix s r s' assume room: "room_for cmd n s" and run: "update_arg p i g s = Inr (r, s')"
    from run obtain as where as: "heap s p = Some (OArgs as)"
      "s' = s\<lparr>heap := (heap s)(p := Some (OArgs (as[i := g (as ! i)])))\<rparr>"
      by (auto simp: update_arg_def store_def deref_app bnd_Inr_iff load_app idx_app modify_app split: option.splits if_splits
          elim!: as_args.elims)
    with room have "wf_mem s'" by (auto simp: room_for_def intro: wf_mem_store)
    with room as show "room_for cmd n s'" by (auto simp: room_for_def split: if_splits)
  qed
qed

lemma nvoid_new_never_returns: "wf_mem s \<Longrightarrow> nvoid_new data len s \<noteq> Inr r"
  by (simp add: nvoid_new_faults)

lemma decode_arg_locals:
  "decode_arg P cmd k arr l s = Inr (l', s') \<Longrightarrow> l_keybuf l' = l_keybuf l \<and> l_i l' = l_i l"
  unfolding decode_arg_def
  by (cases "get_type P arr") (auto simp: bnd_Inr_iff andthen_Inr_iff ret_app split_beta Let_def)

lemma decode_arg_returns:
  assumes room: "room_for cmd n s" and run: "decode_arg P cmd k arr l s = Inr (l', s')"
  shows "l_i l < n" "l_i l' = l_i l" "room_for cmd n s'"
proof -
  from run obtain c s1 where c: "load as_cmd cmd s = Inr (c, s)" and
    first: "update_arg (c_args c) (l_i l) (\<lambda>a. a\<lparr>nargs := of_nat k\<rparr>) s = Inr ((), s1)"
    by (auto simp: decode_arg_def bnd_Inr_iff andthen_Inr_iff load_app split: option.splits)
  from c have hc: "heap s cmd = Some (OCmd c)" by (auto simp: load_app split: option.splits elim!: as_cmd.elims)
  from first obtain as where "heap s (c_args c) = Some (OArgs as)" "l_i l < length as"
    by (auto simp: update_arg_def bnd_Inr_iff load_app idx_app split: option.splits if_splits elim!: as_args.elims)
  with hc room show "l_i l < n" by (fastforce simp: room_for_def)
  have keeps: "preserves (room_for cmd n) (set_arg q l0 ty x)" for q l0 ty x
    unfolding set_arg_def by (rule room_for_preserved)
  have no_blob: "preserves (room_for cmd n) (nvoid_new (ret x) y)" for x y
    using nvoid_new_never_returns by (auto simp: preserves_def room_for_def)
  have "preserves (room_for cmd n) (decode_arg P cmd k arr l)"
    unfolding decode_arg_def
    by (cases "get_type P arr"; intro preserves_intros room_for_preserved keeps no_blob;
      auto split: prod.splits intro!: preserves_intros room_for_preserved keeps no_blob)
  with room run show "room_for cmd n s'" by (rule preservesD [rotated])
  show "l_i l' = l_i l" using decode_arg_locals [OF run] by blast
qed

lemma decode_args_ends:
  "room_for cmd n s \<Longrightarrow> n < l_i l + fuel \<Longrightarrow> 0 < fuel \<Longrightarrow> decode_args P fuel cmd k arr l s \<noteq> Inl NoFuel"
proof (induction fuel arbitrary: arr l s)
  case (Suc fuel)
  show ?case
  proof (cases "at_end P arr \<or> (\<exists>f. decode_arg P cmd k arr l s = Inl f)")
    case True
    then show ?thesis using never_decode_arg [of P cmd k arr l] by (auto simp: never_def prog_simps)
  next
    case False
    then obtain l' s' where run: "decode_arg P cmd k arr l s = Inr (l', s')"
      by (metis sumE surj_pair)
    note d = decode_arg_returns [OF Suc.prems(1) run]
    have "decode_args P fuel cmd k (advance P arr) (l'\<lparr>l_i := Suc (l_i l')\<rparr>) s' \<noteq> Inl NoFuel"
      by (rule Suc.IH [OF d(3)]) (use d(1,2) Suc.prems(2) in simp_all)
    with False run show ?thesis by (simp add: prog_simps)
  qed
qed simp

text \<open>The number of elements the library announces, and the cursor after so many steps in the map.\<close>

definition announced :: "'v cbor_parser \<Rightarrow> 'v \<Rightarrow> nat" where
  "announced P v = (case get_array_length P v of Some n \<Rightarrow> n | None \<Rightarrow> 0)"

definition cursor :: "'v cbor_parser \<Rightarrow> u8 list \<Rightarrow> nat \<Rightarrow> 'v" where
  "cursor P bs i = (advance P ^^ i) (enter_container P (parser_init P bs))"

lemma unat_of_nat_le: "unat (of_nat n :: i32) \<le> n"
  by (simp add: unat_of_nat)

lemma calloc_args_room:
  assumes "wf_mem s" "calloc_args (of_nat n) s = Inr (q, s1)" "update_cmd cmd (\<lambda>c. c\<lparr>c_args := q\<rparr>) s1 = Inr ((), s2)"
  shows "room_for cmd n s2"
proof -
  have wf1: "wf_mem s1" and q: "\<forall>as. heap s1 q = Some (OArgs as) \<longrightarrow> length as \<le> n"
    using assms(1,2) unat_of_nat_le [of n]
    by (auto simp: calloc_args_def calloc_app wf_mem_def prog_simps split: if_splits)
  from assms(3) obtain c where c: "heap s1 cmd = Some (OCmd c)"
    and s2: "s2 = s1\<lparr>heap := (heap s1)(cmd := Some (OCmd (c\<lparr>c_args := q\<rparr>)))\<rparr>"
    by (auto simp: update_cmd_def store_def deref_app bnd_Inr_iff load_app modify_app split: option.splits elim!: as_cmd.elims)
  from wf_mem_store [OF wf1 c] q show ?thesis by (auto simp: room_for_def s2)
qed

lemma decode_value_args:
  assumes "str_is (l_keybuf l) ''args''"
  shows "decode_value P fuel cmd v l = decode_array P fuel cmd v l"
proof -
  have "\<not> str_is (l_keybuf l) ''cmd''" "\<not> str_is (l_keybuf l) ''subcmd''" "\<not> str_is (l_keybuf l) ''taskid''"
    "\<not> str_is (l_keybuf l) ''nodeid''" "\<not> str_is (l_keybuf l) ''fn_name''" "\<not> str_is (l_keybuf l) ''fn_argsig''"
    using str_is_same [OF assms] by (fastforce simp: is_cstr_def)+
  with assms show ?thesis by (simp add: decode_value_def)
qed

lemma decode_value_ends:
  assumes wf: "wf_mem s" and fuel: "announced P v < fuel"
  shows "decode_value P fuel cmd v l s \<noteq> Inl NoFuel"
proof (cases "str_is (l_keybuf l) ''args''")
  case True
  then have "decode_value P fuel cmd v l s = decode_array P fuel cmd v l s" by (simp add: decode_value_args)
  moreover have "decode_array P fuel cmd v l s \<noteq> Inl NoFuel"
  proof
    assume no: "decode_array P fuel cmd v l s = Inl NoFuel"
    have never: "never NoFuel (calloc_args (of_nat (announced P v)))" "never NoFuel (update_cmd cmd f)" for f
      by (intro never_intros)+
    from no obtain q s1 s2 where "calloc_args (of_nat (announced P v)) s = Inr (q, s1)"
      "update_cmd cmd (\<lambda>c. c\<lparr>c_args := q\<rparr>) s1 = Inr ((), s2)"
      and stop: "decode_args P fuel cmd (announced P v) (enter_container P v) l s2 = Inl NoFuel"
      using never unfolding decode_array_def announced_def [symmetric]
      by (auto simp: never_def prog_simps Let_def split: if_splits sum.splits)
    with decode_args_ends [OF calloc_args_room [OF wf], of "announced P v"] fuel show False by (metis add.commute gr0I not_less0 trans_less_add1)
  qed
  ultimately show ?thesis by simp
next
  case False
  then have "never NoFuel (decode_value P fuel cmd v l)"
    unfolding decode_value_def Let_def by (auto intro!: never_intros split: prod.splits)
  then show ?thesis by (simp add: never_def)
qed

lemma decode_value_wf: "preserves wf_mem (decode_value P fuel cmd v l)"
proof -
  have no_blob: "preserves wf_mem (nvoid_new (ret x) y)" for x y
    using nvoid_new_never_returns by (auto simp: preserves_def)
  have arg: "preserves wf_mem (decode_arg P cmd k arr l)" for k arr l
    unfolding decode_arg_def set_arg_def
    by (cases "get_type P arr"; intro preserves_intros no_blob; auto split: prod.splits intro!: preserves_intros no_blob)
  have args: "preserves wf_mem (decode_args P fuel cmd k arr l)" for k arr l
    by (induction fuel arbitrary: arr l) (auto intro!: preserves_intros arg)
  have calloc: "preserves wf_mem (calloc_args n)" for n
    unfolding calloc_args_def
    by (auto simp: preserves_def calloc_app wf_mem_def prog_simps split: if_splits)
  show ?thesis
    unfolding decode_value_def decode_array_def Let_def
    by (auto intro!: preserves_intros args calloc split: prod.splits)
qed

lemma decode_map_ends:
  "wf_mem s \<Longrightarrow> at_end P ((advance P ^^ (2 * n)) mp) \<Longrightarrow> n < k \<Longrightarrow>
    \<forall>i < n. announced P ((advance P ^^ (2 * i + 1)) mp) < fuel \<Longrightarrow> decode_map P k fuel cmd mp l s \<noteq> Inl NoFuel"
proof (induction n arbitrary: k mp l s)
  case 0
  then show ?case by (cases k) (simp_all add: prog_simps)
next
  case (Suc n)
  then obtain k' where k: "k = Suc k'" by (cases k) auto
  let ?v = "advance P mp" and ?l = "decode_key P mp l"
  have ends: "decode_value P fuel cmd ?v ?l s \<noteq> Inl NoFuel"
    by (rule decode_value_ends) (use Suc.prems(1,4) in auto)
  have next_mp: "(advance P ^^ i) (advance P ?v) = (advance P ^^ (i + 2)) mp" for i
    by (simp add: funpow_swap1)
  have "decode_map P k' fuel cmd (advance P ?v) l' s' \<noteq> Inl NoFuel"
    if "decode_value P fuel cmd ?v ?l s = Inr (l', s')" for l' s'
  proof (rule Suc.IH)
    show "wf_mem s'" using preservesD [OF decode_value_wf Suc.prems(1) that] .
    show "at_end P ((advance P ^^ (2 * n)) (advance P ?v))" using Suc.prems(2) by (simp add: next_mp)
    show "n < k'" using Suc.prems(3) k by simp
    show "\<forall>i < n. announced P ((advance P ^^ (2 * i + 1)) (advance P ?v)) < fuel"
    proof (intro allI impI)
      fix i assume "i < n"
      then have "announced P ((advance P ^^ (2 * Suc i + 1)) mp) < fuel" using Suc.prems(4) by blast
      then show "announced P ((advance P ^^ (2 * i + 1)) (advance P ?v)) < fuel" by (simp only: next_mp) simp
    qed
  qed
  with ends show ?case by (auto simp: k Let_def prog_simps split: sum.splits prod.splits)
qed

lemma decode_map_no_end:
  "\<forall>n. \<not> at_end P ((advance P ^^ (2 * n)) mp) \<Longrightarrow> decode_map P k fuel cmd mp l s \<noteq> Inr r"
proof (induction k arbitrary: mp l s)
  case (Suc k)
  have "\<not> at_end P ((advance P ^^ (2 * n)) (advance P (advance P mp)))" for n
    using Suc.prems [rule_format, of "Suc n"] by (simp add: funpow_swap1)
  with Suc.IH have "decode_map P k fuel cmd (advance P (advance P mp)) l' s' \<noteq> Inr r" for l' s' by blast
  with Suc.prems [rule_format, of 0] show ?case by (auto simp: Let_def prog_simps split: sum.splits prod.splits)
qed (simp add: prog_simps)

text \<open>The two functions run the loop from the first cursor in the map.\<close>

lemma command_from_data_loop:
  assumes wf: "wf_mem s"
  shows "(\<exists>f. f \<noteq> NoFuel \<and> (\<forall>fuel. command_from_data P fuel l data len s = Inl f))
    \<or> (\<exists>cmd s1. wf_mem s1 \<and> (\<forall>fuel. case decode_map P fuel fuel cmd (cursor P (take (unat len) data) 0) l s1 of
        Inl f \<Rightarrow> command_from_data P fuel l data len s = Inl f
      | Inr r \<Rightarrow> command_from_data P fuel l data len s \<noteq> Inl NoFuel))"
proof -
  have null: "heap s 0 = None" using wf by (simp add: wf_mem_def)
  let ?cmd = "Suc (brk s)" and ?bs = "take (unat len) data"
  let ?c = "zero_command\<lparr>c_buffer := ?bs @ drop (unat len) (c_buffer zero_command), c_length := len\<rparr>"
  let ?s = "s\<lparr>brk := ?cmd, total_mem_usage := total_mem_usage s + 1248, heap := (heap s)(?cmd := Some (OCmd ?c))\<rparr>"
  consider (no_memory) "oom s (brk s)" | (long) "\<not> oom s (brk s)" "\<not> (unat len \<le> length data \<and> unat len \<le> 1024)"
    | (fits) "\<not> oom s (brk s)" "unat len \<le> length data" "unat len \<le> 1024" by blast
  then show ?thesis
  proof cases
    case no_memory
    with null have "command_from_data P fuel l data len s = Inl NullDeref" for fuel
      by (simp add: command_from_data_def prog_simps bad_ptr_def)
    then show ?thesis by blast
  next
    case long
    then have "command_from_data P fuel l data len s = Inl OutOfBounds" for fuel
      by (auto simp: command_from_data_def prog_simps zero_command_def)
    then show ?thesis by blast
  next
    case fits
    have "wf_mem ?s" using wf by (simp add: wf_mem_def)
    moreover have "case decode_map P fuel fuel ?cmd (cursor P ?bs 0) l ?s of
        Inl f \<Rightarrow> command_from_data P fuel l data len s = Inl f
      | Inr r \<Rightarrow> command_from_data P fuel l data len s \<noteq> Inl NoFuel" for fuel
      using fits never_update(1) [of ?cmd] unfolding command_from_data_def decode_buffer_def cursor_def
      by (auto simp: prog_simps zero_command_def never_def split: sum.splits)
    ultimately show ?thesis by blast
  qed
qed

text \<open>What the values leave of the locals: the key stays, and the index only grows.\<close>

lemma decode_args_locals:
  "decode_args P fuel cmd k arr l s = Inr (l', s') \<Longrightarrow> l_keybuf l' = l_keybuf l \<and> l_i l \<le> l_i l'"
proof (induction fuel arbitrary: arr l s)
  case (Suc fuel)
  show ?case
  proof (cases "at_end P arr")
    case False
    with Suc.prems obtain l1 s1 where
      arg: "decode_arg P cmd k arr l s = Inr (l1, s1)"
      and rest: "decode_args P fuel cmd k (advance P arr) (l1\<lparr>l_i := Suc (l_i l1)\<rparr>) s1 = Inr (l', s')"
      by (auto simp: bnd_Inr_iff)
    from decode_arg_locals [OF arg] Suc.IH [OF rest] show ?thesis by simp
  qed (use Suc.prems in \<open>simp add: prog_simps\<close>)
qed (simp add: prog_simps)

lemma decode_value_locals:
  assumes "decode_value P fuel cmd v l s = Inr (l', s')"
  shows "l_keybuf l' = l_keybuf l \<and> l_i l \<le> l_i l'"
  using assms decode_args_locals [of P fuel cmd _ "enter_container P v" l _ l' s']
  unfolding decode_value_def decode_array_def
  by (auto simp: bnd_Inr_iff andthen_Inr_iff ret_app split_beta Let_def split: if_splits)

text \<open>
  A cursor that is stuck (the library reports an error and does not move it; the code ignores the
  error): the loop never ends.
\<close>

lemma decode_map_stuck:
  assumes "\<not> at_end P mp" "advance P mp = mp" "get_type P mp \<noteq> CborTextStringType"
    and "list_all (\<lambda>k. \<not> str_is (l_keybuf l) k)
      [''cmd'', ''subcmd'', ''taskid'', ''nodeid'', ''fn_name'', ''fn_argsig'', ''args'']"
  shows "decode_map P k fuel cmd mp l s = Inl NoFuel"
  using assms
  by (induction k) (simp_all add: decode_key_def decode_value_def Let_def prog_simps)

section \<open>What a field does\<close>

text \<open>
  The fields other than \<open>args\<close>, as a function on the command: what \<open>decode_value\<close> makes of a key and
  its value. An unknown key is skipped, a value of the wrong type empties a string that may be absent.
\<close>

definition put_text :: "char list \<Rightarrow> string \<Rightarrow> char list" where
  "put_text b x = x @ NUL # drop (Suc (length x)) b"

definition opt_text :: "char list \<Rightarrow> item \<Rightarrow> char list" where
  "opt_text b x = (case x of IText y \<Rightarrow> put_text b y | _ \<Rightarrow> b[0 := NUL])"

definition item_int :: "item \<Rightarrow> i32" where
  "item_int x = (case x of IInt i \<Rightarrow> word_of_int i | _ \<Rightarrow> 0)"

definition set_field :: "(u64 \<Rightarrow> u64) \<Rightarrow> string \<Rightarrow> item \<Rightarrow> command_t \<Rightarrow> command_t" where
  "set_field ud k x c =
     (if k = ''cmd'' then c\<lparr>c_cmd := item_int x\<rparr>
      else if k = ''subcmd'' then c\<lparr>c_subcmd := item_int x\<rparr>
      else if k = ''taskid'' then
        c\<lparr>c_task_id := (case x of IDouble d \<Rightarrow> ud d | _ \<Rightarrow> scast (item_int x))\<rparr>
      else if k = ''nodeid'' then c\<lparr>c_node_id := opt_text (c_node_id c) x\<rparr>
      else if k = ''fn_name'' then c\<lparr>c_fn_name := opt_text (c_fn_name c) x\<rparr>
      else if k = ''fn_argsig'' then c\<lparr>c_fn_argsig := opt_text (c_fn_argsig c) x\<rparr>
      else c)"

text \<open>The values for which the library documents what the reads return, and that fit.\<close>

definition is_int :: "item \<Rightarrow> bool" where
  "is_int x \<longleftrightarrow> item_type x = CborIntegerType"

definition text_fits :: "nat \<Rightarrow> item \<Rightarrow> bool" where
  "text_fits n x = (case x of IText y \<Rightarrow> length y < n | _ \<Rightarrow> True)"

definition field_ok :: "string \<Rightarrow> item \<Rightarrow> bool" where
  "field_ok k x \<longleftrightarrow> is_cstr k \<and> length k < 32 \<and> k \<noteq> ''args''
     \<and> (k \<in> {''cmd'', ''subcmd''} \<longrightarrow> is_int x)
     \<and> (k = ''taskid'' \<longrightarrow> is_int x \<or> item_type x = CborDoubleType)
     \<and> (k = ''nodeid'' \<longrightarrow> text_fits 128 x)
     \<and> (k = ''fn_name'' \<longrightarrow> item_type x = CborTextStringType)
     \<and> (k \<in> {''fn_name'', ''fn_argsig''} \<longrightarrow> text_fits 32 x)"

definition wf_cmd :: "command_t \<Rightarrow> bool" where
  "wf_cmd c \<longleftrightarrow> length (c_fn_name c) = 32 \<and> length (c_node_id c) = 128
     \<and> length (c_fn_argsig c) = 32 \<and> length (c_buffer c) = 1024"

lemma length_put_text [simp]: "length x < length b \<Longrightarrow> length (put_text b x) = length b"
  by (simp add: put_text_def)

lemma c_str_put_text [simp]: "is_cstr x \<Longrightarrow> c_str (put_text b x) = x"
  by (simp add: put_text_def)

lemma length_opt_text [simp]: "text_fits (length b) x \<Longrightarrow> length (opt_text b x) = length b"
  by (simp add: opt_text_def text_fits_def split: item.splits)

lemma wf_cmd_set_field: "wf_cmd c \<Longrightarrow> field_ok k x \<Longrightarrow> wf_cmd (set_field ud k x c)"
  by (auto simp: wf_cmd_def set_field_def field_ok_def)

lemma set_field_keeps [simp]:
  "c_args (set_field ud k x c) = c_args c" "c_refcount (set_field ud k x c) = c_refcount c"
  "c_buffer (set_field ud k x c) = c_buffer c" "c_length (set_field ud k x c) = c_length c"
  "c_id (set_field ud k x c) = c_id c"
  by (simp_all add: set_field_def)

lemma str_is_put_text [simp]: "is_cstr k \<Longrightarrow> is_cstr x \<Longrightarrow> str_is (put_text b k) x \<longleftrightarrow> k = x"
  by (subst str_is_iff) (auto simp: put_text_def)

lemma key_cstr [simp]:
  "is_cstr ''cmd''" "is_cstr ''subcmd''" "is_cstr ''taskid''" "is_cstr ''nodeid''"
  "is_cstr ''fn_name''" "is_cstr ''fn_argsig''" "is_cstr ''args''"
  by (simp_all add: is_cstr_def)

text \<open>The locals between two fields.\<close>

definition locals_ok :: "locals \<Rightarrow> locals \<Rightarrow> bool" where
  "locals_ok l l' \<longleftrightarrow> l_i l' = l_i l \<and> length (l_strbuf l') = length (l_strbuf l)
     \<and> length (l_keybuf l') = length (l_keybuf l)"

text \<open>A sequence of fields: each changes the command as \<open>set_field\<close> says, in order.\<close>

definition field_items :: "(string \<times> item) list \<Rightarrow> item list" where
  "field_items kvs = concat (map (\<lambda>(k, x). [IText k, x]) kvs)"

definition set_fields :: "(u64 \<Rightarrow> u64) \<Rightarrow> (string \<times> item) list \<Rightarrow> command_t \<Rightarrow> command_t" where
  "set_fields ud kvs = fold (\<lambda>(k, x). set_field ud k x) kvs"

lemma wf_cmd_set_fields: "wf_cmd c \<Longrightarrow> list_all (\<lambda>(k, x). field_ok k x) kvs \<Longrightarrow> wf_cmd (set_fields ud kvs c)"
  by (induction kvs arbitrary: c) (auto simp: set_fields_def wf_cmd_set_field)

lemma set_fields_args [simp]: "c_args (set_fields ud kvs c) = c_args c"
  by (induction kvs arbitrary: c) (auto simp: set_fields_def)

text \<open>The map as the whole message.\<close>

definition message :: "(string \<times> item) list \<Rightarrow> item list \<Rightarrow> (string \<times> item) list \<Rightarrow> item" where
  "message kvs xs kvs' = IMap (field_items kvs @ [IText ''args'', IArray xs] @ field_items kvs')"

definition decoded :: "(u64 \<Rightarrow> u64) \<Rightarrow> (string \<times> item) list \<Rightarrow> (string \<times> item) list \<Rightarrow> command_t \<Rightarrow> addr \<Rightarrow> i32 \<Rightarrow> command_t" where
  "decoded ud kvs kvs' c q n = (set_fields ud kvs' ((set_fields ud kvs c)\<lparr>c_args := q\<rparr>))\<lparr>c_refcount := 1, c_id := n\<rparr>"

text \<open>
  The value an element of the argument array becomes: a string must fit \<open>strbuf\<close>; an element of any
  type the switch does not name leaves a zero argument; a byte string has none (\<open>nvoid_new\<close>).
\<close>

fun item_val :: "item \<Rightarrow> argv option" where
  "item_val (IInt i) = Some (VInt (word_of_int i))"
| "item_val (IText x) = (if length x < LARGE_CMD_STR_LEN \<and> is_cstr x then Some (VStr x) else None)"
| "item_val (IDouble d) = Some (VDouble d)"
| "item_val (IBytes b) = None"
| "item_val _ = Some VNull"

text \<open>The command \<open>p\<close> and fresh objects it owns are all that changed from \<open>s\<close> to \<open>s'\<close>.\<close>

definition owned :: "world \<Rightarrow> world \<Rightarrow> addr \<Rightarrow> command_t \<Rightarrow> arg_t list \<Rightarrow> argv list \<Rightarrow> bool" where
  "owned s s' p c ds vs \<longleftrightarrow> grows {p} s s' \<and> wf_mem s' \<and> cmd_at s' p c ds vs
    \<and> set (cmd_ptrs p c ds) \<subseteq> {p} \<union> {brk s<..brk s'} \<and> new_objs s s' (set (cmd_ptrs p c ds))
    \<and> length ds = length vs"

lemma owned_update:
  assumes own: "owned s s' p c ds vs" and c: "c_args c' = c_args c"
  shows "owned s (s'\<lparr>heap := (heap s')(p := Some (OCmd c'))\<rparr>) p c' ds vs"
proof -
  have at: "cmd_at s' p c ds vs" and own': "grows {p} s s'" "wf_mem s'"
    "set (cmd_ptrs p c ds) \<subseteq> {p} \<union> {brk s<..brk s'}" "new_objs s s' (set (cmd_ptrs p c ds))"
    "length ds = length vs"
    using own unfolding owned_def by blast+
  from at have hp: "heap s' p = Some (OCmd c)" by (simp add: cmd_at_def)
  have "new_objs s (s'\<lparr>heap := (heap s')(p := Some (OCmd c'))\<rparr>) (set (cmd_ptrs p c ds))"
    using own'(4) by (auto simp: new_objs_def cmd_ptrs_def)
  then show ?thesis
    unfolding owned_def cmd_ptrs_cong [of c' c, OF c]
    using cmd_at_update [OF at c] wf_mem_store [OF own'(2) hp] own' grows_store [OF own'(1)] by simp
qed

lemma owned_before:
  "owned (s\<lparr>heap := (heap s)(p := ob)\<rparr>) s' p c ds vs \<Longrightarrow> owned s s' p c ds vs"
  unfolding owned_def new_objs_def by (auto simp: grows_def)

lemma created_owned:
  assumes own: "owned t (s'\<lparr>cmd_id := cmd_id s\<rparr>) p c ds vs" and id: "cmd_id s' = cmd_id s + 1"
    and t: "extends s t" "brk t = Suc (brk s)" and p: "p = Suc (brk s)"
  shows "created s s' p c ds vs"
proof -
  let ?s = "s'\<lparr>cmd_id := cmd_id s\<rparr>"
  have own': "grows {p} t ?s" "wf_mem s'" "cmd_at ?s p c ds vs"
    "set (cmd_ptrs p c ds) \<subseteq> {p} \<union> {brk t<..brk s'}" "new_objs t ?s (set (cmd_ptrs p c ds))"
    "length ds = length vs"
    using own unfolding owned_def by simp_all
  have "grows {p} s ?s" using grows_mono [OF t(1)] own'(1) by (rule grows_trans) simp
  then have "extends s ?s" by (rule grows_fresh) (simp add: p)
  moreover have "cmd_at s' p c ds vs" using own'(3) by (rule cmd_at_cong) simp
  moreover have "new_objs s ?s (set (cmd_ptrs p c ds))"
    using own'(5) t(2) by (rule new_objs_Suc) (simp add: cmd_ptrs_def p)
  moreover have "p \<le> brk s'" using own'(1) t(2) p by (simp add: grows_def)
  then have "set (cmd_ptrs p c ds) \<subseteq> {brk s<..brk s'}" using own'(4) t(2) p by auto
  ultimately show ?thesis
    using id own'(2,6) unfolding created_def new_objs_def by simp
qed

section \<open>A command as its receiver sees it\<close>

text \<open>
  What can be sent: no \<open>void\<close> (its place in the array stays empty) and no string longer than the
  receiver's buffer. What arrives: a \<open>long\<close> comes back as an \<open>int\<close>.
\<close>

fun sendable :: "argv \<Rightarrow> bool" where
  "sendable VVoid = False"
| "sendable (VStr x) = (is_cstr x \<and> length x < LARGE_CMD_STR_LEN)"
| "sendable _ = True"

fun received :: "argv \<Rightarrow> argv" where
  "received (VLong x) = VInt x"
| "received v = v"

definition cmd_fields :: "i32 \<Rightarrow> i32 \<Rightarrow> string \<Rightarrow> u64 \<Rightarrow> string \<Rightarrow> string \<Rightarrow> (string \<times> item) list" where
  "cmd_fields cmd subcmd fn tid node sig =
    [(''cmd'', IInt (sint cmd)), (''subcmd'', IInt (sint subcmd)), (''fn_name'', IText fn),
     (''taskid'', IInt (uint tid)), (''nodeid'', IText node), (''fn_argsig'', IText sig)]"

definition names_fit :: "string \<Rightarrow> string \<Rightarrow> string \<Rightarrow> bool" where
  "names_fit fn node sig \<longleftrightarrow> is_cstr fn \<and> is_cstr node \<and> is_cstr sig
     \<and> length fn < SMALL_CMD_STR_LEN \<and> length node < LARGE_CMD_STR_LEN \<and> length sig < SMALL_CMD_STR_LEN"

lemma cmd_item_message: "cmd_item cmd subcmd fn tid node sig vs =
    message (cmd_fields cmd subcmd fn tid node sig) (concat (map argv_items vs)) []"
  by (simp add: cmd_item_def message_def cmd_fields_def field_items_def)

lemma field_ok_cmd:
  "names_fit fn node sig \<Longrightarrow> list_all (\<lambda>(k, x). field_ok k x) (cmd_fields cmd subcmd fn tid node sig)"
  by (simp add: cmd_fields_def field_ok_def names_fit_def is_int_def text_fits_def)

lemma item_int_int_item [simp]: "item_int (int_item x) = x"
proof -
  have "(word_of_int (uint (scast (- x) :: u64)) :: i32) = - x"
    by (simp add: ucast_scast_32 flip: ucast_eq)
  then show ?thesis by (simp add: int_item_def item_int_def)
qed

lemma item_val_argv: "sendable v \<Longrightarrow> map item_val (argv_items v) = [Some (received v)]"
proof (cases v)
  case (VInt x)
  then show ?thesis using item_int_int_item [of x] by (simp add: int_item_def item_int_def)
next
  case (VLong x)
  then show ?thesis using item_int_int_item [of x] by (simp add: int_item_def item_int_def)
qed auto

lemma item_vals_argv:
  "list_all sendable vs \<Longrightarrow> map item_val (concat (map argv_items vs)) = map Some (map received vs)"
  by (induction vs) (auto simp: item_val_argv)

lemma wf_argv_items: "sendable v \<Longrightarrow> list_all wf_item (argv_items v)"
proof -
  have "- (2 ^ 64) \<le> - uint (scast (- x) :: u64) \<and> - uint (scast (- x) :: u64) < 2 ^ 64" for x :: i32
    using uint_u64_bounds [of "scast (- x)"] by linarith
  moreover have "- (2 ^ 64) \<le> sint x \<and> sint x < 2 ^ 64" for x :: i32
    using sint_i32_bounds [of x] by simp
  ultimately have "wf_item (int_item x)" for x
    by (simp add: int_item_def)
  then show "sendable v \<Longrightarrow> list_all wf_item (argv_items v)" by (cases v) auto
qed

lemma sendable_length: "list_all sendable vs \<Longrightarrow> length (concat (map argv_items vs)) = length vs"
  by (induction vs) (auto simp: argv_items_length)

lemma wf_cmd_item:
  assumes "names_fit fn node sig" "list_all sendable vs" "length vs < 2 ^ 28"
  shows "wf_item (cmd_item cmd subcmd fn tid node sig vs)"
proof -
  have "list_all wf_item (concat (map argv_items vs))"
    using assms(2) by (induction vs) (auto simp: wf_argv_items)
  moreover have "- (2 ^ 64) \<le> sint x \<and> sint x < 2 ^ 64" for x :: i32
    using sint_i32_bounds [of x] by simp
  moreover have "- (2 ^ 64) \<le> uint tid" "uint tid < 2 ^ 64"
    using uint_u64_bounds [of tid] by linarith+
  ultimately show ?thesis
    using assms(1,3) sendable_length [OF assms(2)]
    by (simp add: cmd_item_def names_fit_def)
qed

text \<open>What the receiver's command says.\<close>

definition says :: "command_t \<Rightarrow> i32 \<Rightarrow> i32 \<Rightarrow> string \<Rightarrow> u64 \<Rightarrow> string \<Rightarrow> string \<Rightarrow> bool" where
  "says c cmd subcmd fn tid node sig \<longleftrightarrow> c_cmd c = cmd \<and> c_subcmd c = subcmd \<and> c_str (c_fn_name c) = fn
     \<and> c_task_id c = tid \<and> c_str (c_node_id c) = node \<and> c_str (c_fn_argsig c) = sig"

lemma decoded_says:
  "names_fit fn node sig \<Longrightarrow>
    says (decoded ud (cmd_fields cmd subcmd fn tid node sig) [] c q n) cmd subcmd fn
      (scast (ucast tid :: i32)) node sig"
  by (simp add: says_def decoded_def set_fields_def cmd_fields_def set_field_def item_int_def
      opt_text_def names_fit_def)

lemma strncpy_says: "is_cstr x \<Longrightarrow> length x < n \<Longrightarrow> c_str (strncpy (replicate n NUL) x (n - 1)) = x"
  by (simp add: strncpy_def) (rule c_str_append_hd, auto simp: hd_append)

lemma new_cmd_says:
  "names_fit fn node sig \<Longrightarrow> says (new_cmd E cmd subcmd fn tid node sig vs q n) cmd subcmd fn tid node sig"
  using strncpy_says [of fn 32] strncpy_says [of node 128] strncpy_says [of sig 32]
  by (simp add: says_def new_cmd_def names_fit_def)

section \<open>The loops over a documented item\<close>

context cbor_codec
begin

lemma decode_key_text:
  "view v = IText k # r \<Longrightarrow> length k < 32 \<Longrightarrow> length (l_keybuf l) = 32 \<Longrightarrow>
    decode_key P v l = l\<lparr>l_keybuf := put_text (l_keybuf l) k, l_length := length k\<rparr>"
  by (simp add: decode_key_def view_type view_copy put_text_def)

lemma get_int_item: "view v = x # r \<Longrightarrow> is_int x \<Longrightarrow> get_int P v = item_int x"
  by (cases x) (simp_all add: is_int_def item_int_def view_int)

lemma copy_item:
  "view v = x # r \<Longrightarrow> item_type x = CborTextStringType \<Longrightarrow> text_fits (length b) x \<Longrightarrow> n = length b \<Longrightarrow>
    fst (copy_text_string P v b n) = opt_text b x"
  by (cases x) (simp_all add: text_fits_def opt_text_def put_text_def view_copy)

text \<open>Text is copied; a field whose text is optional is cleared by anything else.\<close>

lemma text_copied:
  assumes "view v = x # r" "item_type x = CborTextStringType" "text_fits (length b) x" "n = length b"
  obtains m where "copy_text_string P v b n = (opt_text b x, m)"
  using copy_item [OF assms] by (metis surjective_pairing)

lemma optional_text:
  assumes v: "view v = x # r" and fits: "item_type x = CborTextStringType \<Longrightarrow> text_fits (length b) x" and n: "n = length b"
  obtains m where "is_text_string P v" "copy_text_string P v b n = (opt_text b x, m)"
  | "\<not> is_text_string P v" "opt_text b x = b[0 := NUL]"
proof (cases "item_type x = CborTextStringType")
  case True
  from text_copied [OF v True fits [OF True] n] obtain m where "copy_text_string P v b n = (opt_text b x, m)" .
  moreover have "is_text_string P v" using True v by (simp add: view_text)
  ultimately show ?thesis using that(1) by blast
next
  case False
  then have "\<not> is_text_string P v" "opt_text b x = b[0 := NUL]"
    using v by (auto simp: view_text opt_text_def split: item.splits)
  then show ?thesis using that(2) by blast
qed

text \<open>The task id may be a double or an integer.\<close>

lemma decode_taskid:
  assumes v: "view v = x # r" and key: "l_keybuf l = put_text b ''taskid''" and ok: "field_ok ''taskid'' x"
    and c: "heap s p = Some (OCmd c)"
  shows "decode_value P fuel p v l s = Inr (l,
    s\<lparr>heap := (heap s)(p := Some (OCmd (set_field (u64_of_double P) ''taskid'' x c)))\<rparr>)"
proof -
  have cs: "str_is (l_keybuf l) y \<longleftrightarrow> ''taskid'' = y" if "is_cstr y" for y using that by (simp add: key is_cstr_def)
  consider d where "x = IDouble d" | i where "x = IInt i"
    using ok by (cases x) (auto simp: field_ok_def is_int_def)
  then show ?thesis
  proof cases
    case 1
    with v have "get_type P v = CborDoubleType" "get_double P v = d"
      by (simp_all add: view_type view_double)
    with 1 show ?thesis
      by (simp only: decode_value_def Let_def cs key_cstr) (simp add: prog_simps c set_field_def type_codes)
  next
    case 2
    with v have "get_type P v = CborIntegerType" "get_int P v = item_int x"
      by (simp_all add: view_type get_int_item is_int_def)
    with 2 show ?thesis
      by (simp only: decode_value_def Let_def cs key_cstr) (simp add: prog_simps c set_field_def type_codes)
  qed
qed

lemma decode_value_ok:
  assumes v: "view v = x # r" and key: "l_keybuf l = put_text b k" and ok: "field_ok k x"
    and c: "heap s p = Some (OCmd c)" "wf_cmd c"
  shows "\<exists>n. decode_value P fuel p v l s = Inr (l\<lparr>l_length := n\<rparr>,
    s\<lparr>heap := (heap s)(p := Some (OCmd (set_field (u64_of_double P) k x c)))\<rparr>)"
proof -
  have same: "s\<lparr>heap := (heap s)(p := Some (OCmd c))\<rparr> = s" using c(1) by (simp add: fun_upd_idem)
  have l: "l\<lparr>l_length := l_length l\<rparr> = l" by simp
  have k: "is_cstr k" "k \<noteq> ''args''" using ok by (simp_all add: field_ok_def)
  have cs: "str_is (l_keybuf l) y \<longleftrightarrow> k = y" if "is_cstr y" for y
    using k(1) that by (simp add: key)
  have plain: ?thesis if "decode_value P fuel p v l s = Inr (l,
      s\<lparr>heap := (heap s)(p := Some (OCmd (set_field (u64_of_double P) k x c)))\<rparr>)"
    using that l by metis
  note cond = decode_value_def Let_def cs key_cstr
  note run = prog_simps c(1) set_field_def
  consider "k = ''cmd''" | "k = ''subcmd''" | "k = ''taskid''" | "k = ''nodeid''" | "k = ''fn_name''"
    | "k = ''fn_argsig''" | "k \<notin> {''cmd'', ''subcmd'', ''taskid'', ''nodeid'', ''fn_name'', ''fn_argsig''}"
    by (simp only: insert_iff empty_iff) argo
  then show ?thesis
  proof cases
    case 1
    with ok have "get_int P v = item_int x" by (intro get_int_item [OF v]) (simp add: field_ok_def)
    with 1 show ?thesis by (intro plain) (simp only: cond, simp add: run)
  next
    case 2
    with ok have "get_int P v = item_int x" by (intro get_int_item [OF v]) (simp add: field_ok_def)
    with 2 show ?thesis by (intro plain) (simp only: cond, simp add: run)
  next
    case 3
    with key ok have "l_keybuf l = put_text b ''taskid''" "field_ok ''taskid'' x" by simp_all
    from decode_taskid [OF v this c(1)] show ?thesis using 3 by (intro plain) simp
  next
    case 4
    with ok c(2) have f: "item_type x = CborTextStringType \<Longrightarrow> text_fits (length (c_node_id c)) x" "128 = length (c_node_id c)"
      by (simp_all add: field_ok_def wf_cmd_def)
    show ?thesis
    proof (rule optional_text [OF v f])
      fix m assume "is_text_string P v" "copy_text_string P v (c_node_id c) 128 = (opt_text (c_node_id c) x, m)"
      with 4 show ?thesis by (intro exI [of _ m]) (simp only: cond, simp add: run)
    next
      assume "\<not> is_text_string P v" "opt_text (c_node_id c) x = (c_node_id c)[0 := NUL]"
      with 4 show ?thesis by (intro exI [of _ 128]) (simp only: cond, simp add: run)
    qed
  next
    case 5
    with ok c(2) have "item_type x = CborTextStringType" "text_fits (length (c_fn_name c)) x" "32 = length (c_fn_name c)"
      by (simp_all add: field_ok_def wf_cmd_def)
    from text_copied [OF v this] obtain m where "copy_text_string P v (c_fn_name c) 32 = (opt_text (c_fn_name c) x, m)" .
    with 5 show ?thesis by (intro exI [of _ m]) (simp only: cond, simp add: run)
  next
    case 6
    with ok c(2) have f: "item_type x = CborTextStringType \<Longrightarrow> text_fits (length (c_fn_argsig c)) x" "32 = length (c_fn_argsig c)"
      by (simp_all add: field_ok_def wf_cmd_def)
    show ?thesis
    proof (rule optional_text [OF v f])
      fix m assume "is_text_string P v" "copy_text_string P v (c_fn_argsig c) 32 = (opt_text (c_fn_argsig c) x, m)"
      with 6 show ?thesis by (intro exI [of _ m]) (simp only: cond, simp add: run)
    next
      assume "\<not> is_text_string P v" "opt_text (c_fn_argsig c) x = (c_fn_argsig c)[0 := NUL]"
      with 6 show ?thesis by (intro exI [of _ 32]) (simp only: cond, simp add: run)
    qed
  next
    case 7
    with k(2) same show ?thesis
      by (intro plain) (simp only: cond, simp add: run)
  qed
qed

lemma decode_fields:
  assumes "view mp = field_items kvs @ r" "list_all (\<lambda>(k, x). field_ok k x) kvs"
    "length (l_keybuf l) = 32" "heap s p = Some (OCmd c)" "wf_cmd c"
  shows "\<exists>mp' l'. decode_map P (length kvs + n) fuel p mp l s = decode_map P n fuel p mp' l'
      (s\<lparr>heap := (heap s)(p := Some (OCmd (set_fields (u64_of_double P) kvs c)))\<rparr>)
    \<and> view mp' = r \<and> locals_ok l l'"
  using assms
proof (induction kvs arbitrary: mp l s c)
  case Nil
  then show ?case
    by (intro exI [of _ mp] exI [of _ l])
      (simp add: set_fields_def field_items_def locals_ok_def fun_upd_idem)
next
  case (Cons kv kvs)
  obtain k x where kv: "kv = (k, x)" by fastforce
  let ?s = "s\<lparr>heap := (heap s)(p := Some (OCmd (set_field (u64_of_double P) k x c)))\<rparr>"
  let ?l = "l\<lparr>l_keybuf := put_text (l_keybuf l) k, l_length := length k\<rparr>"
  have v: "view mp = IText k # x # field_items kvs @ r" and ok: "field_ok k x"
    using Cons.prems(1,2) kv by (simp_all add: field_items_def)
  then have k: "length k < 32" by (simp add: field_ok_def)
  have v1: "view (advance P mp) = x # field_items kvs @ r" using v by (rule view_advance)
  then have v2: "view (advance P (advance P mp)) = field_items kvs @ r" by (rule view_advance)
  have "\<not> at_end P mp" using v by (simp add: view_end)
  from decode_value_ok [OF v1 _ ok Cons.prems(4,5), of ?l]
  obtain m where m: "decode_value P fuel p (advance P mp) ?l s = Inr (?l\<lparr>l_length := m\<rparr>, ?s)"
    by auto
  have step: "decode_map P (length (kv # kvs) + n) fuel p mp l s
      = decode_map P (length kvs + n) fuel p (advance P (advance P mp)) (?l\<lparr>l_length := m\<rparr>) ?s"
    using \<open>\<not> at_end P mp\<close> decode_key_text [OF v k Cons.prems(3)] m by (simp add: Let_def prog_simps)
  have "list_all (\<lambda>(k, x). field_ok k x) kvs" "length (l_keybuf (?l\<lparr>l_length := m\<rparr>)) = 32"
    "heap ?s p = Some (OCmd (set_field (u64_of_double P) k x c))"
    using k Cons.prems(2,3) by simp_all
  from Cons.IH [OF v2 this wf_cmd_set_field [OF Cons.prems(5) ok]]
  obtain mp' l' where
    "decode_map P (length kvs + n) fuel p (advance P (advance P mp)) (?l\<lparr>l_length := m\<rparr>) ?s
      = decode_map P n fuel p mp' l' (?s\<lparr>heap := (heap ?s)(p :=
          Some (OCmd (set_fields (u64_of_double P) kvs (set_field (u64_of_double P) k x c))))\<rparr>)"
    and post: "view mp' = r" "locals_ok (?l\<lparr>l_length := m\<rparr>) l'"
    by blast
  then have "decode_map P (length (kv # kvs) + n) fuel p mp l s = decode_map P n fuel p mp' l'
      (s\<lparr>heap := (heap s)(p := Some (OCmd (set_fields (u64_of_double P) (kv # kvs) c)))\<rparr>)"
    unfolding step by (simp add: kv set_fields_def)
  moreover have "locals_ok l l'" using post(2) k Cons.prems(3) by (simp add: locals_ok_def)
  ultimately show ?case using post(1) by blast
qed

text \<open>One element of the argument array.\<close>

lemma decode_arg_ok:
  assumes v: "view arr = x # r" "item_val x = Some w"
    and t: "heap t p = Some (OCmd c)" "heap t (c_args c) = Some (OArgs ds)" "wf_mem t" "no_oom t"
    and i: "l_i l < length ds" "ds ! l_i l = zero_arg" and l: "length (l_strbuf l) = 128"
  shows "\<exists>l' t' d. decode_arg P p n arr l t = Inr (l', t')
    \<and> clone_post t t' (c_args c) ds (l_i l) (zero_arg\<lparr>nargs := of_nat n\<rparr>) w d \<and> locals_ok l l'"
proof -
  let ?q = "c_args c" and ?i = "l_i l" and ?a = "zero_arg\<lparr>nargs := of_nat n\<rparr>"
  let ?put = "\<lambda>d. t\<lparr>heap := (heap t)(?q := Some (OArgs (ds[?i := d])))\<rparr>"
  have ty: "get_type P arr = item_type x" using v(1) by (rule view_type)
  note run = decode_arg_def set_arg_def prog_simps t i ty
  have plain: ?thesis if "decode_arg P p n arr l t = Inr (l, ?put d)" "nargs d = of_nat n"
    "arg_ptrs d = []" "arg_view t d = Some w" for d
    using clone_post_scalar [OF t(3,2), of d ?a w ?i] that by (force simp: locals_ok_def)
  have null: ?thesis if "item_type x \<in> {CborNullType, CborArrayType, CborMapType}" "w = VNull"
    using that by (intro plain [of ?a]) (auto simp: run zero_arg_def arg_ptrs_def arg_view_def)
  show ?thesis
  proof (cases x)
    case (IInt j)
    with v show ?thesis
      by (intro plain [of "?a\<lparr>arg_type := INT_TYPE, arg_val := IVal (word_of_int j)\<rparr>"])
        (simp_all add: run view_int arg_ptrs_def arg_view_def int_view_def)
  next
    case (IDouble d)
    with v show ?thesis
      by (intro plain [of "?a\<lparr>arg_type := DOUBLE_TYPE, arg_val := DVal d\<rparr>"])
        (simp_all add: run view_double arg_ptrs_def arg_view_def dbl_view_def)
  next
    case (IText y)
    with v have y: "length y < 128" "is_cstr y" "w = VStr y" by (simp_all split: if_splits)
    have copy: "copy_text_string P arr (l_strbuf l) 128 = (put_text (l_strbuf l) y, length y)"
      using v(1) y(1) l IText by (simp add: view_copy put_text_def)
    have nul: "NUL \<in> set (put_text (l_strbuf l) y)" by (simp add: put_text_def)
    let ?d = "?a\<lparr>arg_type := STRING_TYPE, arg_val := PVal (Suc (brk t))\<rparr>"
    have ne: "?q \<noteq> Suc (brk t)" using t(2,3) by (auto dest: wf_memD)
    have "decode_arg P p n arr l t = Inr (l\<lparr>l_strbuf := put_text (l_strbuf l) y, l_length := length y\<rparr>,
      t\<lparr>brk := Suc (brk t), heap := (heap t)(Suc (brk t) := Some (OChars (y @ [NUL])),
        ?q := Some (OArgs (ds[?i := ?d])))\<rparr>)"
      using IText copy y nul ne
      by (simp add: run strdup_str_def fun_upd_twist [of "Suc (brk t)" ?q])
    moreover have "locals_ok l (l\<lparr>l_strbuf := put_text (l_strbuf l) y, l_length := length y\<rparr>)"
      using y(1) l by (simp add: locals_ok_def)
    moreover note clone_post_string [OF t(3,2), of ?d ?a "y @ [NUL]" ?i]
    ultimately show ?thesis using y(2,3)
      by (intro exI conjI) (assumption, simp_all)
  next
    case INull
    then show ?thesis using v(2) by (intro null) simp_all
  next
    case (IArray ys)
    then show ?thesis using v(2) by (intro null) simp_all
  next
    case (IMap ys)
    then show ?thesis using v(2) by (intro null) simp_all
  next
    case (IBytes b)
    with v(2) show ?thesis by simp
  qed
qed

text \<open>The whole array: the loop ends, one iteration for each element.\<close>

lemma decode_args_ok:
  assumes s: "heap s p = Some (OCmd c)" "heap s (c_args c) = Some (OArgs ds0)" "wf_mem s" "no_oom s"
    and vals: "length vals = n"
  shows "clone_inv s (c_args c) n vals i t \<Longrightarrow> view arr = xs \<Longrightarrow> i + length xs = n \<Longrightarrow>
    map item_val xs = map Some (drop i vals) \<Longrightarrow> l_i l = i \<Longrightarrow> length (l_strbuf l) = 128 \<Longrightarrow>
    length xs < fuel \<Longrightarrow>
    \<exists>l' t'. decode_args P fuel p n arr l t = Inr (l', t') \<and> clone_inv s (c_args c) n vals n t'
      \<and> length (l_strbuf l') = 128 \<and> length (l_keybuf l') = length (l_keybuf l)"
proof (induction xs arbitrary: i t arr l fuel)
  case Nil
  then obtain k where "fuel = Suc k" by (cases fuel) auto
  with Nil show ?case by (simp add: view_end prog_simps)
next
  case (Cons x xs)
  let ?q = "c_args c"
  obtain k where k: "fuel = Suc k" "length xs < k" using Cons.prems(7) by (cases fuel) auto
  have i: "i < n" using Cons.prems(3) by simp
  then have split: "drop i vals = vals ! i # drop (Suc i) vals"
    using vals by (simp add: Cons_nth_drop_Suc)
  with Cons.prems(4) have x: "item_val x = Some (vals ! i)" "map item_val xs = map Some (drop (Suc i) vals)"
    by simp_all
  have step: "\<exists>l' t' d. decode_arg P p n arr l t = Inr (l', t')
      \<and> clone_post t t' ?q ds i (zero_arg\<lparr>nargs := of_nat n\<rparr>) (vals ! i) d \<and> locals_ok l l'"
    if "length ds = n" "heap t ?q = Some (OArgs ds)" "wf_mem t" "grows {?q} s t" "ds ! i = zero_arg" for ds
  proof -
    have "p \<noteq> ?q" using s by auto
    then have "heap t p = Some (OCmd c)" using grows_live [OF that(4) s(3,1)] by simp
    moreover have "no_oom t" using that(4) s(4) by (simp add: grows_no_oom)
    ultimately show ?thesis
      using decode_arg_ok [OF Cons.prems(2) x(1) _ that(2,3), of p l n] that(1,5) i Cons.prems(5,6)
      by simp
  qed
  obtain ds where ds: "length ds = n" "heap t ?q = Some (OArgs ds)" "wf_mem t" "grows {?q} s t"
    "drop i ds = replicate (n - i) zero_arg"
    using Cons.prems(1) unfolding clone_inv_def by blast
  have "ds ! i = drop i ds ! 0" using i ds(1) by simp
  with ds(5) i have "ds ! i = zero_arg" by simp
  from step [OF ds(1-4) this] obtain l' t' where
    run: "decode_arg P p n arr l t = Inr (l', t')" "locals_ok l l'"
    by blast
  have "\<exists>t'. decode_arg P p n arr l t = Inr (l', t') \<and> clone_inv s ?q n vals (Suc i) t' \<and> grows {?q} t t'"
  proof (rule clone_inv_extend [OF Cons.prems(1) i _ vals])
    show "?q \<le> brk s" using s by (auto dest: wf_memD)
    show "nargs (zero_arg\<lparr>nargs := of_nat n\<rparr>) = of_nat n" by simp
    fix ds assume "length ds = n" "heap t ?q = Some (OArgs ds)" "wf_mem t" "grows {?q} s t" "ds ! i = zero_arg"
    from step [OF this] run(1)
    show "\<exists>t' d. decode_arg P p n arr l t = Inr (l', t')
        \<and> clone_post t t' ?q ds i (zero_arg\<lparr>nargs := of_nat n\<rparr>) (vals ! i) d"
      by (metis Inr_inject prod.inject)
  qed
  with run(1) have inv: "clone_inv s ?q n vals (Suc i) t'" by auto
  let ?l = "l'\<lparr>l_i := Suc (l_i l')\<rparr>"
  have l: "l_i ?l = Suc i" "length (l_strbuf ?l) = 128" "length (l_keybuf ?l) = length (l_keybuf l)"
    using run(2) Cons.prems(5,6) by (simp_all add: locals_ok_def)
  have "Suc i + length xs = n" using Cons.prems(3) by simp
  from Cons.IH [OF inv view_advance [OF Cons.prems(2)] this x(2) l(1,2) k(2)] run(1) k(1) l(3) Cons.prems(2)
  show ?case by (simp add: view_end prog_simps)
qed

text \<open>The array, once its elements are decoded, belongs to the command.\<close>

lemma array_owned:
  assumes p: "p \<noteq> 0" "p \<le> brk s" and n: "n < 2 ^ 28"
    and q: "q = Suc (brk s)" "c_args c' = q" and s1: "s1 = s\<lparr>brk := q, total_mem_usage := total_mem_usage s + of_nat n * 16,
      heap := (heap s)(q := Some (OArgs (replicate n zero_arg)), p := Some (OCmd c'))\<rparr>" "wf_mem s1"
    and ds: "args_at t q ds vs" "length ds = n" "length vs = n" "distinct (args_ptrs ds)" "set (args_ptrs ds) \<subseteq> {brk s1<..brk t}"
      "new_objs s1 t (set (args_ptrs ds))" "grows {q} s1 t" "wf_mem t"
  shows "owned s t p c' ds vs"
proof -
  have pq: "p \<noteq> q" and b1: "brk s1 = q" and hp: "heap s1 p = Some (OCmd c')" using p q(1) by (simp_all add: s1(1))
  have "grows {p, q} s s1" by (simp add: s1(1) q(1) grows_def)
  moreover have "grows {p, q} s1 t" using ds(7) by (rule grows_mono) simp
  ultimately have "grows {p, q} s t" by (rule grows_trans)
  then have "grows {p} s t" unfolding grows_def q(1) by auto
  moreover have "heap t p = Some (OCmd c')"
    using grows_live [OF ds(7) s1(2) hp] pq by simp
  moreover have ptrs: "cmd_ptrs p c' ds = p # q # args_ptrs ds"
    by (simp add: cmd_ptrs_def q)
  have "new_objs s1 t (set (cmd_ptrs p c' ds))"
    using ds(6) by (rule new_objs_mono) (auto simp: ptrs)
  then have "new_objs s t (set (cmd_ptrs p c' ds))"
    by (rule new_objs_Suc) (simp_all add: s1(1) q(1) ptrs)
  moreover have "q \<le> brk t" using ds(7) b1 by (auto dest: grows_brk)
  then have "set (cmd_ptrs p c' ds) \<subseteq> {p} \<union> {brk s<..brk t}"
    using ds(5) b1 by (auto simp: ptrs q(1))
  moreover have "cmd_at t p c' ds vs"
    using ds(1,4,5) p b1 calculation(2) by (auto simp: cmd_at_def q)
  ultimately show ?thesis using ds(2,3,8) by (simp add: owned_def)
qed

lemma decode_array_ok:
  assumes v: "view mp = IArray xs # r" "map item_val xs = map Some vs" "length xs < 2 ^ 28"
    and s: "heap s p = Some (OCmd c)" "wf_mem s" "no_oom s"
    and l: "l_i l = 0" "length (l_strbuf l) = 128" and fuel: "length xs < fuel"
  shows "\<exists>l' s' q ds. decode_array P fuel p mp l s = Inr (l', s') \<and> owned s s' p (c\<lparr>c_args := q\<rparr>) ds vs
    \<and> total_mem_usage s' = total_mem_usage s + of_nat (length vs) * 16
    \<and> length (l_strbuf l') = 128 \<and> length (l_keybuf l') = length (l_keybuf l)"
proof -
  have len: "length vs = length xs" using v(2) by (metis length_map)
  have n: "get_array_length P mp = Some (length xs)" using v(1) by (rule view_length)
  have p: "p \<noteq> 0" "p \<le> brk s" using s(1,2) by (auto dest: wf_memD)
  show ?thesis
  proof (cases "xs = []")
    case True
    with n len p s l show ?thesis
      by (intro exI [of _ l] exI [of _ "s\<lparr>heap := (heap s)(p := Some (OCmd (c\<lparr>c_args := 0\<rparr>)))\<rparr>"]
          exI [of _ 0] exI [of _ "[]"])
        (auto simp: decode_array_def prog_simps owned_def cmd_at_def cmd_ptrs_def new_objs_def
          wf_mem_def intro!: grows_store)
  next
    case False
    let ?n = "length xs"
    define q where "q = Suc (brk s)"
    define c' where "c' = c\<lparr>c_args := q\<rparr>"
    define s1 where "s1 = s\<lparr>brk := q, total_mem_usage := total_mem_usage s + of_nat ?n * 16,
      heap := (heap s)(q := Some (OArgs (replicate ?n zero_arg)), p := Some (OCmd c'))\<rparr>"
    have pq: "p \<noteq> q" using p by (simp add: q_def)
    have s1: "heap s1 p = Some (OCmd c')" "heap s1 (c_args c') = Some (OArgs (replicate ?n zero_arg))"
      "wf_mem s1" "no_oom s1" "q = brk s1"
      using s pq p by (auto simp: s1_def c'_def q_def wf_mem_def)
    have q: "c_args c' = q" by (simp add: c'_def)
    have start: "clone_inv s1 (c_args c') ?n vs 0 s1"
      using s1(3) s1(5) [folded q] s1(2) by (rule clone_inv_start)
    have "map item_val xs = map Some (drop 0 vs)" using v(2) by simp
    from decode_args_ok [OF s1(1-4) len start view_enter_array [OF v(1)] _ this l fuel]
    obtain l' t where t: "decode_args P fuel p ?n (enter_container P mp) l s1 = Inr (l', t)"
      "clone_inv s1 q ?n vs ?n t" "length (l_strbuf l') = 128" "length (l_keybuf l') = length (l_keybuf l)"
      unfolding q by auto
    from clone_inv_done [OF t(2) len _ v(3)] False obtain ds where ds: "args_at t q ds vs"
      "length ds = ?n" "distinct (args_ptrs ds)" "set (args_ptrs ds) \<subseteq> {brk s1<..brk t}"
      "new_objs s1 t (set (args_ptrs ds))" "grows {q} s1 t" "wf_mem t"
      "total_mem_usage t = total_mem_usage s1"
      by blast
    have "decode_array P fuel p mp l s = Inr (l', t)"
      using t(1) n s False v(3) pq
      by (simp add: decode_array_def Let_def calloc_args_def prog_simps s1_def c'_def q_def)
    moreover have "owned s t p c' ds vs"
      by (rule array_owned [OF p v(3) q_def q s1_def s1(3) ds(1,2) len ds(3-7)])
    ultimately show ?thesis
      using t(3,4) ds(8) len unfolding c'_def
      by (intro exI [of _ l'] exI [of _ t] exI [of _ q] exI [of _ ds]) (auto simp: s1_def)
  qed
qed

text \<open>The whole map: fields, the arguments, fields.\<close>

lemma decode_map_ok:
  assumes v: "view mp = field_items kvs @ [IText ''args'', IArray xs] @ field_items kvs'"
    and ok: "list_all (\<lambda>(k, x). field_ok k x) kvs" "list_all (\<lambda>(k, x). field_ok k x) kvs'"
    and vals: "map item_val xs = map Some vs" "length xs < 2 ^ 28"
    and s: "heap s p = Some (OCmd c)" "wf_cmd c" "wf_mem s" "no_oom s" and l: "wf_locals l"
    and fuel: "length kvs + length kvs' + 1 < k" "length xs < fuel"
  shows "\<exists>s' q ds. decode_map P k fuel p mp l s = Inr ((), s')
    \<and> owned s s' p (set_fields (u64_of_double P) kvs' ((set_fields (u64_of_double P) kvs c)\<lparr>c_args := q\<rparr>)) ds vs
    \<and> total_mem_usage s' = total_mem_usage s + of_nat (length vs) * 16"
proof -
  let ?c = "set_fields (u64_of_double P) kvs c"
  let ?s = "s\<lparr>heap := (heap s)(p := Some (OCmd ?c))\<rparr>"
  define n where "n = k - (length kvs + length kvs' + 2)"
  have k: "k = length kvs + Suc (length kvs' + Suc n)" using fuel(1) by (simp add: n_def)
  have l0: "length (l_keybuf l) = 32" "l_i l = 0" "length (l_strbuf l) = 128"
    using l by (simp_all add: wf_locals_def)
  from decode_fields [OF v ok(1) l0(1) s(1,2)] obtain m1 l1 where f1:
    "decode_map P k fuel p mp l s = decode_map P (Suc (length kvs' + Suc n)) fuel p m1 l1 ?s"
    "view m1 = IText ''args'' # IArray xs # field_items kvs'" "locals_ok l l1"
    unfolding k by fastforce
  let ?l = "l1\<lparr>l_keybuf := put_text (l_keybuf l1) ''args'', l_length := 4\<rparr>"
  have l1: "length (l_keybuf l1) = 32" "l_i l1 = 0" "length (l_strbuf l1) = 128"
    using f1(3) l0 by (simp_all add: locals_ok_def)
  have m2: "view (advance P m1) = IArray xs # field_items kvs'" using f1(2) by (rule view_advance)
  have c: "wf_cmd ?c" using s(2) ok(1) by (rule wf_cmd_set_fields)
  have "heap ?s p = Some (OCmd ?c)" "wf_mem ?s" "no_oom ?s" "l_i ?l = 0" "length (l_strbuf ?l) = 128"
    using s(1,3,4) l1 wf_mem_store [OF s(3,1)] by simp_all
  from decode_array_ok [OF m2 vals this fuel(2)] obtain l2 s2 q ds where arr:
    "decode_array P fuel p (advance P m1) ?l ?s = Inr (l2, s2)"
    "owned ?s s2 p (?c\<lparr>c_args := q\<rparr>) ds vs"
    "total_mem_usage s2 = total_mem_usage ?s + of_nat (length vs) * 16"
    "length (l_strbuf l2) = 128" "length (l_keybuf l2) = length (l_keybuf ?l)"
    by blast
  have key: "str_is (put_text b ''args'') x \<longleftrightarrow> ''args'' = x" if "is_cstr x" for b x
    using that by simp
  have "decode_value P fuel p (advance P m1) ?l ?s = Inr (l2, s2)"
    using arr(1) by (simp add: decode_value_def Let_def key)
  moreover have "\<not> at_end P m1" using f1(2) by (simp add: view_end)
  moreover have "decode_key P m1 l1 = ?l" using decode_key_text [OF f1(2)] l1(1) by simp
  ultimately have f2: "decode_map P k fuel p mp l s
      = decode_map P (length kvs' + Suc n) fuel p (advance P (advance P m1)) l2 s2"
    using f1(1) by (simp add: Let_def prog_simps)
  have m3: "view (advance P (advance P m1)) = field_items kvs' @ []"
    using view_advance [OF m2] by simp
  have p2: "heap s2 p = Some (OCmd (?c\<lparr>c_args := q\<rparr>))" using arr(2) by (simp add: owned_def cmd_at_def)
  have l2: "length (l_keybuf l2) = 32" using arr(5) l1 by simp
  have c2: "wf_cmd (?c\<lparr>c_args := q\<rparr>)" using c by (simp add: wf_cmd_def)
  let ?c3 = "set_fields (u64_of_double P) kvs' (?c\<lparr>c_args := q\<rparr>)"
  let ?s3 = "s2\<lparr>heap := (heap s2)(p := Some (OCmd ?c3))\<rparr>"
  from decode_fields [OF m3 ok(2) l2 p2 c2, of "Suc n" fuel] obtain m4 l4 where f3:
    "decode_map P (length kvs' + Suc n) fuel p (advance P (advance P m1)) l2 s2
      = decode_map P (Suc n) fuel p m4 l4 ?s3" "view m4 = []"
    by blast
  have "decode_map P k fuel p mp l s = Inr ((), ?s3)"
    using f2 f3 by (simp add: view_end prog_simps)
  moreover have "owned s ?s3 p ?c3 ds vs"
    by (rule owned_update [OF owned_before [OF arr(2)]]) simp
  moreover have "total_mem_usage ?s3 = total_mem_usage s + of_nat (length vs) * 16"
    using arr(3) by simp
  ultimately show ?thesis by blast
qed

lemma decode_buffer_ok:
  assumes t: "t = message kvs xs kvs'" "wf_item t" "length (bytes t) \<le> 1024"
    and c: "wf_cmd c" "take (length (bytes t)) (c_buffer c) = bytes t"
    and ok: "list_all (\<lambda>(k, x). field_ok k x) kvs" "list_all (\<lambda>(k, x). field_ok k x) kvs'"
    and vals: "map item_val xs = map Some vs" "length xs < 2 ^ 28"
    and s: "heap s p = Some (OCmd c)" "wf_mem s" "no_oom s" and l: "wf_locals l"
    and fuel: "length kvs + length kvs' + 1 < fuel" "length xs < fuel"
  shows "\<exists>s' q ds. decode_buffer P fuel p (of_nat (length (bytes t))) l s = Inr ((), s')
    \<and> owned s (s'\<lparr>cmd_id := cmd_id s\<rparr>) p
        (decoded (u64_of_double P) kvs kvs' (c\<lparr>c_length := of_nat (length (bytes t))\<rparr>) q (cmd_id s)) ds vs
    \<and> cmd_id s' = cmd_id s + 1
    \<and> total_mem_usage s' = total_mem_usage s + of_nat (length vs) * 16"
proof -
  let ?n = "of_nat (length (bytes t)) :: i32"
  let ?c = "c\<lparr>c_length := ?n\<rparr>"
  let ?s = "s\<lparr>heap := (heap s)(p := Some (OCmd ?c))\<rparr>"
  let ?mp = "enter_container P (parser_init P (bytes t))"
  have n: "unat ?n = length (bytes t)" using t(3) by simp
  have mp: "view ?mp = field_items kvs @ [IText ''args'', IArray xs] @ field_items kvs'"
    using view_init [OF t(2)] unfolding t(1) message_def by (rule view_enter_map)
  have "heap ?s p = Some (OCmd ?c)" "wf_cmd ?c" "wf_mem ?s" "no_oom ?s"
    using c(1) s wf_mem_store [OF s(2,1)] by (simp_all add: wf_cmd_def)
  from decode_map_ok [OF mp ok vals this l fuel] obtain s2 q ds where d:
    "decode_map P fuel fuel p ?mp l ?s = Inr ((), s2)"
    "owned ?s s2 p (set_fields (u64_of_double P) kvs' ((set_fields (u64_of_double P) kvs ?c)\<lparr>c_args := q\<rparr>)) ds vs"
    "total_mem_usage s2 = total_mem_usage ?s + of_nat (length vs) * 16"
    by blast
  let ?d = "decoded (u64_of_double P) kvs kvs' ?c q (cmd_id s)"
  let ?s3 = "s2\<lparr>cmd_id := cmd_id s + 1, heap := (heap s2)(p := Some (OCmd ?d))\<rparr>"
  have id: "cmd_id s2 = cmd_id s" using d(2) by (simp add: owned_def grows_def)
  have p2: "heap s2 p = Some (OCmd (set_fields (u64_of_double P) kvs' ((set_fields (u64_of_double P) kvs ?c)\<lparr>c_args := q\<rparr>)))"
    using d(2) by (simp add: owned_def cmd_at_def)
  have "decode_buffer P fuel p ?n l s = Inr ((), ?s3)"
    using s(1) c(1,2) n t(3) d(1) p2 id
    by (simp add: decode_buffer_def prog_simps wf_cmd_def decoded_def)
  moreover have "?s3\<lparr>cmd_id := cmd_id s\<rparr> = s2\<lparr>heap := (heap s2)(p := Some (OCmd ?d))\<rparr>"
    by (rule world.equality) (simp_all add: id)
  then have "owned s (?s3\<lparr>cmd_id := cmd_id s\<rparr>) p ?d ds vs"
    using owned_update [OF owned_before [OF d(2)], of ?d] by (simp add: decoded_def)
  ultimately show ?thesis using d(3) by (intro exI conjI) (assumption | simp)+
qed

lemma command_from_data_ok:
  assumes t: "t = message kvs xs kvs'" "wf_item t" "length (bytes t) \<le> 1024"
    and data: "take (length (bytes t)) data = bytes t"
    and ok: "list_all (\<lambda>(k, x). field_ok k x) kvs" "list_all (\<lambda>(k, x). field_ok k x) kvs'"
    and vals: "map item_val xs = map Some vs" "length xs < 2 ^ 28"
    and s: "wf_mem s" "no_oom s" and l: "wf_locals l"
    and fuel: "length kvs + length kvs' + 1 < fuel" "length xs < fuel"
  shows "\<exists>p s' q ds c. command_from_data P fuel l data (of_nat (length (bytes t))) s = Inr (p, s')
    \<and> created s s' p (decoded (u64_of_double P) kvs kvs' c q (cmd_id s)) ds vs
    \<and> c = zero_command\<lparr>c_buffer := bytes t @ drop (length (bytes t)) (c_buffer zero_command),
         c_length := of_nat (length (bytes t))\<rparr>
    \<and> total_mem_usage s' = total_mem_usage s + 1248 + of_nat (length vs) * 16"
proof -
  let ?n = "length (bytes t)"
  define p where "p = Suc (brk s)"
  define c where "c = zero_command\<lparr>c_buffer := bytes t @ drop ?n (c_buffer zero_command)\<rparr>"
  define s1 where "s1 = s\<lparr>brk := p, total_mem_usage := total_mem_usage s + 1248,
    heap := (heap s)(p := Some (OCmd c))\<rparr>"
  have n: "unat (of_nat ?n :: i32) = ?n" using t(3) by simp
  have len: "?n \<le> length data" using data by (metis length_take min.cobounded1)
  have c: "wf_cmd c" "take ?n (c_buffer c) = bytes t"
    using t(3) by (simp_all add: c_def zero_command_def wf_cmd_def)
  have s1: "heap s1 p = Some (OCmd c)" "wf_mem s1" "no_oom s1"
    using s by (auto simp: s1_def p_def wf_mem_def)
  from decode_buffer_ok [OF t c ok vals s1 l fuel] obtain s' q ds where d:
    "decode_buffer P fuel p (of_nat ?n) l s1 = Inr ((), s')"
    "owned s1 (s'\<lparr>cmd_id := cmd_id s1\<rparr>) p
       (decoded (u64_of_double P) kvs kvs' (c\<lparr>c_length := of_nat ?n\<rparr>) q (cmd_id s1)) ds vs"
    "cmd_id s' = cmd_id s1 + 1" "total_mem_usage s' = total_mem_usage s1 + of_nat (length vs) * 16"
    by blast
  have id: "cmd_id s1 = cmd_id s" by (simp add: s1_def)
  have "command_from_data P fuel l data (of_nat ?n) s = Inr (p, s')"
    using d(1) s n len data t(3)
    by (simp add: command_from_data_def prog_simps c_def s1_def p_def zero_command_def)
  moreover have "created s s' p
      (decoded (u64_of_double P) kvs kvs' (c\<lparr>c_length := of_nat ?n\<rparr>) q (cmd_id s)) ds vs"
    using d(2,3) unfolding id
    by (rule created_owned) (simp_all add: s1_def p_def grows_def)
  moreover have "total_mem_usage s' = total_mem_usage s + 1248 + of_nat (length vs) * 16"
    using d(4) by (simp add: s1_def)
  ultimately show ?thesis by (fastforce simp: c_def)
qed

text \<open>The bytes of a command, decoded by a receiver.\<close>

lemma round_trip:
  assumes names: "names_fit fn node sig" and vs: "list_all sendable vs" "length vs < 2 ^ 28"
    and fits: "length (bytes (cmd_item cmd subcmd fn tid node sig vs)) \<le> 1024"
    and s: "wf_mem s" "no_oom s" and l: "wf_locals l" and fuel: "7 < fuel" "length vs < fuel"
    and c: "c = new_cmd E cmd subcmd fn tid node sig vs q n"
  shows "\<exists>p s' c' ds. command_from_data P fuel l (c_buffer c) (c_length c) s = Inr (p, s')
    \<and> created s s' p c' ds (map received vs) \<and> says c' cmd subcmd fn (scast (ucast tid :: i32)) node sig"
proof -
  let ?t = "cmd_item cmd subcmd fn tid node sig vs"
  have "VVoid \<notin> set vs" using vs(1) by (auto simp: list_all_iff)
  then have "run_calls (cmd_calls cmd subcmd fn tid node sig vs) = Some ?t"
    by (simp add: run_calls_cmd)
  from enc_fits [OF this wf_cmd_item [OF names vs] fits]
  have enc: "c_length c = of_nat (length (bytes ?t))" "take (length (bytes ?t)) (c_buffer c) = bytes ?t"
    by (simp_all add: c new_cmd_def)
  have "length (cmd_fields cmd subcmd fn tid node sig) + length ([] :: (string \<times> item) list) + 1 < fuel"
    using fuel(1) by (simp add: cmd_fields_def)
  with command_from_data_ok [OF cmd_item_message wf_cmd_item [OF names vs] fits enc(2) field_ok_cmd [OF names] _
      item_vals_argv [OF vs(1)] _ s l] vs fuel(2) sendable_length [OF vs(1)] decoded_says [OF names]
  show ?thesis unfolding enc(1) by fastforce
qed

text \<open>The cursor goes through the items of a map, whatever they are; so the loops end on every well-formed map.\<close>

lemma view_cursor:
  assumes "wf_item (IMap items)"
  shows "i \<le> length items \<Longrightarrow> view (cursor P (bytes (IMap items)) i) = drop i items"
proof (induction i)
  case 0
  then show ?case using view_enter_map [OF view_init [OF assms]] by (simp add: cursor_def)
next
  case (Suc i)
  then have "view (cursor P (bytes (IMap items)) i) = items ! i # drop (Suc i) items" by (simp add: Cons_nth_drop_Suc)
  then show ?case using view_advance by (simp add: cursor_def)
qed

lemma map_ends:
  assumes wf: "wf_item (IMap items)" "wf_mem s" and data: "take (unat len) data = bytes (IMap items)"
  shows "\<exists>N. \<forall>fuel \<ge> N. command_from_data P fuel l data len s \<noteq> Inl NoFuel"
proof -
  let ?v = "cursor P (bytes (IMap items))" and ?n = "length items div 2"
  let ?N = "Suc (?n + (\<Sum>i < ?n. announced P (?v (2 * i + 1))))"
  have even: "2 * ?n = length items" using wf(1) by simp
  have ends: "at_end P (?v (2 * ?n))" using view_cursor [OF wf(1), of "2 * ?n"] unfolding even by (simp add: view_end)
  have room: "announced P (?v (2 * i + 1)) < fuel" if "?N \<le> fuel" "i < ?n" for i fuel
    using member_le_sum [of i "{..< ?n}" "\<lambda>i. announced P (?v (2 * i + 1))"] that by simp
  have "decode_map P fuel fuel cmd (?v 0) l s1 \<noteq> Inl NoFuel" if "?N \<le> fuel" "wf_mem s1" for fuel cmd s1
  proof (rule decode_map_ends [OF that(2), where n = ?n])
    show "at_end P ((advance P ^^ (2 * ?n)) (?v 0))" using ends by (simp add: cursor_def)
    show "?n < fuel" using that(1) by simp
    show "\<forall>i < ?n. announced P ((advance P ^^ (2 * i + 1)) (?v 0)) < fuel"
      using room [OF that(1)] by (simp add: cursor_def)
  qed
  note loop = this
  have "command_from_data P fuel l data len s \<noteq> Inl NoFuel" if N: "?N \<le> fuel" for fuel
    using command_from_data_loop [OF wf(2), of P l data len]
  proof (elim disjE exE conjE)
    fix cmd s1
    assume "wf_mem s1" and run: "\<forall>fuel. case decode_map P fuel fuel cmd (cursor P (take (unat len) data) 0) l s1 of
        Inl f \<Rightarrow> command_from_data P fuel l data len s = Inl f
      | Inr r \<Rightarrow> command_from_data P fuel l data len s \<noteq> Inl NoFuel"
    from run [rule_format, of fuel] loop [OF N \<open>wf_mem s1\<close>] show ?thesis
      unfolding data by (cases "decode_map P fuel fuel cmd (?v 0) l s1") auto
  qed simp
  then show ?thesis by blast
qed

text \<open>
  Each element of an array takes the next index, which is not reset: after one array that is not empty, a second
  one, however long, is written past its end.
\<close>

lemma decode_args_index:
  "view arr = xs \<Longrightarrow> room_for cmd n s \<Longrightarrow> decode_args P fuel cmd k arr l s = Inr (l', s') \<Longrightarrow>
    l_i l' = l_i l + length xs \<and> (xs \<noteq> [] \<longrightarrow> l_i l' \<le> n)"
proof (induction xs arbitrary: fuel arr l s)
  case Nil
  then show ?case by (cases fuel) (simp_all add: view_end prog_simps)
next
  case (Cons x xs)
  then obtain f l1 s1 where arg: "decode_arg P cmd k arr l s = Inr (l1, s1)"
    and rest: "decode_args P f cmd k (advance P arr) (l1\<lparr>l_i := Suc (l_i l1)\<rparr>) s1 = Inr (l', s')"
    by (cases fuel) (auto simp: view_end bnd_Inr_iff raise_app)
  note d = decode_arg_returns [OF Cons.prems(2) arg]
  from Cons.IH [OF view_advance [OF Cons.prems(1)] d(3) rest] d(1,2) show ?case by (cases xs) auto
qed

lemma second_array:
  assumes v: "view v = IArray xs # r" "xs \<noteq> []" and key: "str_is (l_keybuf l) ''args''" and wf: "wf_mem s"
    and run: "decode_value P fuel cmd v l s = Inr (l', s')"
  shows "l_i l = 0" "0 < l_i l'"
proof -
  have n: "get_array_length P v = Some (length xs)" using v(1) by (rule view_length)
  note room = calloc_args_room [OF wf, of "length xs"]
  from run obtain q s1 s2 where "calloc_args (of_nat (length xs)) s = Inr (q, s1)"
    "update_cmd cmd (\<lambda>c. c\<lparr>c_args := q\<rparr>) s1 = Inr ((), s2)"
    and args: "decode_args P fuel cmd (length xs) (enter_container P v) l s2 = Inr (l', s')"
    using v(2) n unfolding decode_value_args [OF key] by (auto simp: decode_array_def bnd_Inr_iff andthen_Inr_iff Let_def)
  with decode_args_index [OF view_enter_array [OF v(1)] room args] v(2)
  have "l_i l' = l_i l + length xs" "l_i l' \<le> length xs" by auto
  with v(2) show "l_i l = 0" "0 < l_i l'" by auto
qed

lemma map_step:
  assumes v: "view mp = IText k # x # r" "length k < 32" and l: "length (l_keybuf l) = 32" and wf: "wf_mem s"
    and run: "decode_map P f fuel cmd mp l s = Inr y"
  obtains l1 s1 f' where "decode_value P fuel cmd (advance P mp) (decode_key P mp l) s = Inr (l1, s1)"
    "decode_map P f' fuel cmd (advance P (advance P mp)) l1 s1 = Inr y" "length (l_keybuf l1) = 32" "wf_mem s1"
    "l_i l \<le> l_i l1"
proof -
  have key: "decode_key P mp l = l\<lparr>l_keybuf := put_text (l_keybuf l) k, l_length := length k\<rparr>"
    using decode_key_text [OF v l] .
  from run v obtain l1 s1 f' where val: "decode_value P fuel cmd (advance P mp) (decode_key P mp l) s = Inr (l1, s1)"
    and rest: "decode_map P f' fuel cmd (advance P (advance P mp)) l1 s1 = Inr y"
    by (cases f) (auto simp: view_end Let_def bnd_Inr_iff raise_app)
  from decode_value_locals [OF val] v(2) l have "length (l_keybuf l1) = 32" "l_i l \<le> l_i l1" by (simp_all add: key)
  with val rest preservesD [OF decode_value_wf wf val] that show ?thesis by blast
qed

lemma map_steps:
  "view mp = field_items kvs @ r \<Longrightarrow> list_all (\<lambda>(k, x). length k < 32) kvs \<Longrightarrow> length (l_keybuf l) = 32 \<Longrightarrow> wf_mem s \<Longrightarrow>
    decode_map P f fuel cmd mp l s = Inr y \<Longrightarrow>
    \<exists>f' mp' l' s'. decode_map P f' fuel cmd mp' l' s' = Inr y \<and> view mp' = r \<and> length (l_keybuf l') = 32 \<and> wf_mem s' \<and> l_i l \<le> l_i l'"
proof (induction kvs arbitrary: mp l s f)
  case (Cons kv kvs)
  obtain k x where kv: "kv = (k, x)" by fastforce
  with Cons.prems(1,2) have v: "view mp = IText k # x # (field_items kvs @ r)" "length k < 32" by (simp_all add: field_items_def)
  from map_step [OF v Cons.prems(3,4,5)] obtain l1 s1 f' where
    "decode_map P f' fuel cmd (advance P (advance P mp)) l1 s1 = Inr y" "length (l_keybuf l1) = 32" "wf_mem s1" "l_i l \<le> l_i l1" .
  with Cons.IH [OF view_advance [OF view_advance [OF v(1)]], of l1 s1 f'] Cons.prems(2) show ?case by (fastforce intro: order_trans)
qed (auto simp: field_items_def)

lemma args_twice:
  assumes v: "view mp = field_items kvs @ IText ''args'' # IArray xs # field_items kvs' @ IText ''args'' # IArray ys # r"
    and keys: "list_all (\<lambda>(k, x). length k < 32) (kvs @ kvs')" and ne: "xs \<noteq> []" "ys \<noteq> []"
    and l: "length (l_keybuf l) = 32" and wf: "wf_mem s"
  shows "decode_map P f fuel cmd mp l s \<noteq> Inr y"
proof
  assume run: "decode_map P f fuel cmd mp l s = Inr y"
  have args: "str_is (l_keybuf (decode_key P m l0)) ''args''"
    if "view m = IText ''args'' # z" "length (l_keybuf l0) = 32" for m l0 z
    using decode_key_text [OF that(1) _ that(2)] by simp
  from map_steps [OF v _ l wf run] keys obtain f1 m1 l1 s1 where
    1: "decode_map P f1 fuel cmd m1 l1 s1 = Inr y" "length (l_keybuf l1) = 32" "wf_mem s1"
    and v1: "view m1 = IText ''args'' # IArray xs # (field_items kvs' @ IText ''args'' # IArray ys # r)" by auto
  have short: "length ''args'' < 32" by simp
  from map_step [OF v1 short 1(2,3,1)] obtain l2 s2 f2 where
    first: "decode_value P fuel cmd (advance P m1) (decode_key P m1 l1) s1 = Inr (l2, s2)"
    and 2: "decode_map P f2 fuel cmd (advance P (advance P m1)) l2 s2 = Inr y" "length (l_keybuf l2) = 32" "wf_mem s2" .
  have i2: "0 < l_i l2" by (rule second_array(2) [OF view_advance [OF v1] ne(1) args [OF v1 1(2)] 1(3) first])
  from map_steps [OF view_advance [OF view_advance [OF v1]] _ 2(2,3,1)] keys obtain f3 m3 l3 s3 where
    3: "decode_map P f3 fuel cmd m3 l3 s3 = Inr y" "length (l_keybuf l3) = 32" "wf_mem s3" "l_i l2 \<le> l_i l3"
    and v3: "view m3 = IText ''args'' # IArray ys # r" by auto
  from map_step [OF v3 short 3(2,3,1)] obtain l4 s4 where
    second: "decode_value P fuel cmd (advance P m3) (decode_key P m3 l3) s3 = Inr (l4, s4)" .
  have "l_i (decode_key P m3 l3) = 0" by (rule second_array(1) [OF view_advance [OF v3] ne(2) args [OF v3 3(2)] 3(3) second])
  then have "l_i l3 = 0" using decode_key_text [OF v3 _ 3(2)] by simp
  with i2 3(4) show False by simp
qed

end

end
