(* ===== verification/Cnode.thy ===== *)
theory Cnode
  imports Interleave Zenoh Decode
begin

text \<open>
  The controller node's messages (\<open>src/cnode.c\<close>): the subscriber's handler turns a message into a
  command and queues it; the processing task takes commands from the queue, starts tasks or collects
  their results, and publishes the replies. The decoder's parameters (\<open>P\<close>, fuel, the uninitialised
  locals), the encoder \<open>E\<close> and the environment \<open>e\<close> are passed down.
\<close>

section \<open>Messages received\<close>

abbreviation CNODE_REPLY_PUB_KEYEXPR :: string where "CNODE_REPLY_PUB_KEYEXPR \<equiv> ''app/replies/up''"
abbreviation CNODE_REQUEST_PUB_KEYEXPR :: string where "CNODE_REQUEST_PUB_KEYEXPR \<equiv> ''app/requests/up''"
abbreviation CNODE_SUB_KEYEXPR :: string where "CNODE_SUB_KEYEXPR \<equiv> ''app/**''"

text \<open>
  \<open>strncmp(key, pre, strlen(pre)) == 0\<close> on the memory \<open>key\<close> points to: it reads until the characters
  differ.
\<close>

fun strncmp_prefix :: "char list \<Rightarrow> string \<Rightarrow> bool c_prog" where
  "strncmp_prefix key [] = ret True"
| "strncmp_prefix [] (y # ys) = raise OutOfBounds"
| "strncmp_prefix (x # xs) (y # ys) = (if x = y then strncmp_prefix xs ys else ret False)"

definition is_own_message :: "char list \<Rightarrow> bool c_prog" where
  "is_own_message key_data =
     bnd (strncmp_prefix key_data CNODE_REPLY_PUB_KEYEXPR) (\<lambda>b.
     if b then ret True
     else bnd (strncmp_prefix key_data CNODE_REQUEST_PUB_KEYEXPR) (\<lambda>b.
     if b then ret True else ret False))"

text \<open>\<open>None\<close> is a \<open>NULL\<close> buffer.\<close>

definition cnode_process_received_cmd :: "'v cbor_parser \<Rightarrow> nat \<Rightarrow> locals \<Rightarrow> addr \<Rightarrow> u8 list option \<Rightarrow> u32 \<Rightarrow> addr c_prog" where
  "cnode_process_received_cmd P fuel l cn buf buflen =
     (case buf of
        None \<Rightarrow> ret 0
      | Some data \<Rightarrow>
          if cn = 0 \<or> buflen = 0 then ret 0
          else command_from_data P fuel l data buflen)"

definition cnode_data_handler :: "env \<Rightarrow> 'v cbor_parser \<Rightarrow> nat \<Rightarrow> locals \<Rightarrow> addr \<Rightarrow> char list \<Rightarrow> u8 list \<Rightarrow> unit c_prog" where
  "cnode_data_handler e P fuel l cnode key payload =
     bnd (is_own_message key) (\<lambda>own.
     if own then ret ()
     else
       bnd (cnode_process_received_cmd P fuel l cnode (Some payload) (of_nat (length payload))) (\<lambda>cmd.
       andthen (update_cnode cnode (\<lambda>c. c\<lparr>cn_message_received := True\<rparr>))
       (if cmd = 0 then ret ()
        else
          bnd (load as_cnode cnode) (\<lambda>_.
          bnd (ask (e_room e)) (\<lambda>room.
          if room then call (Q_send cmd)
          else andthen (call (Q_full cmd)) (command_free cmd))))))"

section \<open>Messages sent\<close>

definition cnode_send_cmd :: "env \<Rightarrow> addr \<Rightarrow> addr \<Rightarrow> bool c_prog" where
  "cnode_send_cmd e cn cmd =
     (if cn = 0 \<or> cmd = 0 then ret False
      else bnd (load as_cnode cn) (\<lambda>n. bnd (load as_cmd cmd) (\<lambda>c.
        zenoh_publish_encoded e (cn_zenoh n) (cn_zenoh_pub_request n) (c_buffer c) (c_length c))))"

text \<open>Publishing a command just built, and dropping it.\<close>

definition publish_reply :: "env \<Rightarrow> addr \<Rightarrow> addr \<Rightarrow> bool c_prog" where
  "publish_reply e cn retcmd =
     (if retcmd = 0 then ret False
      else bnd (load as_cnode cn) (\<lambda>n. bnd (load as_cmd retcmd) (\<lambda>r.
        bnd (zenoh_publish_encoded e (cn_zenoh n) (cn_zenoh_pub_reply n) (c_buffer r) (c_length r)) (\<lambda>sent.
        andthen (command_free retcmd) (ret sent)))))"

definition cnode_send_response :: "env \<Rightarrow> cbor_encoder \<Rightarrow> addr \<Rightarrow> addr \<Rightarrow> addr \<Rightarrow> bool c_prog" where
  "cnode_send_response e E cn cmd retarg =
     (if cn = 0 \<or> cmd = 0 \<or> retarg = 0 then ret False
      else bnd (load as_cnode cn) (\<lambda>n.
        if cn_zenoh n = 0 \<or> cn_zenoh_pub_request n = 0 then ret False
        else bnd (load as_cmd cmd) (\<lambda>c.
          bnd (read_str (c_fn_name c)) (\<lambda>fn. bnd (read_str (c_node_id c)) (\<lambda>node.
          bnd (read_str (c_fn_argsig c)) (\<lambda>sig.
          bnd (command_new_using_arg E (cmd_code CMD_REXEC_RES) (c_subcmd c) (Some fn) (c_task_id c)
                 (Some node) (Some sig) retarg) (publish_reply e cn)))))))"

text \<open>\<open>cnode_send_error\<close> and \<open>cnode_send_ack\<close>: the same reply under two codes.\<close>

definition send_status :: "env \<Rightarrow> cbor_encoder \<Rightarrow> jamcommand_t \<Rightarrow> addr \<Rightarrow> addr \<Rightarrow> bool c_prog" where
  "send_status e E code cn cmd =
     (if cn = 0 \<or> cmd = 0 then ret False
      else bnd (load as_cnode cn) (\<lambda>n.
        if cn_zenoh n = 0 \<or> cn_zenoh_pub_reply n = 0 then ret False
        else bnd (load as_cmd cmd) (\<lambda>c.
          bnd (read_str (c_fn_name c)) (\<lambda>fn. bnd (read_str (c_node_id c)) (\<lambda>node.
          bnd (command_new E (cmd_code code) (c_subcmd c) (Some fn) (c_task_id c)
                 (Some node) (Some []) []) (publish_reply e cn))))))"

definition cnode_send_error :: "env \<Rightarrow> cbor_encoder \<Rightarrow> addr \<Rightarrow> addr \<Rightarrow> bool c_prog" where
  "cnode_send_error e E cn cmd = send_status e E CMD_REXEC_ERR cn cmd"

definition cnode_send_ack :: "env \<Rightarrow> cbor_encoder \<Rightarrow> addr \<Rightarrow> addr \<Rightarrow> bool c_prog" where
  "cnode_send_ack e E cn cmd = send_status e E CMD_REXEC_ACK cn cmd"

section \<open>Processing a command\<close>

text \<open>
  The loop that waits for a task: \<open>others\<close> is what the other FreeRTOS tasks do during one \<open>sleep(1)\<close>.
\<close>

primrec wait_finished :: "unit c_prog \<Rightarrow> nat \<Rightarrow> addr \<Rightarrow> unit c_prog" where
  "wait_finished others 0 inst = raise NoFuel"
| "wait_finished others (Suc k) inst = bnd (load as_inst inst) (\<lambda>i.
     if has_finished i then ret () else andthen others (wait_finished others k inst))"

definition cnode_return_task :: "unit c_prog \<Rightarrow> nat \<Rightarrow> addr \<Rightarrow> addr \<Rightarrow> addr c_prog" where
  "cnode_return_task others k cn cmd =
     (if cn = 0 \<or> cmd = 0 then ret 0
      else bnd (load as_cnode cn) (\<lambda>n. bnd (load as_cmd cmd) (\<lambda>c.
        bnd (read_str (c_fn_name c)) (\<lambda>fn.
        bnd (tboard_find_task_name (cn_tboard n) fn) (\<lambda>task.
        if task = 0 then ret 0
        else bnd (task_get_instance_index task (ucast (c_task_id c))) (\<lambda>r. case r of
            None \<Rightarrow> ret 0
          | Some i \<Rightarrow> bnd (load as_task task) (\<lambda>t. bnd (idx (instances t) i) (\<lambda>inst.
              andthen (wait_finished others k inst)
              (bnd (task_instance_get_return_args inst) (\<lambda>retarg.
              andthen (task_instance_destroy inst) (ret retarg)))))))))))"

definition process_rexec :: "env \<Rightarrow> cbor_encoder \<Rightarrow> addr \<Rightarrow> addr \<Rightarrow> unit c_prog" where
  "process_rexec e E cn cmd =
     bnd (load as_cnode cn) (\<lambda>n. bnd (load as_cmd cmd) (\<lambda>c.
     bnd (read_str (c_fn_name c)) (\<lambda>fn.
     bnd (tboard_start_task (cn_tboard n) fn (ucast (c_task_id c)) (c_args c)) (\<lambda>inst.
     if inst = 0 then
       andthen (command_free cmd) (bnd (cnode_send_error e E cn cmd) (\<lambda>_. ret ()))
     else
       bnd (cnode_send_ack e E cn cmd) (\<lambda>_. command_free cmd)))))"

definition process_get_result :: "env \<Rightarrow> cbor_encoder \<Rightarrow> unit c_prog \<Rightarrow> nat \<Rightarrow> addr \<Rightarrow> addr \<Rightarrow> unit c_prog" where
  "process_get_result e E others k cn cmd =
     bnd (cnode_return_task others k cn cmd) (\<lambda>retarg.
     if retarg = 0 then
       andthen (command_free cmd) (bnd (cnode_send_error e E cn cmd) (\<lambda>_. ret ()))
     else
       bnd (cnode_send_response e E cn cmd retarg) (\<lambda>_.
       andthen (command_args_free retarg) (command_free cmd)))"

text \<open>One round of the processing task, and the task itself, round after round.\<close>

definition cnode_process_cmd :: "env \<Rightarrow> cbor_encoder \<Rightarrow> unit c_prog \<Rightarrow> nat \<Rightarrow> addr \<Rightarrow> addr \<Rightarrow> unit c_prog" where
  "cnode_process_cmd e E others k cn cmd =
     bnd (load as_cmd cmd) (\<lambda>c.
     if c_cmd c = cmd_code CMD_REXEC then process_rexec e E cn cmd
     else if c_cmd c = cmd_code CMD_GET_REXEC_RES then process_get_result e E others k cn cmd
     else bnd (cnode_send_error e E cn cmd) (\<lambda>_. ret ()))"

definition cnode_round :: "env \<Rightarrow> cbor_encoder \<Rightarrow> unit c_prog \<Rightarrow> nat \<Rightarrow> addr \<Rightarrow> unit c_prog" where
  "cnode_round e E others k cn =
     bnd (load as_cnode cn) (\<lambda>_.
     bnd (ask (e_next e)) (\<lambda>r. case r of
       None \<Rightarrow> call Q_empty
     | Some cmd \<Rightarrow> andthen (call (Q_recv cmd)) (cnode_process_cmd e E others k cn cmd)))"

primrec cnode_cmd_processing_task :: "env \<Rightarrow> cbor_encoder \<Rightarrow> unit c_prog \<Rightarrow> nat \<Rightarrow> nat \<Rightarrow> addr \<Rightarrow> unit c_prog" where
  "cnode_cmd_processing_task e E others k 0 cn = ret ()"
| "cnode_cmd_processing_task e E others k (Suc rounds) cn =
     andthen (cnode_round e E others k cn) (cnode_cmd_processing_task e E others k rounds cn)"

section \<open>Own messages\<close>

definition starts :: "string \<Rightarrow> string \<Rightarrow> bool" where
  "starts pre x \<longleftrightarrow> take (length pre) x = pre"

lemma strncmp_prefix_ok:
  "NUL \<in> set key \<Longrightarrow> is_cstr pre \<Longrightarrow> strncmp_prefix key pre s = Inr (starts pre (c_str key), s)"
  unfolding starts_def
proof (induction key pre rule: strncmp_prefix.induct)
  case (3 x xs y ys)
  then have y: "y \<noteq> NUL" "is_cstr ys" by (auto simp: is_cstr_def)
  show ?case
  proof (cases "x = y")
    case True
    with 3 y have "NUL \<in> set xs" by auto
    with 3(1) True y show ?thesis by (simp add: c_str_def)
  next
    case False
    then show ?thesis by (auto simp: prog_simps c_str_def take_Cons')
  qed
qed (simp_all add: prog_simps)

lemma is_own_message_ok:
  assumes "NUL \<in> set key"
  shows "is_own_message key s = Inr (starts CNODE_REPLY_PUB_KEYEXPR (c_str key)
    \<or> starts CNODE_REQUEST_PUB_KEYEXPR (c_str key), s)"
  using strncmp_prefix_ok [OF assms, of CNODE_REPLY_PUB_KEYEXPR]
    strncmp_prefix_ok [OF assms, of CNODE_REQUEST_PUB_KEYEXPR]
  by (simp add: is_own_message_def prog_simps is_cstr_def)

section \<open>Replies\<close>

text \<open>A node that can send: a session and two publishers.\<close>

definition node_up :: "world \<Rightarrow> addr \<Rightarrow> cnode_t \<Rightarrow> string \<Rightarrow> bool" where
  "node_up s cn n key \<longleftrightarrow> cn \<noteq> 0 \<and> heap s cn = Some (OCnode n) \<and> cn_zenoh n \<noteq> 0
     \<and> cn_zenoh_pub_request n \<noteq> 0 \<and> cn_zenoh_pub_reply n \<noteq> 0
     \<and> (\<exists>p. heap s (cn_zenoh_pub_reply n) = Some (OPub p) \<and> pub_keyexpr p = key)"

text \<open>What sending a message leaves: the heap as it was, and the message with the library.\<close>

definition sent :: "world \<Rightarrow> world \<Rightarrow> string \<Rightarrow> u8 list \<Rightarrow> bool" where
  "sent s s' key b \<longleftrightarrow> heap s' = heap s \<and> wf_mem s' \<and> brk s \<le> brk s' \<and> oom s' = oom s
     \<and> trace s' = trace s @ [Z_put key b] \<and> global_tboard s' = global_tboard s
     \<and> cmd_id s' = cmd_id s + 1 \<and> other_statics s' = other_statics s"

lemma created_released:
  assumes new: "created s s' p c ds vs" "wf_mem s"
  shows "heap (released (set (cmd_ptrs p c ds)) n s') = heap s"
proof (rule ext)
  fix r
  let ?A = "set (cmd_ptrs p c ds)"
  have grow: "extends s (s'\<lparr>cmd_id := cmd_id s\<rparr>)" and A: "?A \<subseteq> {brk s<..brk s'}" "new_objs s s' ?A"
    using new(1) unfolding created_def by blast+
  show "heap (released ?A n s') r = heap s r"
  proof (cases "r \<le> brk s")
    case True
    with A(1) grows_heap [OF grow True] show ?thesis by auto
  next
    case False
    then have "heap s r = None" "heap s' r \<noteq> None \<Longrightarrow> r \<in> ?A"
      using A(2) new(2) by (simp_all add: new_objs_def wf_mem_def)
    then show ?thesis by (cases "heap s' r") auto
  qed
qed

lemma created_live: "created s s' p c ds vs \<Longrightarrow> wf_mem s \<Longrightarrow> heap s r = Some ob \<Longrightarrow> heap s' r = Some ob"
  using extends_live [of s "s'\<lparr>cmd_id := cmd_id s\<rparr>" r ob] unfolding created_def by simp

lemma publish_reply_ok:
  assumes mem: "wf_mem s" and n: "node_up s cn n key" and new: "created s s' p c ds vs"
    and rc: "c_refcount c = 1" and len: "unat (c_length c) \<le> length (c_buffer c)"
  shows "\<exists>s''. publish_reply e cn p s' =
      Inr (e_ok e (trace s @ [Z_put key (take (unat (c_length c)) (c_buffer c))]), s'')
    \<and> sent s s'' key (take (unat (c_length c)) (c_buffer c))"
proof -
  let ?m = "take (unat (c_length c)) (c_buffer c)"
  let ?t = "s'\<lparr>trace := trace s @ [Z_put key ?m]\<rparr>"
  from n obtain pb where up: "heap s cn = Some (OCnode n)" "cn_zenoh n \<noteq> 0" "cn_zenoh_pub_reply n \<noteq> 0"
    "heap s (cn_zenoh_pub_reply n) = Some (OPub pb)" "pub_keyexpr pb = key"
    by (auto simp: node_up_def)
  have at: "cmd_at s' p c ds vs" and grow: "extends s (s'\<lparr>cmd_id := cmd_id s\<rparr>)" and wf: "wf_mem s'"
    and id: "cmd_id s' = cmd_id s + 1" and lens: "length ds = length vs"
    using new unfolding created_def by blast+
  have p: "p \<noteq> 0" "heap s' p = Some (OCmd c)" using at by (auto simp: cmd_at_def)
  have tr: "trace s' = trace s" using grow by (simp add: grows_def)
  have at': "cmd_at ?t p c ds vs" using at by (rule cmd_at_cong) simp
  let ?u = "released (set (cmd_ptrs p c ds)) (1248 + of_nat (length ds) * 16 + of_nat (str_bytes vs)) ?t"
  have "command_free p ?t = Inr ((), ?u)"
    using at' by (rule command_free_last) (simp add: rc word_sless_alt)
  moreover have "zenoh_publish_encoded e (cn_zenoh n) (cn_zenoh_pub_reply n) (c_buffer c) (c_length c) s'
      = Inr (e_ok e (trace s @ [Z_put key ?m]), ?t)"
    using zenoh_publish_encoded_ok [OF created_live [OF new mem up(4)] up(2,3) len, of e] up(5) tr
    by (simp add: Let_def)
  ultimately have "publish_reply e cn p s' = Inr (e_ok e (trace s @ [Z_put key ?m]), ?u)"
    using p created_live [OF new mem up(1)] by (simp add: publish_reply_def prog_simps)
  moreover have "heap ?u = heap s"
  proof -
    have "heap ?u = heap (released (set (cmd_ptrs p c ds)) 0 s')" by (rule ext) simp
    with created_released [OF new mem] show ?thesis by simp
  qed
  moreover have "wf_mem ?u" using wf by (simp add: wf_mem_def)
  ultimately show ?thesis
    using grow id by (simp add: sent_def grows_def)
qed

text \<open>The command's names are terminated in their arrays.\<close>

definition terminated :: "command_t \<Rightarrow> bool" where
  "terminated c \<longleftrightarrow> NUL \<in> set (c_fn_name c) \<and> NUL \<in> set (c_node_id c) \<and> NUL \<in> set (c_fn_argsig c)"

lemma send_status_ok:
  assumes mem: "wf_mem s" "no_oom s" and n: "node_up s cn n key"
    and c: "heap s cmd = Some (OCmd c)" "terminated c" and size: "unat (enc_size E HUGE_CMD_STR_LEN calls) \<le> length (enc_buffer E HUGE_CMD_STR_LEN calls)"
    and calls: "calls = cmd_calls (cmd_code code) (c_subcmd c) (c_str (c_fn_name c)) (c_task_id c)
      (c_str (c_node_id c)) [] []"
  shows "\<exists>s'. send_status e E code cn cmd s =
      Inr (e_ok e (trace s @ [Z_put key (take (unat (enc_size E HUGE_CMD_STR_LEN calls)) (enc_buffer E HUGE_CMD_STR_LEN calls))]), s')
    \<and> sent s s' key (take (unat (enc_size E HUGE_CMD_STR_LEN calls)) (enc_buffer E HUGE_CMD_STR_LEN calls))"
proof -
  have cmd: "cmd \<noteq> 0" using mem(1) c(1) by (auto dest: wf_memD)
  from command_new_ok [OF mem, of "[]" "[]" "[]" E "cmd_code code" "c_subcmd c" "c_str (c_fn_name c)" "c_task_id c" "c_str (c_node_id c)"]
  obtain p s1 q ds where new: "command_new E (cmd_code code) (c_subcmd c) (Some (c_str (c_fn_name c))) (c_task_id c)
      (Some (c_str (c_node_id c))) (Some []) [] s = Inr (p, s1)"
    "created s s1 p (new_cmd E (cmd_code code) (c_subcmd c) (c_str (c_fn_name c)) (c_task_id c)
      (c_str (c_node_id c)) [] [] q (cmd_id s)) ds []"
    by auto
  from publish_reply_ok [OF mem(1) n new(2), of e] size obtain s2 where
    "publish_reply e cn p s1 = Inr (e_ok e (trace s @ [Z_put key (take (unat (enc_size E HUGE_CMD_STR_LEN calls)) (enc_buffer E HUGE_CMD_STR_LEN calls))]), s2)"
    "sent s s2 key (take (unat (enc_size E HUGE_CMD_STR_LEN calls)) (enc_buffer E HUGE_CMD_STR_LEN calls))"
    by (auto simp: new_cmd_def calls)
  with new(1) c cmd n show ?thesis
    by (simp add: send_status_def prog_simps node_up_def terminated_def)
qed

text \<open>With a library that keeps its promises, the bytes are those of the reply's data item.\<close>

lemma reply_bytes:
  assumes cb: "cbor_codec E P bytes view" and names: "names_fit fn node sig" and vs: "list_all sendable vs" "length vs < 2 ^ 28"
    and fits: "length (bytes (cmd_item cmd sub fn tid node sig vs)) \<le> 1024"
  shows "unat (enc_size E 1024 (cmd_calls cmd sub fn tid node sig vs)) = length (bytes (cmd_item cmd sub fn tid node sig vs))"
    and "length (enc_buffer E 1024 (cmd_calls cmd sub fn tid node sig vs)) = 1024"
    and "take (length (bytes (cmd_item cmd sub fn tid node sig vs))) (enc_buffer E 1024 (cmd_calls cmd sub fn tid node sig vs))
      = bytes (cmd_item cmd sub fn tid node sig vs)"
proof -
  have "VVoid \<notin> set vs" using vs(1) by (auto simp: list_all_iff)
  then have "run_calls (cmd_calls cmd sub fn tid node sig vs) = Some (cmd_item cmd sub fn tid node sig vs)"
    by (simp add: run_calls_cmd)
  from cbor_codec.enc_fits [OF cb this wf_cmd_item [OF names vs] fits] fits
  show "unat (enc_size E 1024 (cmd_calls cmd sub fn tid node sig vs)) = length (bytes (cmd_item cmd sub fn tid node sig vs))"
    "length (enc_buffer E 1024 (cmd_calls cmd sub fn tid node sig vs)) = 1024"
    "take (length (bytes (cmd_item cmd sub fn tid node sig vs))) (enc_buffer E 1024 (cmd_calls cmd sub fn tid node sig vs))
      = bytes (cmd_item cmd sub fn tid node sig vs)"
    by simp_all
qed

text \<open>The reply to a command under a code, as a data item.\<close>

definition status_item :: "jamcommand_t \<Rightarrow> command_t \<Rightarrow> item" where
  "status_item code c = cmd_item (cmd_code code) (c_subcmd c) (c_str (c_fn_name c)) (c_task_id c)
     (c_str (c_node_id c)) [] []"

text \<open>The names of a command fit their arrays, and the replies to it the buffer.\<close>

definition answerable :: "(item \<Rightarrow> u8 list) \<Rightarrow> command_t \<Rightarrow> bool" where
  "answerable bytes c \<longleftrightarrow> terminated c
     \<and> names_fit (c_str (c_fn_name c)) (c_str (c_node_id c)) (c_str (c_fn_argsig c))
     \<and> (\<forall>code \<in> {CMD_REXEC_ACK, CMD_REXEC_ERR}. length (bytes (status_item code c)) \<le> 1024)"

lemma send_status_bytes:
  assumes cb: "cbor_codec E P bytes view" and mem: "wf_mem s" "no_oom s" and n: "node_up s cn n key"
    and c: "heap s cmd = Some (OCmd c)" "answerable bytes c" and code: "code \<in> {CMD_REXEC_ACK, CMD_REXEC_ERR}"
  shows "\<exists>s'. send_status e E code cn cmd s = Inr (e_ok e (trace s @ [Z_put key (bytes (status_item code c))]), s')
    \<and> sent s s' key (bytes (status_item code c))"
proof -
  have t: "terminated c" "names_fit (c_str (c_fn_name c)) (c_str (c_node_id c)) []"
    and fits: "length (bytes (status_item code c)) \<le> 1024"
    using c(2) code unfolding answerable_def by (auto simp: names_fit_def is_cstr_def)
  note b = reply_bytes [OF cb t(2) _ _ fits [unfolded status_item_def], simplified]
  have "unat (enc_size E 1024 (cmd_calls (cmd_code code) (c_subcmd c) (c_str (c_fn_name c)) (c_task_id c) (c_str (c_node_id c)) [] []))
      \<le> length (enc_buffer E 1024 (cmd_calls (cmd_code code) (c_subcmd c) (c_str (c_fn_name c)) (c_task_id c) (c_str (c_node_id c)) [] []))"
    using b fits by (simp add: status_item_def)
  from send_status_ok [OF mem n c(1) t(1) this refl, of e] show ?thesis
    by (simp add: b status_item_def)
qed

section \<open>A task is started\<close>

text \<open>What \<open>heap s\<close> has is still there in \<open>s'\<close>, but for the objects in \<open>A\<close>.\<close>

lemma cmd_at_owned_live:
  assumes "cmd_at s p c ds vs" "r \<in> set (cmd_ptrs p c ds)"
  shows "\<exists>ob. heap s r = Some ob \<and> (\<forall>t. ob \<noteq> OTask t) \<and> (\<forall>n. ob \<noteq> OCnode n) \<and> (\<forall>n. ob \<noteq> OInst n)
    \<and> (\<forall>n. ob \<noteq> OTboard n) \<and> (\<forall>n. ob \<noteq> OPub n)"
proof (cases "c_args c = 0")
  case True
  with assms show ?thesis by (auto simp: cmd_at_def cmd_ptrs_def)
next
  case False
  with assms(1) have at: "args_at s (c_args c) ds vs" "heap s p = Some (OCmd c)" by (auto simp: cmd_at_def)
  with assms(2) False args_at_heap [OF at(1)] args_at_ptrs_live [OF at(1)] show ?thesis
    by (auto simp: cmd_ptrs_def)
qed

lemma process_rexec_ok:
  assumes cb: "cbor_codec E P bytes view" and n: "node_up s cn n key"
    and cmd: "cmd_at s cmd c ds vs" "c_refcount c = 1" "answerable bytes c" "c_args c \<noteq> 0"
    and tb: "tboard_ok s (cn_tboard n) tb" "task_map s tb (c_str (c_fn_name c)) = Some p"
    and t: "task_ok s p t" "length (live_slots t) < 5" "slot_of s t (ucast (c_task_id c)) = None"
    and fit: "args_fit (t_fn_argsig t) ds" and mem: "no_oom s"
  shows "\<exists>s' j. process_rexec e E cn cmd s = Inr ((), s')
    \<and> heap s' = (\<lambda>r. if r \<in> set (cmd_ptrs cmd c ds) then None
        else heap (started s p t (ucast (c_task_id c)) j ds) r)
    \<and> stop_slot s t (ucast (c_task_id c)) = Some j
    \<and> trace s' = trace s @ [Rtos_task (Suc (brk s)), Z_put key (bytes (status_item CMD_REXEC_ACK c))]
    \<and> wf_mem s' \<and> no_oom s' \<and> global_tboard s' = global_tboard s"
proof -
  let ?n = "ucast (c_task_id c) :: u32"
  from stop_slot_exists [OF t(1,2)] obtain j where j: "stop_slot s t ?n = Some j" by blast
  let ?s1 = "started s p t ?n j ds"
  have at: "args_at s (c_args c) ds vs" using cmd(1,4) by (simp add: cmd_at_def)
  have len: "length ds = unat (nargs (ds ! 0))" "ds \<noteq> []"
    using args_at_bounds [OF at] args_at_nth(2) [OF at, of 0] by auto
  have start: "tboard_start_task (cn_tboard n) (c_str (c_fn_name c)) ?n (c_args c) s = Inr (Suc (brk s), ?s1)"
    using start_exact [OF tb t(1) mem t(2,3) j args_at_heap [OF at] len fit] .
  note st = started_heap [OF t(1), where n = ?n and j = j and as = ds]
  have keep: "heap ?s1 r = Some ob" if "heap s r = Some ob" "\<forall>t. ob \<noteq> OTask t" for r ob
  proof -
    have "r \<noteq> p" using that task_okD(2) [OF t(1)] by auto
    with st(3) [OF that(1)] show ?thesis by blast
  qed
  have n1: "node_up ?s1 cn n key" using n keep unfolding node_up_def by fastforce
  have c0: "heap s cmd = Some (OCmd c)" "cmd \<noteq> 0" using cmd(1) by (auto simp: cmd_at_def)
  then have c1: "heap ?s1 cmd = Some (OCmd c)" using keep by simp
  from send_status_bytes [OF cb st(4) st(5) [OF mem] n1 c1 cmd(3), of CMD_REXEC_ACK e] obtain s2 where
    ack: "send_status e E CMD_REXEC_ACK cn cmd ?s1 = Inr (e_ok e (trace ?s1 @ [Z_put key (bytes (status_item CMD_REXEC_ACK c))]), s2)"
    "sent ?s1 s2 key (bytes (status_item CMD_REXEC_ACK c))" by auto
  have "cmd_at s2 cmd c ds vs"
  proof (rule cmd_at_cong [OF cmd(1)])
    fix r assume "r \<in> set (cmd_ptrs cmd c ds)"
    with cmd_at_owned_live [OF cmd(1)] obtain ob where "heap s r = Some ob" "\<forall>t. ob \<noteq> OTask t" by blast
    with keep ack(2) show "heap s2 r = heap s r" by (simp add: sent_def)
  qed
  from command_free_last [OF this] cmd(2) obtain u where
    free: "command_free cmd s2 = Inr ((), released (set (cmd_ptrs cmd c ds)) u s2)"
    by (auto simp: word_sless_alt)
  have "heap s cn = Some (OCnode n)" using n by (simp add: node_up_def)
  moreover have "NUL \<in> set (c_fn_name c)" using cmd(3) by (simp add: answerable_def terminated_def)
  ultimately have "process_rexec e E cn cmd s = Inr ((), released (set (cmd_ptrs cmd c ds)) u s2)"
    using start ack(1) free c0 by (simp add: process_rexec_def cnode_send_ack_def prog_simps)
  moreover have "heap (released (set (cmd_ptrs cmd c ds)) u s2)
      = (\<lambda>r. if r \<in> set (cmd_ptrs cmd c ds) then None else heap ?s1 r)"
    using ack(2) by (simp add: sent_def released_def fun_eq_iff)
  moreover have "trace (released (set (cmd_ptrs cmd c ds)) u s2)
      = trace s @ [Rtos_task (Suc (brk s)), Z_put key (bytes (status_item CMD_REXEC_ACK c))]"
    using ack(2) st(6) by (simp add: sent_def)
  moreover have "wf_mem (released (set (cmd_ptrs cmd c ds)) u s2)" "no_oom (released (set (cmd_ptrs cmd c ds)) u s2)"
    "global_tboard (released (set (cmd_ptrs cmd c ds)) u s2) = global_tboard s"
    using ack(2) st(5) [OF mem] st(7) by (simp_all add: sent_def no_oom_def)
  ultimately show ?thesis using j by blast
qed

text \<open>C21. When a started task has a string among its arguments, the acknowledged instance holds a pointer to
  the command's own string, which was released with the command.\<close>

lemma process_rexec_dangling:
  assumes "cbor_codec E P bytes view" "node_up s cn n key"
    and cmd: "cmd_at s cmd c ds vs" "c_refcount c = 1" "answerable bytes c" "c_args c \<noteq> 0"
    and "tboard_ok s (cn_tboard n) tb" "task_map s tb (c_str (c_fn_name c)) = Some p"
    and t: "task_ok s p t" "length (live_slots t) < 5" "slot_of s t (ucast (c_task_id c)) = None"
    and "args_fit (t_fn_argsig t) ds" "no_oom s"
    and str: "i < length ds" "arg_type (ds ! i) = STRING_TYPE" "arg_val (ds ! i) = PVal r"
  shows "\<exists>s' q ii. process_rexec e E cn cmd s = Inr ((), s') \<and> heap s' q = Some (OInst ii)
    \<and> heap s' (i_args ii) = Some (OArgs ds) \<and> heap s' r = None"
proof -
  let ?n = "ucast (c_task_id c) :: u32"
  from process_rexec_ok [OF assms(1-13)] obtain s' j where
    run: "process_rexec e E cn cmd s = Inr ((), s')" and
    h: "heap s' = (\<lambda>r. if r \<in> set (cmd_ptrs cmd c ds) then None else heap (started s p t ?n j ds) r)"
    by blast
  note st = started_heap [OF t(1), where n = ?n and j = j and as = ds]
  have old: "x \<le> brk s" if "x \<in> set (cmd_ptrs cmd c ds)" for x
    using cmd_at_owned_live [OF cmd(1) that] wf_memD [OF task_okD(1) [OF t(1)]] by blast
  have "r \<in> set (args_ptrs ds)"
    unfolding args_ptrs_def using str by (auto simp: arg_ptrs_def intro!: bexI [of _ "ds ! i"])
  then have "heap s' r = None" using cmd(4) by (simp add: h cmd_ptrs_def)
  moreover have "heap s' (Suc (brk s)) = heap (started s p t ?n j ds) (Suc (brk s))"
    "heap s' (Suc (Suc (Suc (brk s)))) = heap (started s p t ?n j ds) (Suc (Suc (Suc (brk s))))"
    using old [of "Suc (brk s)"] old [of "Suc (Suc (Suc (brk s)))"] by (auto simp: h)
  moreover have "i_args (launched s p ?n) = Suc (Suc (Suc (brk s)))" by (simp add: launched_def)
  ultimately show ?thesis using run st(1,2)
    by (intro exI [of _ s'] exI [of _ "Suc (brk s)"] exI [of _ "launched s p ?n"]) simp
qed

section \<open>The error paths\<close>

text \<open>The reply is made from the command that was just released.\<close>

lemma error_after_free:
  assumes n: "node_up s cn n key" and cmd: "cmd_at s cmd c ds vs" "c_refcount c = 1" "wf_mem s"
  shows "andthen (command_free cmd) (bnd (cnode_send_error e E cn cmd) (\<lambda>_. ret ())) s = Inl UseAfterFree"
proof -
  from command_free_last [OF cmd(1)] cmd(2) obtain u where
    free: "command_free cmd s = Inr ((), released (set (cmd_ptrs cmd c ds)) u s)"
    by (auto simp: word_sless_alt)
  have c: "heap s cmd = Some (OCmd c)" "cmd \<noteq> 0" using cmd(1) by (auto simp: cmd_at_def)
  have up: "cn \<noteq> 0" "heap s cn = Some (OCnode n)" "cn_zenoh n \<noteq> 0" "cn_zenoh_pub_reply n \<noteq> 0"
    using n by (auto simp: node_up_def)
  have "cn \<notin> set (cmd_ptrs cmd c ds)" using cmd_at_owned_live [OF cmd(1), of cn] up(2) by auto
  moreover have "cmd \<in> set (cmd_ptrs cmd c ds)" by (simp add: cmd_ptrs_def)
  ultimately show ?thesis
    using free c up wf_memD [OF cmd(3) c(1)]
    by (simp add: cnode_send_error_def send_status_def prog_simps bad_ptr_def)
qed

text \<open>C20. A \<open>REXEC\<close> command for a name that is not on the board ends in a use of freed memory:
  the command is released before the error reply is built from it.\<close>

lemma rexec_unknown_faults:
  assumes n: "node_up s cn n key" and cmd: "cmd_at s cmd c ds vs" "c_refcount c = 1" "terminated c"
    and tb: "tboard_ok s (cn_tboard n) tb" "task_map s tb (c_str (c_fn_name c)) = None"
  shows "process_rexec e E cn cmd s = Inl UseAfterFree"
proof -
  have "heap s cmd = Some (OCmd c)" "heap s cn = Some (OCnode n)" "NUL \<in> set (c_fn_name c)"
    using cmd n by (auto simp: cmd_at_def node_up_def terminated_def)
  then show ?thesis
    using start_unknown [OF tb] error_after_free [OF n cmd(1,2) tboard_okD(1) [OF tb(1)], of e E]
    by (simp add: process_rexec_def prog_simps)
qed

lemma rexec_full_faults:
  assumes n: "node_up s cn n key" and cmd: "cmd_at s cmd c ds vs" "c_refcount c = 1" "terminated c"
    and tb: "tboard_ok s (cn_tboard n) tb" "task_map s tb (c_str (c_fn_name c)) = Some p"
    and t: "task_ok s p t" "length (live_slots t) = 5"
  shows "process_rexec e E cn cmd s = Inl UseAfterFree"
proof -
  have "heap s cmd = Some (OCmd c)" "heap s cn = Some (OCnode n)" "NUL \<in> set (c_fn_name c)"
    using cmd n by (auto simp: cmd_at_def node_up_def terminated_def)
  then show ?thesis
    using start_full [OF tb t] error_after_free [OF n cmd(1,2) tboard_okD(1) [OF tb(1)], of e E]
    by (simp add: process_rexec_def prog_simps)
qed

text \<open>The result of a task or an instance that is not there.\<close>

lemma return_task_missing:
  assumes n: "node_up s cn n key" and cmd: "cmd_at s cmd c ds vs" "terminated c"
    and tb: "tboard_ok s (cn_tboard n) tb"
    and none: "case task_map s tb (c_str (c_fn_name c)) of None \<Rightarrow> True
      | Some p \<Rightarrow> (\<exists>t. task_ok s p t \<and> slot_of s t (ucast (c_task_id c)) = None)"
  shows "cnode_return_task others k cn cmd s = Inr (0, s)"
proof -
  have h: "heap s cmd = Some (OCmd c)" "cmd \<noteq> 0" "heap s cn = Some (OCnode n)" "cn \<noteq> 0" "NUL \<in> set (c_fn_name c)"
    using cmd n by (auto simp: cmd_at_def node_up_def terminated_def)
  show ?thesis
  proof (cases "task_map s tb (c_str (c_fn_name c))")
    case None
    with h tboard_find_task_name_ok [OF tb, of "c_str (c_fn_name c)"] show ?thesis
      by (simp add: cnode_return_task_def prog_simps)
  next
    case (Some p)
    with none obtain t where t: "task_ok s p t" "slot_of s t (ucast (c_task_id c)) = None" by auto
    then have "p \<noteq> 0" using task_okD(1,2) [OF t(1)] by (auto dest: wf_memD)
    with Some h t(2) tboard_find_task_name_ok [OF tb, of "c_str (c_fn_name c)"]
      task_get_instance_index_ok [OF t(1)] show ?thesis
      by (simp add: cnode_return_task_def prog_simps)
  qed
qed

text \<open>So does a \<open>GET_REXEC_RES\<close> command for a task that is not on the board or a serial id
  none of its instances has.\<close>

lemma get_result_missing_faults:
  assumes n: "node_up s cn n key" and cmd: "cmd_at s cmd c ds vs" "c_refcount c = 1" "terminated c"
    and tb: "tboard_ok s (cn_tboard n) tb"
    and none: "case task_map s tb (c_str (c_fn_name c)) of None \<Rightarrow> True
      | Some p \<Rightarrow> (\<exists>t. task_ok s p t \<and> slot_of s t (ucast (c_task_id c)) = None)"
  shows "process_get_result e E others k cn cmd s = Inl UseAfterFree"
  using return_task_missing [OF n cmd(1,3) tb none]
    error_after_free [OF n cmd(1,2) tboard_okD(1) [OF tb], of e E]
  by (simp add: process_get_result_def prog_simps)

text \<open>C22. Every other command is answered with an error, and its memory is never released.\<close>

lemma other_cmd_leaks:
  assumes cb: "cbor_codec E P bytes view" and mem: "wf_mem s" "no_oom s" and n: "node_up s cn n key"
    and c: "heap s cmd = Some (OCmd c)" "answerable bytes c"
    and other: "c_cmd c \<noteq> cmd_code CMD_REXEC" "c_cmd c \<noteq> cmd_code CMD_GET_REXEC_RES"
  shows "\<exists>s'. cnode_process_cmd e E others k cn cmd s = Inr ((), s')
    \<and> sent s s' key (bytes (status_item CMD_REXEC_ERR c)) \<and> heap s' cmd = Some (OCmd c)"
proof -
  from send_status_bytes [OF cb mem n c, of CMD_REXEC_ERR e] obtain s' where
    "send_status e E CMD_REXEC_ERR cn cmd s = Inr (e_ok e (trace s @ [Z_put key (bytes (status_item CMD_REXEC_ERR c))]), s')"
    "sent s s' key (bytes (status_item CMD_REXEC_ERR c))" by auto
  with c(1) other show ?thesis
    by (simp add: cnode_process_cmd_def cnode_send_error_def prog_simps sent_def)
qed

section \<open>Waiting for a result\<close>

lemma wait_finished_done:
  "heap s q = Some (OInst i) \<Longrightarrow> has_finished i \<Longrightarrow> 0 < k \<Longrightarrow> wait_finished others k q s = Inr ((), s)"
  by (cases k) (simp_all add: prog_simps)

text \<open>As long as the other tasks leave it unfinished, the wait goes on.\<close>

lemma wait_finished_blocks:
  assumes "I s" and inv: "\<And>s. I s \<Longrightarrow> \<exists>s'. others s = Inr ((), s') \<and> I s'"
    and not: "\<And>s. I s \<Longrightarrow> \<exists>i. heap s q = Some (OInst i) \<and> \<not> has_finished i"
  shows "wait_finished others k q s = Inl NoFuel"
  using assms(1)
proof (induction k arbitrary: s)
  case (Suc k)
  from not [OF Suc.prems] obtain i where i: "heap s q = Some (OInst i)" "\<not> has_finished i" by blast
  from inv [OF Suc.prems] obtain s' where s': "others s = Inr ((), s')" "I s'" by blast
  from Suc.IH [OF s'(2)] i s'(1) show ?case by (simp add: prog_simps)
qed (simp add: prog_simps)

text \<open>C19. The loop that waits for a task to finish ends: if the other tasks set the flag within
  \<open>m\<close> rounds of sleep, \<open>m + 1\<close> polls are enough, and it returns in a state the
  others left.\<close>

lemma wait_finished_ends:
  assumes "I 0 s" and inv: "\<And>j s. I j s \<Longrightarrow> j < m \<Longrightarrow> \<exists>s'. others s = Inr ((), s') \<and> I (Suc j) s'"
    and live: "\<And>j s. I j s \<Longrightarrow> \<exists>i. heap s q = Some (OInst i) \<and> (j = m \<longrightarrow> has_finished i)" and "m < k"
  shows "\<exists>j s'. j \<le> m \<and> wait_finished others k q s = Inr ((), s') \<and> I j s'"
proof -
  have "j \<le> m \<Longrightarrow> m - j < k \<Longrightarrow> I j s \<Longrightarrow> \<exists>j' s'. j' \<le> m \<and> wait_finished others k q s = Inr ((), s') \<and> I j' s'" for j k s
  proof (induction k arbitrary: j s)
    case (Suc k)
    from live [OF Suc.prems(3)] obtain i where i: "heap s q = Some (OInst i)" "j = m \<longrightarrow> has_finished i" by blast
    show ?case
    proof (cases "has_finished i")
      case True
      with i Suc.prems show ?thesis by (auto simp: prog_simps)
    next
      case False
      with i(2) Suc.prems(1) have "j < m" by auto
      from inv [OF Suc.prems(3) this] obtain s' where s': "others s = Inr ((), s')" "I (Suc j) s'" by blast
      from Suc.IH [OF _ _ s'(2)] \<open>j < m\<close> Suc.prems(2) i(1) False s'(1) show ?thesis by (auto simp: prog_simps)
    qed
  qed simp
  from this [of 0 k s] assms(1,4) show ?thesis by simp
qed

section \<open>A result is collected\<close>

lemma inst_ptrs_objs:
  assumes "inst_ok s p q" "x \<in> set (inst_ptrs s q)"
  shows "(\<exists>i. heap s x = Some (OInst i)) \<or> (\<exists>as. heap s x = Some (OArgs as))"
  using assms unfolding inst_ok_def inst_args_ok_def
  by (elim exE conjE) (auto simp: inst_ptrs_def split: if_splits)

text \<open>
  The collector's part: the copy \<open>r\<close> of the result is fresh, and all that the instance owned is gone.
\<close>

definition collected :: "world \<Rightarrow> world \<Rightarrow> addr \<Rightarrow> task_t \<Rightarrow> nat \<Rightarrow> addr \<Rightarrow> addr set \<Rightarrow> bool" where
  "collected s s' p t i q A \<longleftrightarrow> wf_mem s' \<and> oom s' = oom s \<and> brk s \<le> brk s' \<and> A \<subseteq> {brk s<..brk s'}
     \<and> (\<forall>x. x \<notin> A \<longrightarrow> heap s' x = (if x \<in> set (inst_ptrs s q) then None
         else if x = p then Some (OTask (without_inst t i)) else heap s x))
     \<and> trace s' = trace s \<and> global_tboard s' = global_tboard s"

lemma return_task_ok:
  assumes cn: "heap s cn = Some (OCnode n)" "cn \<noteq> 0" and cmd: "heap s cmd = Some (OCmd c)" "cmd \<noteq> 0" "terminated c"
    and tb: "tboard_ok s (cn_tboard n) tb" "task_map s tb (c_str (c_fn_name c)) = Some p"
    and t: "task_ok s p t" "slot_of s t (ucast (c_task_id c)) = Some i" "instances t ! i = q"
    and ii: "heap s q = Some (OInst ii)" "has_finished ii" "args_at s (i_return_arg ii) [a] [v]"
    and mem: "no_oom s" and k: "0 < k"
  shows "\<exists>r s' ds. cnode_return_task others k cn cmd s = Inr (r, s') \<and> args_at s' r ds [v]
    \<and> distinct (r # args_ptrs ds) \<and> collected s s' p t i q (set (r # args_ptrs ds)) \<and> r \<noteq> 0"
proof -
  note tk = task_okD [OF t(1)]
  have p: "p \<noteq> 0" using tk(1,2) by (auto dest: wf_memD)
  have q: "q \<noteq> 0" using ii(1) tk(1) by (auto dest: wf_memD)
  have i: "i < length (instances t)" "serial_of s q = Some (ucast (c_task_id c))"
    using t(2,3) by (auto simp: slot_of_def first_idx_Some)
  from command_args_clone_ok [OF ii(3) tk(1) mem] obtain r s1 ds where clone:
    "command_args_clone (i_return_arg ii) s = Inr (r, s1)" "extends s s1" "wf_mem s1" "args_at s1 r ds [v]"
    "distinct (r # args_ptrs ds)" "set (r # args_ptrs ds) \<subseteq> {brk s<..brk s1}" "new_objs s s1 (set (r # args_ptrs ds))"
    by blast
  have keep: "heap s1 x = Some ob" if "heap s x = Some ob" for x ob
    using extends_live [OF clone(2) tk(1) that] .
  note t1 = task_ok_extends [OF t(1) clone(2,3)]
  let ?s2 = "inst_destroyed s1 p t i"
  have iq: "inst_ok s p q" using tk(6) [of q] q t(3) i(1) nth_mem [of i "instances t"] by simp
  have ptrs: "inst_ptrs s1 q = inst_ptrs s q" using ii(1) keep [OF ii(1)] by (simp add: inst_ptrs_def)
  have "serial_of s1 q = Some (ucast (c_task_id c))"
    using i(2) ii(1) keep [OF ii(1)] by (simp add: serial_of_def)
  from task_instance_destroy_ok [OF t1(1) t(3) q this] t1(2) t(2)
  have destroy: "task_instance_destroy q s1 = Inr ((), ?s2)" by simp
  have h2: "heap ?s2 x = (if x \<in> set (inst_ptrs s q) then None
      else if x = p then Some (OTask (without_inst t i)) else heap s1 x)" for x
    using t(3) by (simp add: inst_destroyed_defs ptrs)
  have old: "x \<le> brk s" if "x \<in> set (inst_ptrs s q) \<or> x = p" for x
    using that inst_ok_live [OF iq] tk(1,2) wf_memD [OF tk(1)] by blast
  have new: "heap ?s2 x = heap s1 x" if "x \<in> set (r # args_ptrs ds)" for x
  proof -
    have "brk s < x" using that clone(6) by auto
    with old [of x] show ?thesis by (auto simp: h2)
  qed
  have "args_at ?s2 r ds [v]" by (rule args_at_cong [OF clone(4)]) (use new in auto)
  moreover have "wf_mem ?s2"
    using inst_destroyed_ok(1) [OF t1(1)] i(1) tk(3) t(3) q task_okD(1) by fastforce
  moreover have "heap ?s2 x = (if x \<in> set (inst_ptrs s q) then None
         else if x = p then Some (OTask (without_inst t i)) else heap s x)" if "x \<notin> set (r # args_ptrs ds)" for x
  proof (cases "x \<le> brk s")
    case True
    with grows_heap [OF clone(2)] show ?thesis by (simp add: h2)
  next
    case False
    with that clone(7) have "heap s1 x = None" unfolding new_objs_def by (meson not_le_imp_less)
    moreover have "heap s x = None" using False tk(1) by (simp add: wf_mem_def)
    ultimately show ?thesis by (simp add: h2)
  qed
  ultimately have "collected s ?s2 p t i q (set (r # args_ptrs ds))" "args_at ?s2 r ds [v]"
    using clone(2,6) by (simp_all add: collected_def grows_def inst_destroyed_defs)
  moreover have "cnode_return_task others k cn cmd s = Inr (r, ?s2)"
    using cn cmd tboard_find_task_name_ok [OF tb(1), of "c_str (c_fn_name c)"] tb(2) p t tk(2) i(1) q ii(1,2)
      task_get_instance_index_ok [OF t(1)] wait_finished_done [OF ii(1,2) k] clone(1) destroy
    by (simp add: cnode_return_task_def prog_simps terminated_def task_instance_get_return_args_def)
  moreover have "r \<noteq> 0" using clone(6) by auto
  ultimately show ?thesis using clone(5) by blast
qed

definition result_item :: "command_t \<Rightarrow> argv \<Rightarrow> item" where
  "result_item c v = cmd_item (cmd_code CMD_REXEC_RES) (c_subcmd c) (c_str (c_fn_name c)) (c_task_id c)
     (c_str (c_node_id c)) (c_str (c_fn_argsig c)) [v]"

lemma collected_keep:
  assumes c: "collected s s' p t i q A" and ok: "task_ok s p t" and x: "heap s x = Some ob" "x \<notin> set (inst_ptrs s q)" "\<forall>t. ob \<noteq> OTask t"
  shows "heap s' x = Some ob"
proof -
  have "x \<notin> A" using c wf_memD [OF task_okD(1) [OF ok] x(1)] by (auto simp: collected_def)
  moreover have "x \<noteq> p" using x task_okD(2) [OF ok] by auto
  ultimately show ?thesis using c x by (simp add: collected_def)
qed

lemma collected_node_up:
  assumes c: "collected s s' p t i q A" and ok: "task_ok s p t" "inst_ok s p q" and n: "node_up s cn n key"
  shows "node_up s' cn n key"
proof -
  from n obtain pb where pb: "heap s (cn_zenoh_pub_reply n) = Some (OPub pb)" "pub_keyexpr pb = key"
    and cn: "heap s cn = Some (OCnode n)" by (auto simp: node_up_def)
  have "cn \<notin> set (inst_ptrs s q)" "cn_zenoh_pub_reply n \<notin> set (inst_ptrs s q)"
    using inst_ptrs_objs [OF ok(2), of cn] inst_ptrs_objs [OF ok(2), of "cn_zenoh_pub_reply n"] cn pb(1) by auto
  with collected_keep [OF c ok(1) cn] collected_keep [OF c ok(1) pb(1)] n pb(2) show ?thesis by (simp add: node_up_def)
qed

text \<open>The reply with the result.\<close>

lemma send_response_ok:
  assumes cb: "cbor_codec E P bytes view" and s: "wf_mem s" "no_oom s" and n: "node_up s cn n key"
    and c: "heap s cmd = Some (OCmd c)" "cmd \<noteq> 0" "answerable bytes c"
    and r: "args_at s r rs [v]" "r \<noteq> 0" "sendable v" and fits: "length (bytes (result_item c v)) \<le> 1024"
  shows "\<exists>s'. cnode_send_response e E cn cmd r s = Inr (e_ok e (trace s @ [Z_put key (bytes (result_item c v))]), s')
    \<and> sent s s' key (bytes (result_item c v))"
proof -
  have names: "terminated c" "names_fit (c_str (c_fn_name c)) (c_str (c_node_id c)) (c_str (c_fn_argsig c))"
    using c(3) by (simp_all add: answerable_def)
  have "args_opt s r rs [v]" using r(1,2) by (simp add: args_opt_def)
  from command_new_using_arg_ok [OF this s, of E "cmd_code CMD_REXEC_RES" "c_subcmd c" "c_str (c_fn_name c)"
      "c_task_id c" "c_str (c_node_id c)" "c_str (c_fn_argsig c)"]
  obtain pr s3 qr dr where new: "command_new_using_arg E (cmd_code CMD_REXEC_RES) (c_subcmd c) (Some (c_str (c_fn_name c)))
      (c_task_id c) (Some (c_str (c_node_id c))) (Some (c_str (c_fn_argsig c))) r s = Inr (pr, s3)"
    "created s s3 pr (new_cmd E (cmd_code CMD_REXEC_RES) (c_subcmd c) (c_str (c_fn_name c))
      (c_task_id c) (c_str (c_node_id c)) (c_str (c_fn_argsig c)) [v] qr (cmd_id s)) dr [v]"
    by blast
  note b = reply_bytes [OF cb names(2) _ _ fits [unfolded result_item_def], simplified, OF r(3)]
  from publish_reply_ok [OF s(1) n new(2), of e] obtain s4 where pub:
    "publish_reply e cn pr s3 = Inr (e_ok e (trace s @ [Z_put key (bytes (result_item c v))]), s4)"
    "sent s s4 key (bytes (result_item c v))"
    using b fits by (auto simp: new_cmd_def result_item_def)
  have "cnode_send_response e E cn cmd r s = Inr (e_ok e (trace s @ [Z_put key (bytes (result_item c v))]), s4)"
    using n c(1,2) r(2) names(1) new(1) pub(1)
    by (simp add: cnode_send_response_def node_up_def prog_simps terminated_def)
  with pub(2) show ?thesis by blast
qed

text \<open>C10. A \<open>GET_REXEC_RES\<close> command for a finished instance publishes the result message with the
  instance's value and destroys the instance: afterwards the command, the instance, its arguments and its
  return argument are released, the slot is free, and nothing else has changed.\<close>

lemma get_result_ok:
  assumes cb: "cbor_codec E P bytes view" and n: "node_up s cn n key"
    and cmd: "cmd_at s cmd c ds vs" "c_refcount c = 1" "answerable bytes c"
    and tb: "tboard_ok s (cn_tboard n) tb" "task_map s tb (c_str (c_fn_name c)) = Some p"
    and t: "task_ok s p t" "slot_of s t (ucast (c_task_id c)) = Some i" "instances t ! i = q"
    and ii: "heap s q = Some (OInst ii)" "has_finished ii" "args_at s (i_return_arg ii) [a] [v]" "sendable v"
    and fits: "length (bytes (result_item c v)) \<le> 1024"
    and sep: "set (cmd_ptrs cmd c ds) \<inter> set (inst_ptrs s q) = {}" and mem: "no_oom s" and k: "0 < k"
  shows "\<exists>s'. process_get_result e E others k cn cmd s = Inr ((), s')
    \<and> heap s' = (\<lambda>x. if x \<in> set (cmd_ptrs cmd c ds) \<union> set (inst_ptrs s q) then None
        else if x = p then Some (OTask (without_inst t i)) else heap s x)
    \<and> trace s' = trace s @ [Z_put key (bytes (result_item c v))]
    \<and> wf_mem s' \<and> no_oom s' \<and> global_tboard s' = global_tboard s \<and> brk s \<le> brk s'"
proof -
  note tk = task_okD [OF t(1)]
  have c0: "heap s cmd = Some (OCmd c)" "cmd \<noteq> 0" "terminated c"
    using cmd(1,3) by (auto simp: cmd_at_def answerable_def)
  have cn: "heap s cn = Some (OCnode n)" "cn \<noteq> 0" using n by (auto simp: node_up_def)
  from return_task_ok [OF cn c0 tb t ii(1-3) mem k, of others] obtain r s2 rs where
    ret: "cnode_return_task others k cn cmd s = Inr (r, s2)" "args_at s2 r rs [v]" "distinct (r # args_ptrs rs)"
    "collected s s2 p t i q (set (r # args_ptrs rs))" "r \<noteq> 0" by blast
  let ?A = "set (r # args_ptrs rs)" and ?C = "set (cmd_ptrs cmd c ds)"
  have A: "?A \<subseteq> {brk s<..brk s2}" "wf_mem s2" "no_oom s2" "trace s2 = trace s" "global_tboard s2 = global_tboard s"
    "brk s \<le> brk s2"
    using ret(4) mem by (simp_all add: collected_def no_oom_def)
  have "q \<noteq> 0" "i < length (instances t)"
    using ii(1) tk(1) t(2) by (auto dest: wf_memD simp: slot_of_def first_idx_Some)
  then have iq: "inst_ok s p q" using tk(6) [of q] t(3) nth_mem [of i "instances t"] by simp
  have fresh: "heap s x = None" if "x \<in> ?A" for x
    using that A(1) tk(1) unfolding wf_mem_def by (meson greaterThanAtMost_iff subsetD)
  have cmd2: "heap s2 x = heap s x" if "x \<in> ?C" for x
  proof -
    from cmd_at_owned_live [OF cmd(1) that] obtain ob where "heap s x = Some ob" "\<forall>t. ob \<noteq> OTask t" by blast
    with collected_keep [OF ret(4) t(1)] sep that show ?thesis by (metis IntI empty_iff)
  qed
  then have c2: "heap s2 cmd = Some (OCmd c)" using c0 by (simp add: cmd_ptrs_def)
  from send_response_ok [OF cb A(2,3) collected_node_up [OF ret(4) t(1) iq n] c2 c0(2) cmd(3) ret(2,5) ii(4) fits, of e]
  obtain s4 where send: "cnode_send_response e E cn cmd r s2 = Inr (e_ok e (trace s2 @ [Z_put key (bytes (result_item c v))]), s4)"
    "sent s2 s4 key (bytes (result_item c v))" by blast
  have h4: "heap s4 = heap s2" using send(2) by (simp add: sent_def)
  have "args_at s4 r rs [v]" by (rule args_at_cong [OF ret(2)]) (simp_all add: h4)
  from command_args_free_ok [OF this ret(3,5)] obtain u where
    free1: "command_args_free r s4 = Inr ((), released ?A u s4)" by blast
  have "x \<notin> ?A" if "x \<in> ?C" for x using cmd_at_owned_live [OF cmd(1) that] fresh [of x] by auto
  then have "cmd_at (released ?A u s4) cmd c ds vs"
    by (intro cmd_at_cong [OF cmd(1)]) (use cmd2 h4 in simp)
  from command_free_last [OF this] cmd(2) obtain w where
    free2: "command_free cmd (released ?A u s4) = Inr ((), released ?C w (released ?A u s4))"
    by (auto simp: word_sless_alt)
  let ?s' = "released ?C w (released ?A u s4)"
  have "process_get_result e E others k cn cmd s = Inr ((), ?s')"
    using ret(1,5) send(1) free1 free2 by (simp add: process_get_result_def prog_simps)
  moreover have "heap ?s' x = (if x \<in> ?C \<union> set (inst_ptrs s q) then None
        else if x = p then Some (OTask (without_inst t i)) else heap s x)" for x
    using ret(4) fresh [of x] tk(2) inst_ptrs_objs [OF iq, of x] by (cases "x \<in> ?A") (auto simp: h4 collected_def)
  moreover have "trace ?s' = trace s @ [Z_put key (bytes (result_item c v))]" "wf_mem ?s'" "no_oom ?s'"
    "global_tboard ?s' = global_tboard s" "brk s \<le> brk ?s'"
    using send(2) A by (simp_all add: sent_def no_oom_def)
  ultimately show ?thesis by (intro exI [of _ ?s'] conjI ext)
qed

end
