(* ===== verification/Core_State.thy ===== *)
theory Core_State
  imports Env
begin

text \<open>
  The core state (\<open>src/core.c\<close>): the device id, a number made of the time and a counter
  (\<open>discountflake\<close>) and kept in flash as a string, and the serial number. The lemmas show what the id
  consists of, what \<open>core_setup\<close> does for every answer of the flash store, and that it survives the
  first boot only: the block it reads a stored id into has room for the empty string.
\<close>

section \<open>Decimal numbers\<close>

text \<open>What \<open>sprintf\<close> writes for \<open>%li\<close>.\<close>

definition digit :: "nat \<Rightarrow> char" where
  "digit n = char_of (48 + n)"

fun dec_nat :: "nat \<Rightarrow> string" where
  "dec_nat n = (if n < 10 then [digit n] else dec_nat (n div 10) @ [digit (n mod 10)])"

declare dec_nat.simps [simp del]

definition dec_int :: "int \<Rightarrow> string" where
  "dec_int i = (if i < 0 then CHR ''-'' # dec_nat (nat (- i)) else dec_nat (nat i))"

text \<open>A \<open>sprintf\<close> of a string that is known: the array must have room for it and its terminator.\<close>

definition sprintf_to :: "char list \<Rightarrow> string \<Rightarrow> char list c_prog" where
  "sprintf_to buffer x = (if length x + 1 \<le> length buffer then ret (x @ [NUL] @ drop (length x + 1) buffer)
     else raise OutOfBounds)"

lemma of_char_digit: "n < 10 \<Longrightarrow> of_char (digit n) = 48 + n"
  by (simp add: digit_def)

text \<open>Reading a number back, so that different numbers have different strings.\<close>

definition nat_of_dec :: "string \<Rightarrow> nat" where
  "nat_of_dec x = foldl (\<lambda>a c. 10 * a + (of_char c - 48)) 0 x"

lemma nat_of_dec_nat [simp]: "nat_of_dec (dec_nat n) = n"
proof (induction n rule: dec_nat.induct)
  case (1 n)
  then show ?case
    by (subst dec_nat.simps) (simp add: nat_of_dec_def of_char_digit)
qed

lemma dec_nat_digits: "set (dec_nat n) \<subseteq> digit ` {..<10}"
proof (induction n rule: dec_nat.induct)
  case (1 n)
  then show ?case by (subst dec_nat.simps) auto
qed

lemma digit_ne: "n < 10 \<Longrightarrow> digit n \<noteq> NUL \<and> digit n \<noteq> CHR ''-''"
  using of_char_digit [of n] by auto

lemma dec_nat_chars: "NUL \<notin> set (dec_nat n)" "CHR ''-'' \<notin> set (dec_nat n)"
  using subsetD [OF dec_nat_digits [of n]] digit_ne by (metis imageE lessThan_iff)+

lemma dec_nat_ne [simp]: "dec_nat n \<noteq> []"
  by (subst dec_nat.simps) simp

lemma is_cstr_dec_int: "is_cstr (dec_int i)"
  using dec_nat_chars by (simp add: is_cstr_def dec_int_def)

lemma dec_int_ne [simp]: "dec_int i \<noteq> []"
  by (simp add: dec_int_def)

lemma dec_int_inj: "dec_int i = dec_int j \<longleftrightarrow> i = j"
proof
  assume eq: "dec_int i = dec_int j"
  have minus: "CHR ''-'' # x \<noteq> dec_nat n" for x n
    using dec_nat_chars(2) [of n] by (metis list.set_intros(1))
  have nats: "dec_nat m = dec_nat n \<longleftrightarrow> m = n" for m n
    by (metis nat_of_dec_nat)
  show "i = j"
    using eq minus minus [THEN not_sym] nats by (auto simp: dec_int_def split: if_splits)
qed simp

lemma dec_nat_length: "0 < k \<Longrightarrow> n < 10 ^ k \<Longrightarrow> length (dec_nat n) \<le> k"
proof (induction k arbitrary: n)
  case (Suc k)
  show ?case
  proof (cases "n < 10")
    case True
    then show ?thesis by (subst dec_nat.simps) simp
  next
    case False
    with Suc.prems have "0 < k" by (cases k) auto
    moreover have "n div 10 < 10 ^ k" using Suc.prems by (simp add: less_mult_imp_div_less mult.commute)
    ultimately show ?thesis using Suc.IH [of "n div 10"] False by (subst dec_nat.simps) simp
  qed
qed simp

lemma dec_int_length: "length (dec_int (sint (w :: 32 word))) \<le> 11"
proof -
  have "nat (sint w) < 10 ^ 10" "nat (- sint w) < 10 ^ 10"
    using sint_i32_bounds [of w] unfolding zless_nat_conj [symmetric] by simp_all linarith+
  then show ?thesis
    using dec_nat_length [of 10 "nat (sint w)"] dec_nat_length [of 10 "nat (- sint w)"]
    by (simp add: dec_int_def)
qed

section \<open>The identifier\<close>

text \<open>C's \<open>%\<close> on an \<open>int\<close>, which rounds towards zero.\<close>

definition rem32 :: "i32 \<Rightarrow> int \<Rightarrow> i32" where
  "rem32 a n = of_int (sgn (sint a) * (\<bar>sint a\<bar> mod n))"

definition flake :: "u64 \<Rightarrow> i32 \<Rightarrow> i32 \<Rightarrow> u32" where
  "flake sec usec counter = ucast sec * 65536 + rem32 usec 1024 * 64 + counter"

definition discountflake :: "env \<Rightarrow> char list \<Rightarrow> (char list \<times> i32) c_prog" where
  "discountflake e buffer =
     bnd (gets flake_counter) (\<lambda>c. let counter = rem32 (c + 1) 64 in
     andthen (modify (\<lambda>s. s\<lparr>flake_counter := counter\<rparr>))
     (andthen (call (Lib ''gettimeofday''))
     (bnd (ask (e_time e)) (\<lambda>(sec, usec, errorCode).
     bnd (sprintf_to buffer (dec_int (sint (flake sec usec counter)))) (\<lambda>b.
     ret (b, errorCode))))))"

lemma rem32_pos: "0 \<le> sint a \<Longrightarrow> rem32 a n = of_int (sint a mod n)"
  by (cases "sint a = 0") (simp_all add: rem32_def sgn_if)

text \<open>
  The fields of an id: 16 bits of the seconds, 10 of the microseconds, the counter. They do not
  overlap.
\<close>

lemma flake_value:
  assumes "0 \<le> sint usec" "0 \<le> sint c" "sint c < 64"
  shows "uint (flake sec usec c) = (uint sec mod 65536) * 65536 + (sint usec mod 1024) * 64 + sint c"
proof -
  let ?a = "uint sec mod 65536" and ?b = "sint usec mod 1024"
  have ab: "0 \<le> ?a" "?a < 65536" "0 \<le> ?b" "?b < 1024" by simp_all
  have "flake sec usec c = of_int (uint sec) * of_int 65536 + of_int ?b * of_int 64 + of_int (sint c)"
    by (simp add: flake_def rem32_pos [OF assms(1)] of_int_uint)
  also have "\<dots> = of_int (uint sec * 65536 + ?b * 64 + sint c)" by simp
  finally have "uint (flake sec usec c) = uint (of_int (uint sec * 65536 + ?b * 64 + sint c) :: u32)"
    by (simp only:)
  also have "\<dots> = (uint sec * 65536 + ?b * 64 + sint c) mod 4294967296"
    unfolding uint_word_of_int_eq take_bit_eq_mod by simp
  also have "uint sec * 65536 + ?b * 64 + sint c
      = (?a * 65536 + ?b * 64 + sint c) + (uint sec div 65536) * 4294967296"
    using div_mult_mod_eq [of "uint sec" 65536] by linarith
  also have "\<dots> mod 4294967296 = (?a * 65536 + ?b * 64 + sint c) mod 4294967296"
    by (rule mod_mult_self1)
  also have "\<dots> = ?a * 65536 + ?b * 64 + sint c"
    by (rule mod_pos_pos_trivial) (use ab assms in linarith)+
  finally show ?thesis .
qed

lemma digits_eq:
  assumes "a * 65536 + b * 64 + c = a' * 65536 + b' * 64 + (c' :: int)"
    and "0 \<le> b" "b < 1024" "0 \<le> b'" "b' < 1024" "0 \<le> c" "c < 64" "0 \<le> c'" "c' < 64"
  shows "c = c' \<and> a = a' \<and> b = b'"
proof -
  have low: "z = (z + n * k) mod k" if "0 \<le> z" "z < k" for z n k :: int
    using that by simp
  have "c = (c + (a * 1024 + b) * 64) mod 64" "c' = (c' + (a' * 1024 + b') * 64) mod 64"
    using low assms(6-9) by blast+
  moreover have "c + (a * 1024 + b) * 64 = c' + (a' * 1024 + b') * 64" using assms(1) by simp
  ultimately have c: "c = c'" by metis
  have "b = (b + a * 1024) mod 1024" "b' = (b' + a' * 1024) mod 1024"
    using low assms(2-5) by blast+
  moreover have "b + a * 1024 = b' + a' * 1024" using assms(1) c by simp
  ultimately have "b = b'" by metis
  with assms(1) c show ?thesis by simp
qed

text \<open>C25. Two identifiers are the same only if the seconds agree modulo 65536, the microseconds modulo 1024,
  and the counters are equal: the three fields do not overlap in the 32 bits.\<close>

lemma flake_inj:
  assumes "0 \<le> sint usec" "0 \<le> sint c" "sint c < 64" "0 \<le> sint usec'" "0 \<le> sint c'" "sint c' < 64"
  shows "flake sec usec c = flake sec' usec' c' \<longleftrightarrow>
    uint sec mod 65536 = uint sec' mod 65536 \<and> sint usec mod 1024 = sint usec' mod 1024 \<and> c = c'"
proof
  assume "flake sec usec c = flake sec' usec' c'"
  then have eq: "(uint sec mod 65536) * 65536 + (sint usec mod 1024) * 64 + sint c
      = (uint sec' mod 65536) * 65536 + (sint usec' mod 1024) * 64 + sint c'"
    using flake_value [OF assms(1-3), of sec] flake_value [OF assms(4-6), of sec'] by simp
  have b: "0 \<le> sint usec mod 1024" "sint usec mod 1024 < 1024" "0 \<le> sint usec' mod 1024"
    "sint usec' mod 1024 < 1024" by simp_all
  have "sint c = sint c'" "uint sec mod 65536 = uint sec' mod 65536"
    "sint usec mod 1024 = sint usec' mod 1024"
    using digits_eq [OF eq] b assms by blast+
  then show "uint sec mod 65536 = uint sec' mod 65536 \<and> sint usec mod 1024 = sint usec' mod 1024 \<and> c = c'"
    by (simp add: signed_word_eqI)
next
  assume "uint sec mod 65536 = uint sec' mod 65536 \<and> sint usec mod 1024 = sint usec' mod 1024 \<and> c = c'"
  then have "uint (flake sec usec c) = uint (flake sec' usec' c')"
    using flake_value [OF assms(1-3), of sec] flake_value [OF assms(4-6), of sec'] by simp
  then show "flake sec usec c = flake sec' usec' c'" by (rule word_uint_eqI)
qed

text \<open>The counter stays between 0 and 63.\<close>

definition counter_ok :: "world \<Rightarrow> bool" where
  "counter_ok s \<longleftrightarrow> 0 \<le> sint (flake_counter s) \<and> sint (flake_counter s) < 64"

definition next_counter :: "world \<Rightarrow> i32" where
  "next_counter s = of_int ((sint (flake_counter s) + 1) mod 64)"

lemma next_counter:
  assumes "counter_ok s"
  shows "rem32 (flake_counter s + 1) 64 = next_counter s" "0 \<le> sint (next_counter s)"
    "sint (next_counter s) < 64"
proof -
  let ?c = "sint (flake_counter s)"
  have c: "0 \<le> ?c" "?c < 64" using assms by (simp_all add: counter_ok_def)
  have m: "0 \<le> (?c + 1) mod 64" "(?c + 1) mod 64 < 64" by simp_all
  have "flake_counter s + 1 = of_int (?c + 1)" by simp
  moreover have "sint (of_int (?c + 1) :: i32) = ?c + 1"
    by (rule sint_of_int_word32) (use c in simp_all)
  ultimately have "sint (flake_counter s + 1) = ?c + 1" by (simp only:)
  then show "rem32 (flake_counter s + 1) 64 = next_counter s"
    using rem32_pos [of "flake_counter s + 1" 64] c by (simp add: next_counter_def)
  have "sint (next_counter s) = (?c + 1) mod 64"
    unfolding next_counter_def by (rule sint_of_int_word32) (use m in simp_all)
  with m show "0 \<le> sint (next_counter s)" "sint (next_counter s) < 64" by simp_all
qed

lemma sprintf_dec [prog_simps]:
  "length (dec_int i) < length b \<Longrightarrow>
    sprintf_to b (dec_int i) s = Inr (dec_int i @ NUL # drop (length (dec_int i) + 1) b, s)"
  by (simp add: sprintf_to_def prog_simps)

text \<open>An array of 37 characters always has room.\<close>

lemma discountflake_ok:
  assumes "counter_ok s" "length b = 37" "e_time e (trace s @ [Lib ''gettimeofday'']) = (sec, usec, rc)"
  shows "discountflake e b s =
    (let x = dec_int (sint (flake sec usec (next_counter s))) in
     Inr ((x @ NUL # drop (length x + 1) b, rc),
       s\<lparr>trace := trace s @ [Lib ''gettimeofday''], flake_counter := next_counter s\<rparr>))"
proof -
  have "length (dec_int (sint w)) < 37" for w :: i32
    using dec_int_length [of w] by simp
  then show ?thesis
    using assms by (simp add: discountflake_def next_counter(1) [OF assms(1)] Let_def prog_simps)
qed

section \<open>Setting the core up\<close>

text \<open>\<open>nvs_get_str\<close> writes the value with its terminator into the block it is given.\<close>

definition write_str :: "addr \<Rightarrow> string \<Rightarrow> unit c_prog" where
  "write_str p v = bnd (load as_chars p) (\<lambda>b.
     if length v + 1 \<le> length b then store p (OChars (v @ [NUL] @ drop (length v + 1) b))
     else raise OutOfBounds)"

definition print_str :: "addr \<Rightarrow> unit c_prog" where
  "print_str p = bnd (load as_chars p) (\<lambda>b. bnd (read_str b) (\<lambda>_. ret ()))"

text \<open>The two keys, each read and, if it is not there yet, stored.\<close>

definition setup_device_id :: "env \<Rightarrow> addr \<Rightarrow> char list \<Rightarrow> unit c_prog" where
  "setup_device_id e cs buffer =
     bnd (lib_err e ''nvs_get_str'') (\<lambda>err. bnd (load as_core cs) (\<lambda>c.
     case err of
       ESP_OK \<Rightarrow> bnd (ask (e_str e)) (\<lambda>v.
         andthen (write_str (cs_device_id c) v) (print_str (cs_device_id c)))
     | ESP_ERR_NVS_NOT_FOUND \<Rightarrow>
         bnd (discountflake e buffer) (\<lambda>(buffer, _).
         bnd (read_str buffer) (\<lambda>x. bnd (strdup_str x) (\<lambda>d.
         andthen (update_core cs (\<lambda>c. c\<lparr>cs_device_id := d\<rparr>))
         (andthen (print_str d)
         (bnd (load as_chars d) (\<lambda>b. bnd (read_str b) (\<lambda>y. call (Nvs_set_str ''device_id'' y))))))))
     | _ \<Rightarrow> ret ()))"

definition setup_serial_num :: "env \<Rightarrow> addr \<Rightarrow> i32 \<Rightarrow> unit c_prog" where
  "setup_serial_num e cs serial =
     bnd (lib_err e ''nvs_get_i32'') (\<lambda>err.
     case err of
       ESP_OK \<Rightarrow> ret ()
     | ESP_ERR_NVS_NOT_FOUND \<Rightarrow>
         andthen (call (Nvs_set_i32 ''serial_num'' serial))
         (update_core cs (\<lambda>c. c\<lparr>cs_serial_num := serial\<rparr>))
     | _ \<Rightarrow> ret ())"

text \<open>The flash is erased and initialised again when its format is old or it is full.\<close>

definition nvs_init :: "env \<Rightarrow> unit c_prog" where
  "nvs_init e =
     bnd (lib_err e ''nvs_flash_init'') (\<lambda>err.
     bnd (if err = ESP_ERR_NVS_NO_FREE_PAGES \<or> err = ESP_ERR_NVS_NEW_VERSION_FOUND
       then bnd (lib_err e ''nvs_flash_erase'') (\<lambda>err. andthen (esp_error_check err)
         (lib_err e ''nvs_flash_init''))
       else ret err) esp_error_check)"

definition core_setup :: "env \<Rightarrow> addr \<Rightarrow> unit c_prog" where
  "core_setup e cs = (let buffer = replicate 37 NUL in
     bnd (strdup_str (c_str buffer)) (\<lambda>d.
     andthen (update_core cs (\<lambda>c. c\<lparr>cs_device_id := d\<rparr>))
     (bnd (load as_core cs) (\<lambda>c.
     andthen (nvs_init e)
     (bnd (lib_err e ''nvs_open'') (\<lambda>err.
     if err \<noteq> ESP_OK then ret ()
     else
       andthen (setup_device_id e cs buffer)
       (andthen (setup_serial_num e cs (cs_serial_num c))
       (andthen (call (Lib ''nvs_commit'')) (call (Lib ''nvs_close''))))))))))"

definition core_init :: "env \<Rightarrow> i32 \<Rightarrow> addr c_prog" where
  "core_init e serialnum =
     bnd (calloc (OCore \<lparr>cs_device_id = 0, cs_serial_num = 0\<rparr>) 8) (\<lambda>cs.
     andthen (update_core cs (\<lambda>c. c\<lparr>cs_serial_num := serialnum\<rparr>))
     (andthen (core_setup e cs) (ret cs)))"

definition core_destroy :: "addr \<Rightarrow> unit c_prog" where
  "core_destroy cs =
     (if cs = 0 then ret ()
      else bnd (load as_core cs) (\<lambda>c.
        andthen (if cs_device_id c \<noteq> 0 then free_chars (cs_device_id c) else ret ())
        (free_sized cs 8)))"

section \<open>The first boot and the next one\<close>

text \<open>The identifier \<open>core_init\<close> makes in a state.\<close>

definition new_id :: "env \<Rightarrow> world \<Rightarrow> ext_call list \<Rightarrow> string" where
  "new_id e s tr = (case e_time e tr of (sec, usec, _) \<Rightarrow>
     dec_int (sint (flake sec usec (next_counter s))))"

lemma new_id_ok: "is_cstr (new_id e s tr)" "new_id e s tr \<noteq> []" "length (new_id e s tr) \<le> 11"
  using is_cstr_dec_int dec_int_length by (auto simp: new_id_def split: prod.splits)

lemma read_back [prog_simps]:
  "is_cstr x \<Longrightarrow> read_str (x @ NUL # r) s = Inr (x, s)"
  by (simp add: prog_simps)

lemma nvs_init_ok:
  assumes "flash_store e"
  shows "nvs_init e s = Inr ((), s\<lparr>trace := trace s @ [Lib ''nvs_flash_init'']\<rparr>)"
  using flash_store.init_ok [OF assms] by (simp add: nvs_init_def prog_simps)

lemma setup_device_id_first:
  assumes fl: "flash_store e" and mem: "no_oom s" and cs: "heap s cs = Some (OCore c)" "wf_mem s"
    and fresh: "stored_str ''device_id'' (trace s) = None" and cnt: "counter_ok s"
  shows "\<exists>tr. setup_device_id e cs (replicate 37 NUL) s = Inr ((), s\<lparr>
      heap := (heap s)(cs := Some (OCore (c\<lparr>cs_device_id := Suc (brk s)\<rparr>)),
        Suc (brk s) := Some (OChars (new_id e s tr @ [NUL]))),
      brk := Suc (brk s), flake_counter := next_counter s,
      trace := tr @ [Nvs_set_str ''device_id'' (new_id e s tr)]\<rparr>)
    \<and> tr = trace s @ [Lib ''nvs_get_str'', Lib ''gettimeofday'']"
proof -
  let ?s = "s\<lparr>trace := trace s @ [Lib ''nvs_get_str'']\<rparr>"
  let ?tr = "trace s @ [Lib ''nvs_get_str'', Lib ''gettimeofday'']"
  obtain sec usec rc where t: "e_time e ?tr = (sec, usec, rc)" by (cases "e_time e ?tr")
  have "e_err e (trace s @ [Lib ''nvs_get_str'']) = ESP_ERR_NVS_NOT_FOUND"
    using flash_store.get_str [OF fl, of "trace s"] fresh by simp
  moreover have "counter_ok ?s" "next_counter ?s = next_counter s"
    using cnt by (simp_all add: counter_ok_def next_counter_def)
  moreover have ne: "cs \<noteq> Suc (brk s)" using wf_memD [OF cs(2,1)] by simp
  moreover have "new_id e s ?tr = dec_int (sint (flake sec usec (next_counter s)))"
    by (simp add: new_id_def t)
  ultimately show ?thesis
    using discountflake_ok [of ?s "replicate 37 NUL" e sec usec rc] t mem cs(1) new_id_ok(1) [of e s ?tr]
    by (simp add: setup_device_id_def prog_simps strdup_str_def print_str_def fun_upd_twist Let_def)
qed

text \<open>
  The first boot: the node gets an identifier, which is in the core state and in flash. The block of
  the empty string is still there and no one has a pointer to it.
\<close>

definition booted :: "world \<Rightarrow> world \<Rightarrow> i32 \<Rightarrow> string \<Rightarrow> bool" where
  "booted s s' n x \<longleftrightarrow> is_cstr x \<and> x \<noteq> [] \<and> length x \<le> 11
     \<and> heap s' = (heap s)(Suc (brk s) := Some (OCore \<lparr>cs_device_id = Suc (Suc (Suc (brk s))), cs_serial_num = n\<rparr>),
        Suc (Suc (brk s)) := Some (OChars [NUL]), Suc (Suc (Suc (brk s))) := Some (OChars (x @ [NUL])))
     \<and> stored_str ''device_id'' (trace s') = Some x \<and> counter_ok s'
     \<and> brk s' = brk s + 3 \<and> oom s' = oom s \<and> global_tboard s' = global_tboard s
     \<and> system_initialized s' = system_initialized s \<and> pending (trace s') = pending (trace s)"

lemma setup_serial_num_ok:
  assumes "heap s cs = Some (OCore c)" "cs_serial_num c = n"
  shows "\<exists>tr. setup_serial_num e cs n s = Inr ((), s\<lparr>trace := trace s @ tr\<rparr>)
    \<and> stored_str ''device_id'' tr = None \<and> (\<forall>q. pending_from q tr = q)"
proof -
  have "(heap s)(cs := Some (OCore (c\<lparr>cs_serial_num := n\<rparr>))) = heap s"
    using assms by (auto simp: fun_upd_idem_iff)
  then show ?thesis
    using assms
    by (intro exI [of _ "Lib ''nvs_get_i32'' # (if e_err e (trace s @ [Lib ''nvs_get_i32'']) = ESP_ERR_NVS_NOT_FOUND
        then [Nvs_set_i32 ''serial_num'' n] else [])"])
      (cases "e_err e (trace s @ [Lib ''nvs_get_i32''])", simp_all add: setup_serial_num_def prog_simps)
qed

lemma core_init_first:
  assumes fl: "flash_store e" and mem: "wf_mem s" "no_oom s" and cnt: "counter_ok s"
    and fresh: "stored_str ''device_id'' (trace s) = None"
  shows "\<exists>s' x. core_init e n s = Inr (Suc (brk s), s') \<and> booted s s' n x"
proof -
  let ?cs = "Suc (brk s)"
  let ?c = "\<lparr>cs_device_id = Suc ?cs, cs_serial_num = n\<rparr>"
  define t where "t = s\<lparr>total_mem_usage := total_mem_usage s + 8, brk := Suc ?cs,
    heap := (heap s)(?cs := Some (OCore ?c), Suc ?cs := Some (OChars [NUL])),
    trace := trace s @ [Lib ''nvs_flash_init'', Lib ''nvs_open'']\<rparr>"
  have t: "no_oom t" "heap t ?cs = Some (OCore ?c)" "wf_mem t" "counter_ok t"
    "stored_str ''device_id'' (trace t) = None"
    using mem cnt fresh by (simp_all add: t_def no_oom_def wf_mem_def counter_ok_def stored_str_append)
  from setup_device_id_first [OF fl t(1,2,3,5,4)] obtain tr where
    id: "setup_device_id e ?cs (replicate 37 NUL) t = Inr ((), t\<lparr>
      heap := (heap t)(?cs := Some (OCore (?c\<lparr>cs_device_id := Suc (brk t)\<rparr>)),
        Suc (brk t) := Some (OChars (new_id e t tr @ [NUL]))),
      brk := Suc (brk t), flake_counter := next_counter t,
      trace := tr @ [Nvs_set_str ''device_id'' (new_id e t tr)]\<rparr>)"
    and tr: "tr = trace t @ [Lib ''nvs_get_str'', Lib ''gettimeofday'']" by blast
  define u where "u = t\<lparr>
      heap := (heap t)(?cs := Some (OCore (?c\<lparr>cs_device_id := Suc (brk t)\<rparr>)),
        Suc (brk t) := Some (OChars (new_id e t tr @ [NUL]))),
      brk := Suc (brk t), flake_counter := next_counter t,
      trace := tr @ [Nvs_set_str ''device_id'' (new_id e t tr)]\<rparr>"
  have "heap u ?cs = Some (OCore (?c\<lparr>cs_device_id := Suc (brk t)\<rparr>))" by (simp add: u_def t_def)
  from setup_serial_num_ok [OF this, of n e] obtain tr' where
    num: "setup_serial_num e ?cs n u = Inr ((), u\<lparr>trace := trace u @ tr'\<rparr>)" "stored_str ''device_id'' tr' = None"
      "\<And>q. pending_from q tr' = q"
    by auto
  have open_ok: "e_err e (trace s @ [Lib ''nvs_flash_init'', Lib ''nvs_open'']) = ESP_OK"
    using flash_store.open_ok [OF fl, of "trace s @ [Lib ''nvs_flash_init'']"] by simp
  have run: "core_init e n s = bnd (setup_device_id e ?cs (replicate 37 NUL)) (\<lambda>_.
      andthen (setup_serial_num e ?cs n) (andthen (call (Lib ''nvs_commit''))
      (andthen (call (Lib ''nvs_close'')) (ret ?cs)))) t"
    using mem open_ok
    by (simp add: core_init_def core_setup_def prog_simps strdup_str_def Let_def nvs_init_ok [OF fl] t_def
        fun_upd_twist split: sum.splits)
  define v where "v = u\<lparr>trace := trace u @ tr' @ [Lib ''nvs_commit'', Lib ''nvs_close'']\<rparr>"
  have "core_init e n s = Inr (?cs, v)"
    using num(1) unfolding run bnd_app id [folded u_def] by (simp add: prog_simps v_def)
  moreover have "booted s v n (new_id e t tr)"
    using new_id_ok [of e t tr] next_counter(2,3) [OF t(4)] num(2,3)
    by (simp add: booted_def tr pending_append v_def u_def t_def stored_str_append counter_ok_def fun_upd_twist)
  ultimately show ?thesis by blast
qed

text \<open>With an identifier in flash the read overruns the block.\<close>

lemma core_init_next:
  assumes fl: "flash_store e" and mem: "no_oom s" and old: "stored_str ''device_id'' (trace s) = Some x" "x \<noteq> []"
  shows "core_init e n s = Inl OutOfBounds"
proof -
  let ?tr = "trace s @ [Lib ''nvs_flash_init'', Lib ''nvs_open'']"
  have st: "stored_str ''device_id'' ?tr = Some x" using old by (simp add: stored_str_append)
  have "e_err e ?tr = ESP_OK"
    using flash_store.open_ok [OF fl, of "trace s @ [Lib ''nvs_flash_init'']"] by simp
  moreover have "e_err e (?tr @ [Lib ''nvs_get_str'']) = ESP_OK" "e_str e (?tr @ [Lib ''nvs_get_str'']) = x"
    using flash_store.get_str [OF fl, of ?tr] flash_store.get_str_value [OF fl st] st by simp_all
  ultimately show ?thesis
    using mem old(2) by (simp add: core_init_def core_setup_def prog_simps strdup_str_def Let_def
        nvs_init_ok [OF fl] setup_device_id_def write_str_def)
qed

text \<open>Boot, power cycle (the memory is cleared, the flash is kept), boot.\<close>

definition power_cycle :: "world \<Rightarrow> world" where
  "power_cycle s = start_world\<lparr>trace := trace s\<rparr>"

text \<open>C27. A node whose flash store works boots once: \<open>core_init\<close> after a power cycle reads the
  stored identifier into a block with room for the empty string only.\<close>

lemma core_boots_once:
  assumes fl: "flash_store e" and mem: "wf_mem s" "no_oom s" and cnt: "counter_ok s"
    and fresh: "stored_str ''device_id'' (trace s) = None"
  shows "\<exists>p s'. core_init e n s = Inr (p, s') \<and> core_init e n (power_cycle s') = Inl OutOfBounds"
proof -
  from core_init_first [OF assms] obtain s' x where
    "core_init e n s = Inr (Suc (brk s), s')" "booted s s' n x" by blast
  moreover from this have "core_init e n (power_cycle s') = Inl OutOfBounds"
    by (intro core_init_next [OF fl, of _ x])
      (simp_all add: power_cycle_def no_oom_def start_world_def booted_def)
  ultimately show ?thesis by blast
qed

text \<open>If flash cannot be opened there is no identifier: the empty string.\<close>

lemma core_init_no_flash:
  assumes mem: "wf_mem s" "no_oom s" and ok: "\<And>tr. e_err e (tr @ [Lib ''nvs_flash_init'']) = ESP_OK"
    and bad: "e_err e (trace s @ [Lib ''nvs_flash_init'', Lib ''nvs_open'']) \<noteq> ESP_OK"
  shows "\<exists>s'. core_init e n s = Inr (Suc (brk s), s')
    \<and> heap s' (Suc (brk s)) = Some (OCore \<lparr>cs_device_id = Suc (Suc (brk s)), cs_serial_num = n\<rparr>)
    \<and> heap s' (Suc (Suc (brk s))) = Some (OChars [NUL])"
  using assms by (simp add: core_init_def core_setup_def prog_simps strdup_str_def Let_def nvs_init_def)

text \<open>\<open>core_destroy\<close> releases what the core state points to; the block lost in \<open>core_setup\<close> stays.\<close>

lemma core_destroy_ok:
  assumes "heap s cs = Some (OCore c)" "cs \<noteq> 0" "heap s (cs_device_id c) = Some (OChars b)"
    and "cs_device_id c \<noteq> 0" "NUL \<in> set b"
  shows "core_destroy cs s = Inr ((), s\<lparr>heap := (heap s)(cs_device_id c := None, cs := None),
    total_mem_usage := total_mem_usage s - of_nat (length (c_str b) + 1) - 8\<rparr>)"
proof -
  have "cs \<noteq> cs_device_id c" using assms(1,3) by auto
  with assms show ?thesis by (simp add: core_destroy_def prog_simps)
qed

lemma core_init_destroy:
  assumes fl: "flash_store e" and mem: "wf_mem s" "no_oom s" and cnt: "counter_ok s"
    and fresh: "stored_str ''device_id'' (trace s) = None"
  shows "\<exists>p s' s''. core_init e n s = Inr (p, s') \<and> core_destroy p s' = Inr ((), s'')
    \<and> heap s'' = (heap s)(Suc (Suc (brk s)) := Some (OChars [NUL]))"
proof -
  let ?cs = "Suc (brk s)"
  from core_init_first [OF assms] obtain s' x where
    run: "core_init e n s = Inr (?cs, s')" and b: "booted s s' n x" by blast
  have h: "heap s' = (heap s)(?cs := Some (OCore \<lparr>cs_device_id = Suc (Suc ?cs), cs_serial_num = n\<rparr>),
        Suc ?cs := Some (OChars [NUL]), Suc (Suc ?cs) := Some (OChars (x @ [NUL])))"
    using b by (simp add: booted_def)
  have none: "heap s ?cs = None" "heap s (Suc (Suc ?cs)) = None" using mem(1) by (simp_all add: wf_mem_def)
  have "core_destroy ?cs s' = Inr ((), s'\<lparr>heap := (heap s')(Suc (Suc ?cs) := None, ?cs := None),
      total_mem_usage := total_mem_usage s' - of_nat (length (c_str (x @ [NUL])) + 1) - 8\<rparr>)"
    using core_destroy_ok [of s' ?cs "\<lparr>cs_device_id = Suc (Suc ?cs), cs_serial_num = n\<rparr>" "x @ [NUL]"]
    by (simp add: h)
  moreover have "(heap s')(Suc (Suc ?cs) := None, ?cs := None) = (heap s)(Suc ?cs := Some (OChars [NUL]))"
    using none by (auto simp: h fun_eq_iff)
  ultimately show ?thesis using run by (intro exI conjI) (assumption | simp)+
qed

section \<open>The identifier fits\<close>

text \<open>C26. \<open>discountflake\<close> always fits an identifier into the 37 characters it is given: it writes
  at most 11 and a terminator, moves the counter on modulo 64 and keeps it within 0 to 63.\<close>

lemma discountflake_fits:
  assumes cnt: "counter_ok s" and len: "length b = 37"
  shows "\<exists>x rc s'. discountflake e b s = Inr ((x @ NUL # drop (length x + 1) b, rc), s') \<and> is_cstr x
    \<and> length x \<le> 11 \<and> counter_ok s' \<and> sint (flake_counter s') = (sint (flake_counter s) + 1) mod 64"
proof -
  obtain sec usec rc where t: "e_time e (trace s @ [Lib ''gettimeofday'']) = (sec, usec, rc)"
    by (cases "e_time e (trace s @ [Lib ''gettimeofday''])")
  have "sint (next_counter s) = (sint (flake_counter s) + 1) mod 64"
    unfolding next_counter_def by (rule sint_of_int_word32) (simp_all add: pos_mod_sign)
  with discountflake_ok [OF assms t] next_counter(2,3) [OF cnt] is_cstr_dec_int dec_int_length show ?thesis
    by (fastforce simp: Let_def counter_ok_def)
qed

end
