(* ===== verification/System_Manager.thy ===== *)
theory System_Manager
  imports Core_State
begin

text \<open>
  The system manager (\<open>src/system_manager.c\<close>): bringing up the board and the Wi-Fi. Its event handler
  is a small state machine over \<open>s_retry_count\<close>; the events of the driver are an argument, in the
  order they arrive. \<open>xEventGroupWaitBits\<close> waits with \<open>portMAX_DELAY\<close>: when the events end without
  the bit set, it never returns (\<open>NoFuel\<close>).
\<close>

section \<open>The event handler\<close>

datatype event =
    WIFI_EVENT_STA_START
  | WIFI_EVENT_STA_DISCONNECTED
  | IP_EVENT_STA_GOT_IP
  | Other_event

abbreviation ESP_MAXIMUM_RETRY :: nat where "ESP_MAXIMUM_RETRY \<equiv> 5"

definition event_handler :: "event \<Rightarrow> unit c_prog" where
  "event_handler ev =
     (case ev of
        WIFI_EVENT_STA_START \<Rightarrow> call Wifi_connect
      | WIFI_EVENT_STA_DISCONNECTED \<Rightarrow>
          bnd (gets s_retry_count) (\<lambda>r.
          if sint r < int ESP_MAXIMUM_RETRY
          then andthen (call Wifi_connect) (modify (\<lambda>s. s\<lparr>s_retry_count := r + 1\<rparr>))
          else ret ())
      | IP_EVENT_STA_GOT_IP \<Rightarrow> andthen (call Wifi_up) (modify (\<lambda>s. s\<lparr>s_retry_count := 0\<rparr>))
      | Other_event \<Rightarrow> ret ())"

primrec handle_events :: "event list \<Rightarrow> unit c_prog" where
  "handle_events [] = ret ()"
| "handle_events (ev # evs) = andthen (event_handler ev) (handle_events evs)"

text \<open>The bit \<open>WIFI_CONNECTED_BIT\<close> of the event group: clear when it is created, set by the handler.\<close>

fun connected_bit :: "bool \<Rightarrow> ext_call list \<Rightarrow> bool" where
  "connected_bit b [] = b"
| "connected_bit b (Wifi_up # cs) = connected_bit True cs"
| "connected_bit b (Lib n # cs) = connected_bit (if n = ''xEventGroupCreate'' then False else b) cs"
| "connected_bit b (_ # cs) = connected_bit b cs"

lemma connected_bit_append: "connected_bit b (cs @ ds) = connected_bit (connected_bit b cs) ds"
  by (induction b cs rule: connected_bit.induct) auto

primrec wait_bits :: "event list \<Rightarrow> bool c_prog" where
  "wait_bits [] = bnd (ask (connected_bit False)) (\<lambda>b. if b then ret True else raise NoFuel)"
| "wait_bits (ev # evs) = bnd (ask (connected_bit False)) (\<lambda>b.
     if b then ret True else andthen (event_handler ev) (wait_bits evs))"

section \<open>The functions\<close>

definition zero_sysman :: system_manager_t where
  "zero_sysman = \<lparr>connection_attempts = 0, wifi_connection = False, wifi_any_event_handle = 0,
     got_ip_event_handle = 0\<rparr>"

definition system_manager_board_init :: "env \<Rightarrow> addr \<Rightarrow> unit c_prog" where
  "system_manager_board_init e sm = nvs_init e"

definition system_manager_init :: "env \<Rightarrow> addr c_prog" where
  "system_manager_init e =
     bnd (gets system_initialized) (\<lambda>b.
     andthen (check (\<not> b) AssertFailed)
     (bnd (calloc (OSysman zero_sysman) 16) (\<lambda>sm.
     andthen (update_sysman sm (\<lambda>m. m\<lparr>connection_attempts := 0, wifi_connection := False\<rparr>))
     (andthen (system_manager_board_init e sm)
     (andthen (modify (\<lambda>s. s\<lparr>system_initialized := True\<rparr>))
     (ret sm))))))"

definition system_manager_destroy :: "addr \<Rightarrow> bool c_prog" where
  "system_manager_destroy sm = (if sm = 0 then ret False else andthen (free_sized sm 16) (ret True))"

definition reset_system_manager :: "addr \<Rightarrow> unit c_prog" where
  "reset_system_manager sm = update_sysman sm (\<lambda>_. zero_sysman)"

definition checked :: "env \<Rightarrow> string \<Rightarrow> unit c_prog" where
  "checked e n = bnd (lib_err e n) esp_error_check"

definition system_manager_wifi_init :: "env \<Rightarrow> event list \<Rightarrow> addr \<Rightarrow> bool c_prog" where
  "system_manager_wifi_init e evs sm =
     andthen (call (Lib ''xEventGroupCreate''))
     (andthen (checked e ''esp_netif_init'')
     (andthen (checked e ''esp_event_loop_create_default'')
     (andthen (call (Lib ''esp_netif_create_default_wifi_sta''))
     (andthen (checked e ''esp_wifi_init'')
     (andthen (checked e ''esp_event_handler_instance_register'')
     (bnd (ask (e_handle e)) (\<lambda>h1.
     andthen (update_sysman sm (\<lambda>m. m\<lparr>wifi_any_event_handle := h1\<rparr>))
     (andthen (checked e ''esp_event_handler_instance_register'')
     (bnd (ask (e_handle e)) (\<lambda>h2.
     andthen (update_sysman sm (\<lambda>m. m\<lparr>got_ip_event_handle := h2\<rparr>))
     (andthen (checked e ''esp_wifi_set_mode'')
     (andthen (checked e ''esp_wifi_set_config'')
     (andthen (checked e ''esp_wifi_start'')
     (bnd (wait_bits evs) (\<lambda>bits.
     andthen (if bits then modify (\<lambda>s. s\<lparr>s_is_wifi_connected := True\<rparr>) else ret ())
     (bnd (load as_sysman sm) (\<lambda>m.
     andthen (checked e ''esp_event_handler_instance_unregister'')
     (andthen (checked e ''esp_event_handler_instance_unregister'')
     (andthen (call (Lib ''vEventGroupDelete''))
     (gets s_is_wifi_connected))))))))))))))))))))"

lemma checked_app [prog_simps]:
  "checked e n s = (if e_err e (trace s @ [Lib n]) = ESP_OK
     then Inr ((), s\<lparr>trace := trace s @ [Lib n]\<rparr>) else Inl AssertFailed)"
  by (simp add: checked_def prog_simps)

section \<open>Retries\<close>

definition retry_ok :: "world \<Rightarrow> bool" where
  "retry_ok s \<longleftrightarrow> 0 \<le> sint (s_retry_count s) \<and> sint (s_retry_count s) \<le> int ESP_MAXIMUM_RETRY"

text \<open>What one event does.\<close>

definition after_event :: "event \<Rightarrow> world \<Rightarrow> world" where
  "after_event ev s = (case ev of
     WIFI_EVENT_STA_START \<Rightarrow> s\<lparr>trace := trace s @ [Wifi_connect]\<rparr>
   | WIFI_EVENT_STA_DISCONNECTED \<Rightarrow> (if sint (s_retry_count s) < int ESP_MAXIMUM_RETRY
       then s\<lparr>trace := trace s @ [Wifi_connect], s_retry_count := s_retry_count s + 1\<rparr> else s)
   | IP_EVENT_STA_GOT_IP \<Rightarrow> s\<lparr>trace := trace s @ [Wifi_up], s_retry_count := 0\<rparr>
   | Other_event \<Rightarrow> s)"

lemma event_handler_ok [prog_simps]: "event_handler ev s = Inr ((), after_event ev s)"
  by (cases ev) (simp_all add: event_handler_def after_event_def prog_simps)

lemma handle_events_ok: "handle_events evs s = Inr ((), fold after_event evs s)"
  by (induction evs arbitrary: s) (simp_all add: prog_simps)

lemma sint_retry_Suc: "retry_ok s \<Longrightarrow> sint (s_retry_count s + 1) = sint (s_retry_count s) + 1"
proof -
  assume r: "retry_ok s"
  have "s_retry_count s + 1 = of_int (sint (s_retry_count s) + 1)" by simp
  moreover have "sint (of_int (sint (s_retry_count s) + 1) :: i32) = sint (s_retry_count s) + 1"
    by (rule sint_of_int_word32) (use r in \<open>simp_all add: retry_ok_def\<close>)
  ultimately show ?thesis by (simp only:)
qed

lemma after_event_retry: "retry_ok s \<Longrightarrow> retry_ok (after_event ev s)"
  using sint_retry_Suc [of s] by (cases ev) (auto simp: after_event_def retry_ok_def)

lemma handle_events_retry: "retry_ok s \<Longrightarrow> retry_ok (fold after_event evs s)"
  by (induction evs arbitrary: s) (simp_all add: after_event_retry)

text \<open>
  How often the driver is asked to connect while no address is obtained: once for each start, and for
  each disconnection as long as there are retries left.
\<close>

definition connects :: "world \<Rightarrow> nat" where
  "connects s = count_list (trace s) Wifi_connect"

definition retries_left :: "world \<Rightarrow> nat" where
  "retries_left s = ESP_MAXIMUM_RETRY - nat (sint (s_retry_count s))"

lemma connects_ok:
  assumes "retry_ok s" "IP_EVENT_STA_GOT_IP \<notin> set evs"
  shows "connects (fold after_event evs s) = connects s + count_list evs WIFI_EVENT_STA_START
    + min (count_list evs WIFI_EVENT_STA_DISCONNECTED) (retries_left s)"
  using assms
proof (induction evs arbitrary: s)
  case (Cons ev evs)
  have IH: "connects (fold after_event evs (after_event ev s)) = connects (after_event ev s)
    + count_list evs WIFI_EVENT_STA_START
    + min (count_list evs WIFI_EVENT_STA_DISCONNECTED) (retries_left (after_event ev s))"
    by (rule Cons.IH) (use Cons.prems after_event_retry in auto)
  show ?case
  proof (cases ev)
    case WIFI_EVENT_STA_DISCONNECTED
    show ?thesis
    proof (cases "sint (s_retry_count s) < int ESP_MAXIMUM_RETRY")
      case True
      with Cons.prems(1) have "retries_left s = Suc (retries_left (after_event ev s))"
        using sint_retry_Suc [OF Cons.prems(1)] WIFI_EVENT_STA_DISCONNECTED
        by (auto simp: retries_left_def after_event_def retry_ok_def)
      moreover have "connects (after_event ev s) = Suc (connects s)"
        using True WIFI_EVENT_STA_DISCONNECTED by (simp add: connects_def after_event_def)
      ultimately show ?thesis using IH WIFI_EVENT_STA_DISCONNECTED by simp
    next
      case False
      then have "after_event ev s = s" "retries_left s = 0"
        using WIFI_EVENT_STA_DISCONNECTED by (simp_all add: after_event_def retries_left_def)
      with IH WIFI_EVENT_STA_DISCONNECTED show ?thesis by simp
    qed
  next
    case WIFI_EVENT_STA_START
    then have "connects (after_event ev s) = Suc (connects s)" "retries_left (after_event ev s) = retries_left s"
      by (simp_all add: connects_def after_event_def retries_left_def)
    with IH WIFI_EVENT_STA_START show ?thesis by simp
  next
    case Other_event
    then have "after_event ev s = s" by (simp add: after_event_def)
    with IH Other_event show ?thesis by simp
  qed (use Cons.prems in simp)
qed (simp add: connects_def)

text \<open>C28. The event handler's retry counter stays between 0 and 5 whatever events arrive, and while no address
  is obtained the driver is asked to connect once for each start and at most as often again as retries are
  left.\<close>

lemma reconnects_bounded:
  assumes "retry_ok s"
  shows "\<exists>s'. handle_events evs s = Inr ((), s') \<and> retry_ok s'
    \<and> (IP_EVENT_STA_GOT_IP \<notin> set evs \<longrightarrow> connects s' = connects s + count_list evs WIFI_EVENT_STA_START
        + min (count_list evs WIFI_EVENT_STA_DISCONNECTED) (retries_left s))"
  using handle_events_ok handle_events_retry [OF assms] connects_ok [OF assms] by blast

section \<open>Waiting for the network\<close>

lemma after_event_bit:
  "connected_bit False (trace (after_event ev s)) =
    (ev = IP_EVENT_STA_GOT_IP \<or> connected_bit False (trace s))"
  by (cases ev) (auto simp: after_event_def connected_bit_append)

text \<open>The wait ends with the first address obtained, or never.\<close>

lemma wait_bits_ok:
  assumes "\<not> connected_bit False (trace s)"
  shows "wait_bits evs s = (if IP_EVENT_STA_GOT_IP \<in> set evs
    then Inr (True, fold after_event (takeWhile (\<lambda>ev. ev \<noteq> IP_EVENT_STA_GOT_IP) evs @ [IP_EVENT_STA_GOT_IP]) s)
    else Inl NoFuel)"
  using assms
proof (induction evs arbitrary: s)
  case Nil
  then show ?case by (simp add: prog_simps)
next
  case (Cons ev evs)
  show ?case
  proof (cases "ev = IP_EVENT_STA_GOT_IP")
    case True
    then have bit: "connected_bit False (trace (after_event ev s))" by (simp add: after_event_bit)
    have "wait_bits evs t = Inr (True, t)" if "connected_bit False (trace t)" for t
      using that by (cases evs) (simp_all add: prog_simps)
    with True bit Cons.prems show ?thesis by (simp add: prog_simps)
  next
    case False
    then have "\<not> connected_bit False (trace (after_event ev s))"
      using Cons.prems by (simp add: after_event_bit)
    from Cons.IH [OF this] False Cons.prems show ?thesis by (auto simp: prog_simps)
  qed
qed

lemma wait_bits_True: "wait_bits evs s = Inr (b, s') \<Longrightarrow> b"
  by (induction evs arbitrary: s) (auto simp: prog_simps split: if_splits)

text \<open>So \<open>system_manager_wifi_init\<close> has one result, if any.\<close>

definition yields :: "('a \<Rightarrow> bool) \<Rightarrow> 'a c_prog \<Rightarrow> bool" where
  "yields P m \<longleftrightarrow> (\<forall>s r s'. m s = Inr (r, s') \<longrightarrow> P r)"

lemma yields_bnd: "yields Q m \<Longrightarrow> (\<And>x. Q x \<Longrightarrow> yields P (f x)) \<Longrightarrow> yields P (bnd m f)"
  unfolding yields_def bnd_Inr_iff by blast

lemma yields_andthen: "yields P n \<Longrightarrow> yields P (andthen m n)"
  unfolding yields_def andthen_Inr_iff by blast

lemma yields_any: "yields (\<lambda>_. True) m"
  by (simp add: yields_def)

lemma wifi_init_yields: "yields (\<lambda>b. b) (system_manager_wifi_init e evs sm)"
proof -
  have wait: "yields (\<lambda>b. b) (wait_bits evs)" using wait_bits_True by (auto simp: yields_def)
  have tail: "yields (\<lambda>b. b) (andthen (if x then modify (\<lambda>s. s\<lparr>s_is_wifi_connected := True\<rparr>) else ret ()) (bnd (load as_sysman sm) (\<lambda>m.
     andthen (checked e ''esp_event_handler_instance_unregister'')
     (andthen (checked e ''esp_event_handler_instance_unregister'')
     (andthen (call (Lib ''vEventGroupDelete'')) (gets s_is_wifi_connected))))))" if x for x
    using that by (auto simp: yields_def prog_simps load_app split: if_splits option.splits)
  show ?thesis
    unfolding system_manager_wifi_init_def
    by (rule tail | assumption | rule yields_bnd [OF wait] | rule yields_andthen | rule yields_bnd [OF yields_any])+
qed

text \<open>\<open>system_manager_wifi_init\<close> has no way to report that it failed: when it returns, it
  returns \<open>true\<close>.\<close>

lemma wifi_init_True: "system_manager_wifi_init e evs sm s \<noteq> Inr (False, s')"
  using wifi_init_yields [of e evs sm] by (auto simp: yields_def)

lemma after_event_same:
  "heap (after_event ev s) = heap s" "brk (after_event ev s) = brk s" "oom (after_event ev s) = oom s"
  "total_mem_usage (after_event ev s) = total_mem_usage s" "global_tboard (after_event ev s) = global_tboard s"
  "system_initialized (after_event ev s) = system_initialized s" "flake_counter (after_event ev s) = flake_counter s"
  by (cases ev; simp add: after_event_def)+

lemma events_same:
  "heap (fold after_event evs s) = heap s" "brk (fold after_event evs s) = brk s"
  "oom (fold after_event evs s) = oom s" "global_tboard (fold after_event evs s) = global_tboard s"
  "system_initialized (fold after_event evs s) = system_initialized s"
  "flake_counter (fold after_event evs s) = flake_counter s"
  by (induction evs arbitrary: s) (simp_all add: after_event_same)

lemma after_event_stored: "stored_str k (trace (after_event ev s)) = stored_str k (trace s)"
  by (cases ev) (simp_all add: after_event_def stored_str_append)

lemma events_stored: "stored_str k (trace (fold after_event evs s)) = stored_str k (trace s)"
  by (induction evs arbitrary: s) (simp_all add: after_event_stored)

lemma after_event_pending: "pending_from q (trace (after_event ev s)) = pending_from q (trace s)"
  by (cases ev) (simp_all add: after_event_def pending_append)

lemma events_pending: "pending_from q (trace (fold after_event evs s)) = pending_from q (trace s)"
  by (induction evs arbitrary: s) (simp_all add: after_event_pending)

text \<open>
  With a driver that answers, it returns once an address is obtained, and never otherwise. The two
  reads of the flash store are not among the driver's calls.
\<close>

definition driver_ok :: "env \<Rightarrow> bool" where
  "driver_ok e \<longleftrightarrow> (\<forall>n tr. n \<notin> {''nvs_get_str'', ''nvs_get_i32''} \<longrightarrow> e_err e (tr @ [Lib n]) = ESP_OK)"

lemma driver_okD [simp]:
  assumes "driver_ok e" "last (x # xs) = Lib n" "n \<noteq> ''nvs_get_str''" "n \<noteq> ''nvs_get_i32''"
  shows "e_err e (tr @ x # xs) = ESP_OK"
proof -
  have "e_err e ((tr @ butlast (x # xs)) @ [Lib n]) = ESP_OK"
    using assms(1,3,4) unfolding driver_ok_def by blast
  moreover have "(tr @ butlast (x # xs)) @ [Lib n] = tr @ x # xs"
    using append_butlast_last_id [of "x # xs"] assms(2) by simp
  ultimately show ?thesis by (simp only:)
qed

lemma wifi_init_ok:
  assumes ok: "driver_ok e" and sm: "heap s sm = Some (OSysman m)" and up: "IP_EVENT_STA_GOT_IP \<in> set evs"
  shows "\<exists>s' m'. system_manager_wifi_init e evs sm s = Inr (True, s') \<and> heap s' = (heap s)(sm := Some (OSysman m'))
    \<and> brk s' = brk s \<and> oom s' = oom s \<and> global_tboard s' = global_tboard s
    \<and> system_initialized s' = system_initialized s \<and> flake_counter s' = flake_counter s \<and> s_is_wifi_connected s'
    \<and> (\<forall>k. stored_str k (trace s') = stored_str k (trace s))
    \<and> pending (trace s') = pending (trace s)"
  using assms
  by (simp add: system_manager_wifi_init_def prog_simps wait_bits_ok connected_bit_append events_same
      after_event_same events_stored after_event_stored stored_str_append
      events_pending after_event_pending pending_append) (rule exI, rule refl)

lemma wifi_init_blocks:
  assumes "driver_ok e" "heap s sm = Some (OSysman m)" "IP_EVENT_STA_GOT_IP \<notin> set evs"
  shows "system_manager_wifi_init e evs sm s = Inl NoFuel"
  using assms by (simp add: system_manager_wifi_init_def prog_simps wait_bits_ok connected_bit_append)

text \<open>C29. \<open>system_manager_wifi_init\<close> returns exactly if an address is obtained; with events that
  never bring one it waits for ever.\<close>

lemma wifi_init_returns:
  assumes "driver_ok e" "heap s sm = Some (OSysman m)"
  shows "(\<exists>s'. system_manager_wifi_init e evs sm s = Inr (True, s')) \<longleftrightarrow> IP_EVENT_STA_GOT_IP \<in> set evs"
  using wifi_init_ok [OF assms] wifi_init_blocks [OF assms] by force

section \<open>Initialised once\<close>

lemma system_manager_init_ok:
  assumes "no_oom s" "wf_mem s" "\<not> system_initialized s" "\<And>tr. e_err e (tr @ [Lib ''nvs_flash_init'']) = ESP_OK"
  shows "system_manager_init e s = Inr (Suc (brk s), s\<lparr>brk := Suc (brk s),
    heap := (heap s)(Suc (brk s) := Some (OSysman zero_sysman)), total_mem_usage := total_mem_usage s + 16,
    trace := trace s @ [Lib ''nvs_flash_init''], system_initialized := True\<rparr>)"
  using assms by (simp add: system_manager_init_def system_manager_board_init_def nvs_init_def prog_simps
      zero_sysman_def)

lemma system_manager_init_again:
  "system_initialized s \<Longrightarrow> system_manager_init e s = Inl AssertFailed"
  by (simp add: system_manager_init_def prog_simps)

text \<open>The flag is never cleared: after \<open>system_manager_destroy\<close> there is no second initialisation.\<close>

lemma system_manager_no_restart:
  assumes "system_manager_init e s = Inr (sm, s')" "system_manager_destroy sm s' = Inr (b, s'')"
  shows "system_manager_init e s'' = Inl AssertFailed"
proof (rule system_manager_init_again)
  have "system_initialized s'"
    using assms(1) by (auto simp: system_manager_init_def bnd_Inr_iff andthen_Inr_iff modify_app ret_app)
  with assms(2) show "system_initialized s''"
    by (auto simp: system_manager_destroy_def free_sized_def free_raw_def deref_def prog_simps
        bnd_Inr_iff andthen_Inr_iff split: if_splits option.splits)
qed

end
