(* ===== verification/Cnode_Life.thy ===== *)
theory Cnode_Life
  imports Cnode System_Manager
begin

text \<open>
  The life of a node (\<open>cnode_init\<close>, \<open>cnode_start\<close>, \<open>cnode_stop\<close> and \<open>cnode_destroy\<close> of
  \<open>src/cnode.c\<close>): it brings up the system manager, the Wi-Fi, the board, the core and the queue, then
  the session, the two publishers, the subscriber and the processing task. The lemmas show the node
  that a first boot leaves, that there is no second one, what a failing allocation of the board does,
  which of the node's objects \<open>cnode_destroy\<close> forgets, and the result of \<open>cnode_start\<close> for every
  answer of the library.
\<close>

section \<open>The functions\<close>

definition zero_cnode :: cnode_t where
  "zero_cnode = \<lparr>cn_tboard = 0, cn_system_manager = 0, cn_node_id = 0, cn_zenoh = 0,
     cn_zenoh_pub_reply = 0, cn_zenoh_pub_request = 0, cn_commandQueue = 0, cn_core_state = 0,
     cn_initialized = False, cn_message_received = False\<rparr>"

definition cnode_destroy :: "env \<Rightarrow> addr \<Rightarrow> unit c_prog" where
  "cnode_destroy e cn =
     (if cn = 0 then ret ()
      else bnd (load as_cnode cn) (\<lambda>n.
        andthen (if cn_system_manager n \<noteq> 0 then andthen (system_manager_destroy (cn_system_manager n)) (ret ())
          else ret ())
        (andthen (if cn_core_state n \<noteq> 0 then core_destroy (cn_core_state n) else ret ())
        (andthen (if cn_zenoh_pub_reply n \<noteq> 0 then free_sized (cn_zenoh_pub_reply n) (sz_pub e) else ret ())
        (andthen (if cn_zenoh_pub_request n \<noteq> 0 then free_sized (cn_zenoh_pub_request n) (sz_pub e) else ret ())
        (andthen (if cn_zenoh n \<noteq> 0 then zenoh_destroy e (cn_zenoh n) else ret ())
        (andthen (if cn_commandQueue n \<noteq> 0 then call (Lib ''vQueueDelete'') else ret ())
        (free_sized cn 36))))))))"

text \<open>
  \<open>cnode_init\<close>, cut at its early returns. Where the board could not be created, the source destroys
  the node and goes on with it.
\<close>

definition init_queue :: "env \<Rightarrow> addr \<Rightarrow> addr c_prog" where
  "init_queue e cn =
     andthen (call (Lib ''xQueueCreate''))
     (bnd (ask (e_handle e)) (\<lambda>q.
     andthen (update_cnode cn (\<lambda>n. n\<lparr>cn_commandQueue := q\<rparr>))
     (if q = 0 then andthen (cnode_destroy e cn) (ret 0)
      else andthen (update_cnode cn (\<lambda>n. n\<lparr>cn_initialized := True\<rparr>)) (ret cn))))"

definition init_core :: "env \<Rightarrow> addr \<Rightarrow> addr c_prog" where
  "init_core e cn =
     bnd (core_init e 0) (\<lambda>cs.
     andthen (update_cnode cn (\<lambda>n. n\<lparr>cn_core_state := cs\<rparr>))
     (if cs = 0 then andthen (cnode_destroy e cn) (ret 0)
      else bnd (load as_core cs) (\<lambda>c.
        andthen (update_cnode cn (\<lambda>n. n\<lparr>cn_node_id := cs_device_id c\<rparr>))
        (init_queue e cn))))"

definition init_board :: "env \<Rightarrow> addr \<Rightarrow> addr c_prog" where
  "init_board e cn =
     bnd (tboard_create (sz_tboard e)) (\<lambda>tb.
     andthen (update_cnode cn (\<lambda>n. n\<lparr>cn_tboard := tb\<rparr>))
     (andthen (if tb = 0 then cnode_destroy e cn else ret ())
     (init_core e cn)))"

definition cnode_init :: "env \<Rightarrow> event list \<Rightarrow> addr c_prog" where
  "cnode_init e evs =
     bnd (calloc (OCnode zero_cnode) 36) (\<lambda>cn.
     bnd (system_manager_init e) (\<lambda>sm.
     andthen (update_cnode cn (\<lambda>n. n\<lparr>cn_system_manager := sm\<rparr>))
     (if sm = 0 then andthen (cnode_destroy e cn) (ret 0)
      else bnd (system_manager_wifi_init e evs sm) (\<lambda>ok.
        if \<not> ok then andthen (cnode_destroy e cn) (ret 0)
        else init_board e cn))))"

definition cnode_start :: "env \<Rightarrow> addr \<Rightarrow> bool c_prog" where
  "cnode_start e cn =
     (if cn = 0 then ret False
      else bnd (load as_cnode cn) (\<lambda>n.
        if \<not> cn_initialized n then ret False
        else
          bnd (zenoh_init e) (\<lambda>z.
          andthen (update_cnode cn (\<lambda>n. n\<lparr>cn_zenoh := z\<rparr>))
          (if z = 0 then ret False
           else
             andthen (zenoh_start_read_task z)
             (andthen (zenoh_start_lease_task z)
             (bnd (calloc (OPub \<lparr>pub_keyexpr = []\<rparr>) (sz_pub e)) (\<lambda>p.
             andthen (update_cnode cn (\<lambda>n. n\<lparr>cn_zenoh_pub_reply := p\<rparr>))
             (bnd (calloc (OPub \<lparr>pub_keyexpr = []\<rparr>) (sz_pub e)) (\<lambda>r.
             andthen (update_cnode cn (\<lambda>n. n\<lparr>cn_zenoh_pub_request := r\<rparr>))
             (bnd (zenoh_declare_pub e z CNODE_REPLY_PUB_KEYEXPR p) (\<lambda>ok.
             if \<not> ok then ret False
             else bnd (zenoh_declare_pub e z CNODE_REQUEST_PUB_KEYEXPR r) (\<lambda>ok.
             if \<not> ok then ret False
             else bnd (zenoh_declare_sub e z CNODE_SUB_KEYEXPR) (\<lambda>ok.
             if \<not> ok then ret False
             else andthen (call (Rtos_task cn)) (ret True))))))))))))))"

text \<open>A call into zenoh-pico that stops something: the object it works on, its name, what follows.\<close>

definition stopping :: "env \<Rightarrow> unit c_prog \<Rightarrow> string \<Rightarrow> bool c_prog \<Rightarrow> bool c_prog" where
  "stopping e obj name rest =
     andthen obj (andthen (call (Lib name)) (bnd (ask (e_ok e)) (\<lambda>ok. if \<not> ok then ret False else rest)))"

definition cnode_stop :: "env \<Rightarrow> addr \<Rightarrow> bool c_prog" where
  "cnode_stop e cn =
     (if cn = 0 then ret False
      else bnd (load as_cnode cn) (\<lambda>n.
        if \<not> cn_initialized n then ret False
        else
          let session = load as_zenoh (cn_zenoh n);
              reply = bnd (load as_pub (cn_zenoh_pub_reply n)) (\<lambda>_. ret ());
              request = bnd (load as_pub (cn_zenoh_pub_request n)) (\<lambda>_. ret ()) in
          stopping e session ''zp_stop_read_task''
          (stopping e session ''zp_stop_lease_task''
          (stopping e session ''z_undeclare_subscriber''
          (stopping e reply ''z_undeclare_publisher''
          (stopping e request ''z_undeclare_publisher''
          (andthen session (andthen (call (Lib ''z_session_is_closed''))
          (bnd (ask (e_ok e)) (\<lambda>closed.
          andthen (if \<not> closed then andthen session (call (Lib ''z_session_drop'')) else ret ())
          (ret True)))))))))))"

section \<open>The first boot\<close>

text \<open>
  What \<open>cnode_init\<close> needs of the outside: a flash store without an identifier, a driver that answers,
  an address from the network and room for the queue.
\<close>

definition can_boot :: "env \<Rightarrow> event list \<Rightarrow> world \<Rightarrow> bool" where
  "can_boot e evs s \<longleftrightarrow> flash_store e \<and> driver_ok e \<and> IP_EVENT_STA_GOT_IP \<in> set evs
     \<and> (\<forall>tr. e_handle e (tr @ [Lib ''xQueueCreate'']) \<noteq> 0)
     \<and> wf_mem s \<and> no_oom s \<and> counter_ok s \<and> \<not> system_initialized s
     \<and> stored_str ''device_id'' (trace s) = None"

text \<open>The node: its struct, the five objects it points to, and the block that \<open>core_setup\<close> loses.\<close>

definition node_made :: "world \<Rightarrow> world \<Rightarrow> cnode_t \<Rightarrow> string \<Rightarrow> system_manager_t \<Rightarrow> bool" where
  "node_made s s' n x m \<longleftrightarrow>
     n = zero_cnode\<lparr>cn_system_manager := brk s + 2, cn_tboard := brk s + 3, cn_core_state := brk s + 4,
       cn_node_id := brk s + 6, cn_commandQueue := cn_commandQueue n, cn_initialized := True\<rparr>
     \<and> cn_commandQueue n \<noteq> 0 \<and> is_cstr x \<and> x \<noteq> []
     \<and> heap s' = (heap s)(brk s + 1 := Some (OCnode n), brk s + 2 := Some (OSysman m),
        brk s + 3 := Some (OTboard zero_tboard),
        brk s + 4 := Some (OCore \<lparr>cs_device_id = brk s + 6, cs_serial_num = 0\<rparr>),
        brk s + 5 := Some (OChars [NUL]), brk s + 6 := Some (OChars (x @ [NUL])))
     \<and> brk s' = brk s + 6 \<and> oom s' = oom s \<and> global_tboard s' = brk s + 3
     \<and> system_initialized s' \<and> stored_str ''device_id'' (trace s') = Some x
     \<and> pending (trace s') = pending (trace s)"

lemma init_queue_ok:
  assumes "heap s cn = Some (OCnode n)" "\<And>tr. e_handle e (tr @ [Lib ''xQueueCreate'']) \<noteq> 0"
  shows "init_queue e cn s = (let tr = trace s @ [Lib ''xQueueCreate''] in
    Inr (cn, s\<lparr>trace := tr, heap := (heap s)(cn := Some (OCnode (n\<lparr>cn_commandQueue := e_handle e tr,
      cn_initialized := True\<rparr>)))\<rparr>))"
  using assms(1) assms(2) [of "trace s"] by (simp add: init_queue_def prog_simps Let_def)

lemma tboard_create_ok:
  "no_oom s \<Longrightarrow> tboard_create sz s = Inr (Suc (brk s), s\<lparr>brk := Suc (brk s),
    heap := (heap s)(Suc (brk s) := Some (OTboard zero_tboard)),
    total_mem_usage := total_mem_usage s + sz, global_tboard := Suc (brk s)\<rparr>)"
  by (simp add: tboard_create_def zero_tboard_def prog_simps)

lemma cnode_init_ok:
  assumes "can_boot e evs s"
  shows "\<exists>s' n x m. cnode_init e evs s = Inr (brk s + 1, s') \<and> node_made s s' n x m"
proof -
  have a: "flash_store e" "driver_ok e" "IP_EVENT_STA_GOT_IP \<in> set evs" "wf_mem s" "no_oom s" "counter_ok s"
    "\<not> system_initialized s" "stored_str ''device_id'' (trace s) = None"
    and q: "\<And>tr. e_handle e (tr @ [Lib ''xQueueCreate'']) \<noteq> 0"
    using assms by (simp_all add: can_boot_def)
  let ?cn = "Suc (brk s)" and ?sm = "Suc (Suc (brk s))" and ?tb = "Suc (Suc (Suc (brk s)))"
  let ?cs = "Suc ?tb"
  let ?n1 = "zero_cnode\<lparr>cn_system_manager := ?sm\<rparr>"
  define s1 where "s1 = s\<lparr>brk := ?cn, heap := (heap s)(?cn := Some (OCnode zero_cnode)),
    total_mem_usage := total_mem_usage s + 36\<rparr>"
  have r1: "calloc (OCnode zero_cnode) 36 s = Inr (?cn, s1)" using a(5) by (simp add: s1_def prog_simps)
  have w1: "wf_mem s1" "no_oom s1" "\<not> system_initialized s1" "brk s1 = ?cn" "counter_ok s1"
    using a by (simp_all add: s1_def wf_mem_def counter_ok_def)
  define t1 where "t1 = s1\<lparr>brk := ?sm, heap := (heap s1)(?sm := Some (OSysman zero_sysman)),
    total_mem_usage := total_mem_usage s1 + 16, trace := trace s @ [Lib ''nvs_flash_init''], system_initialized := True\<rparr>"
  define s2 where "s2 = t1\<lparr>heap := (heap t1)(?cn := Some (OCnode ?n1))\<rparr>"
  have r2: "system_manager_init e s1 = Inr (?sm, t1)"
    using system_manager_init_ok [OF w1(2,1,3) flash_store.init_ok [OF a(1)]] w1(4)
    by (simp add: t1_def s1_def)
  have t1_heap: "heap t1 ?cn = Some (OCnode zero_cnode)" by (simp add: t1_def s1_def)
  have h2: "heap s2 ?sm = Some (OSysman zero_sysman)" by (simp add: s2_def t1_def)
  from wifi_init_ok [OF a(2) h2 a(3)] obtain s3 m where r3: "system_manager_wifi_init e evs ?sm s2 = Inr (True, s3)"
    and h3: "heap s3 = (heap s2)(?sm := Some (OSysman m))" "brk s3 = brk s2" "oom s3 = oom s2"
      "global_tboard s3 = global_tboard s2" "system_initialized s3 = system_initialized s2"
      "flake_counter s3 = flake_counter s2" "\<And>k. stored_str k (trace s3) = stored_str k (trace s2)"
      "pending (trace s3) = pending (trace s2)"
    by blast
  define t3 where "t3 = s3\<lparr>brk := ?tb, heap := (heap s3)(?tb := Some (OTboard zero_tboard)),
    total_mem_usage := total_mem_usage s3 + sz_tboard e, global_tboard := ?tb\<rparr>"
  define s4 where "s4 = t3\<lparr>heap := (heap t3)(?cn := Some (OCnode (?n1\<lparr>cn_tboard := ?tb\<rparr>)))\<rparr>"
  have w4: "wf_mem s4" "no_oom s4" "counter_ok s4" "stored_str ''device_id'' (trace s4) = None" "brk s4 = ?tb"
    using w1 a h3(2,3,6) h3(7) [of "''device_id''"]
    by (auto simp: s4_def t3_def h3(1) s2_def t1_def s1_def wf_mem_def no_oom_def counter_ok_def stored_str_append)
  have t3_heap: "heap t3 ?cn = Some (OCnode ?n1)" by (simp add: t3_def h3(1) s2_def)
  have "no_oom s3" "brk s3 = ?sm" using w4(2) h3(2) by (simp_all add: s4_def t3_def s2_def t1_def)
  then have r4: "init_board e ?cn s3 = init_core e ?cn s4"
    using tboard_create_ok [of s3 "sz_tboard e"] by (simp add: init_board_def prog_simps s4_def t3_def [symmetric] t3_heap)
  from core_init_first [OF a(1) w4(1-4), of 0] obtain s5 x where
    r5: "core_init e 0 s4 = Inr (?cs, s5)" and b: "booted s4 s5 0 x" by (auto simp: w4(5))
  let ?n2 = "?n1\<lparr>cn_tboard := ?tb, cn_core_state := ?cs, cn_node_id := Suc (Suc ?cs)\<rparr>"
  have h5: "heap s5 = (heap s4)(?cs := Some (OCore \<lparr>cs_device_id = Suc (Suc ?cs), cs_serial_num = 0\<rparr>),
      Suc ?cs := Some (OChars [NUL]), Suc (Suc ?cs) := Some (OChars (x @ [NUL])))"
    using b by (simp add: booted_def w4(5))
  define s6 where "s6 = s5\<lparr>heap := (heap s5)(?cn := Some (OCnode ?n2))\<rparr>"
  have r6: "init_core e ?cn s4 = init_queue e ?cn s6"
    using r5 by (simp add: init_core_def prog_simps h5 s4_def s6_def)
  define tr where "tr = trace s6 @ [Lib ''xQueueCreate'']"
  let ?n = "?n2\<lparr>cn_commandQueue := e_handle e tr, cn_initialized := True\<rparr>"
  define s7 where "s7 = s6\<lparr>trace := tr, heap := (heap s6)(?cn := Some (OCnode ?n))\<rparr>"
  have "init_queue e ?cn s6 = Inr (?cn, s7)"
    using init_queue_ok [of s6 ?cn ?n2 e] q by (simp add: s6_def s7_def Let_def tr_def)
  then have "cnode_init e evs s = Inr (brk s + 1, s7)"
    using r1 r2 r3 [unfolded s2_def] r4 r6 by (simp add: cnode_init_def prog_simps t1_heap)
  moreover have "node_made s s7 ?n x m"
    using b h3(5) q [of "trace s6"]
    by (auto simp: node_made_def s7_def s6_def h5 s4_def t3_def h3(1) s2_def t1_def s1_def booted_def w4(5) tr_def
        stored_str_append pending_append fun_eq_iff h3(3) h3(5) h3(8))
  ultimately show ?thesis by blast
qed

section \<open>Initialised once, and not destroyed\<close>

lemma cnode_init_again: "system_initialized s \<Longrightarrow> cnode_init e evs s = Inl AssertFailed"
  by (simp add: cnode_init_def prog_simps system_manager_init_again)

text \<open>
  A node that was never started is released with its core and its system manager; the board stays,
  and so does the lost block.
\<close>

lemma node_destroy_ok:
  assumes mem: "wf_mem s" and made: "node_made s s' n x m"
  shows "\<exists>s''. cnode_destroy e (brk s + 1) s' = Inr ((), s'')
    \<and> heap s'' = (heap s)(brk s + 3 := Some (OTboard zero_tboard), brk s + 5 := Some (OChars [NUL]))
    \<and> system_initialized s''"
proof -
  have n: "n = zero_cnode\<lparr>cn_system_manager := brk s + 2, cn_tboard := brk s + 3, cn_core_state := brk s + 4,
       cn_node_id := brk s + 6, cn_commandQueue := cn_commandQueue n, cn_initialized := True\<rparr>"
    and q: "cn_commandQueue n \<noteq> 0" and x: "is_cstr x"
    and h: "heap s' = (heap s)(brk s + 1 := Some (OCnode n), brk s + 2 := Some (OSysman m),
        brk s + 3 := Some (OTboard zero_tboard),
        brk s + 4 := Some (OCore \<lparr>cs_device_id = brk s + 6, cs_serial_num = 0\<rparr>),
        brk s + 5 := Some (OChars [NUL]), brk s + 6 := Some (OChars (x @ [NUL])))"
    and i: "system_initialized s'"
    using made unfolding node_made_def by blast+
  have ptrs: "cn_system_manager n = brk s + 2" "cn_core_state n = brk s + 4" "cn_zenoh_pub_reply n = 0"
    "cn_zenoh_pub_request n = 0" "cn_zenoh n = 0"
    by (subst n, simp add: zero_cnode_def)+
  have none: "heap s p = None" if "brk s < p" for p using mem that by (simp add: wf_mem_def)
  let ?t = "s'\<lparr>heap := (heap s')(brk s + 2 := None), total_mem_usage := total_mem_usage s' - 16\<rparr>"
  have sm: "system_manager_destroy (brk s + 2) s' = Inr (True, ?t)"
    by (simp add: system_manager_destroy_def prog_simps h)
  have core: "core_destroy (brk s + 4) ?t = Inr ((), ?t\<lparr>heap := (heap ?t)(brk s + 6 := None, brk s + 4 := None),
      total_mem_usage := total_mem_usage ?t - of_nat (length (c_str (x @ [NUL])) + 1) - 8\<rparr>)"
    using core_destroy_ok [of ?t "brk s + 4" "\<lparr>cs_device_id = brk s + 6, cs_serial_num = 0\<rparr>" "x @ [NUL]"]
    by (simp add: h)
  define u where "u = ?t\<lparr>heap := (heap ?t)(brk s + 6 := None, brk s + 4 := None),
      total_mem_usage := total_mem_usage ?t - of_nat (length (c_str (x @ [NUL])) + 1) - 8\<rparr>"
  have cn: "heap s' (brk s + 1) = Some (OCnode n)" "heap u (brk s + 1) = Some (OCnode n)" by (simp_all add: u_def h)
  define v where "v = u\<lparr>trace := trace u @ [Lib ''vQueueDelete''], heap := (heap u)(brk s + 1 := None),
      total_mem_usage := total_mem_usage u - 36\<rparr>"
  have "cnode_destroy e (brk s + 1) s' = Inr ((), v)"
    using cn ptrs q sm core [folded u_def] by (simp add: cnode_destroy_def prog_simps v_def)
  moreover have "heap v = (heap s)(brk s + 3 := Some (OTboard zero_tboard), brk s + 5 := Some (OChars [NUL]))"
    by (simp add: fun_eq_iff v_def u_def h none)
  moreover have "system_initialized v" by (simp add: v_def u_def i)
  ultimately show ?thesis by blast
qed

text \<open>C30. \<open>cnode_destroy\<close> of a node that was initialised releases the node, its system manager,
  its core and its identifier, but not the board nor the block that \<open>core_setup\<close> lost; and
  the node cannot be initialised again, as the system manager's flag stays set.\<close>

lemma cnode_init_destroy:
  assumes "can_boot e evs s"
  shows "\<exists>cn s' s''. cnode_init e evs s = Inr (cn, s') \<and> cnode_destroy e cn s' = Inr ((), s'')
    \<and> heap s'' = (heap s)(brk s + 3 := Some (OTboard zero_tboard), brk s + 5 := Some (OChars [NUL]))
    \<and> cnode_init e evs s'' = Inl AssertFailed"
proof -
  have mem: "wf_mem s" using assms by (simp add: can_boot_def)
  from cnode_init_ok [OF assms] obtain s' n x m where
    init: "cnode_init e evs s = Inr (brk s + 1, s')" "node_made s s' n x m" by blast
  from node_destroy_ok [OF mem init(2), of e] init(1) cnode_init_again show ?thesis by blast
qed

section \<open>No memory for the board\<close>

lemma freed_err:
  "keeps_freed p a \<Longrightarrow> keeps_freed p b \<Longrightarrow> keeps_freed p c \<Longrightarrow> keeps_freed p d \<Longrightarrow> keeps_freed p f \<Longrightarrow>
    keeps_freed p (case x of ESP_OK \<Rightarrow> a | ESP_ERR_NVS_NOT_FOUND \<Rightarrow> b | ESP_ERR_NVS_NO_FREE_PAGES \<Rightarrow> c
      | ESP_ERR_NVS_NEW_VERSION_FOUND \<Rightarrow> d | ESP_ERR_OTHER \<Rightarrow> f)"
  by (cases x) simp_all

lemma freed_core_init: "keeps_freed p (core_init e n)"
proof -
  have lib: "keeps_freed p (call x)" "keeps_freed p (ask g)" "keeps_freed p (lib_err e k)" for x g k
    unfolding lib_err_def call_def ask_def by (intro freed_intros freed_modify; simp)+
  have chk: "keeps_freed p (esp_error_check x)" for x unfolding esp_error_check_def by (intro freed_intros)
  have flk: "keeps_freed p (discountflake e b)" for b
    unfolding discountflake_def sprintf_to_def Let_def case_prod_beta
    by (intro freed_intros freed_modify lib) simp_all
  have nvs: "keeps_freed p (nvs_init e)"
    unfolding nvs_init_def by (intro freed_intros lib chk)
  have str: "keeps_freed p (write_str q v)" "keeps_freed p (print_str q)" for q v
    unfolding write_str_def print_str_def by (intro freed_intros)+
  have dev: "keeps_freed p (setup_device_id e q b)" for q b
    unfolding setup_device_id_def case_prod_beta
    by (intro freed_bnd freed_err lib freed_intros flk str)
  have ser: "keeps_freed p (setup_serial_num e q k)" for q k
    unfolding setup_serial_num_def
    by (intro freed_bnd freed_err lib freed_intros)
  show ?thesis
    unfolding core_init_def core_setup_def Let_def by (intro freed_intros lib nvs dev ser)
qed

text \<open>
  When the board cannot be allocated, \<open>cnode_init\<close> releases the node and carries on: whatever the
  rest does, it ends in a fault, never in a result.
\<close>

lemma init_core_freed:
  assumes "heap s cn = None" "cn \<le> brk s"
  shows "init_core e cn s \<noteq> Inr r"
proof
  assume "init_core e cn s = Inr r"
  then obtain cs t u where "core_init e 0 s = Inr (cs, t)" "update_cnode cn (\<lambda>n. n\<lparr>cn_core_state := cs\<rparr>) t = Inr u"
    by (auto simp: init_core_def bnd_Inr_iff andthen_Inr_iff)
  moreover from this(1) freed_core_init assms have "heap t cn = None" unfolding keeps_freed_def by blast
  ultimately show False by (simp add: prog_simps)
qed

text \<open>When there is no memory for the board, \<open>cnode_init\<close> destroys the node and goes on with
  it; whatever the rest does, it never returns.\<close>

lemma init_board_no_memory:
  assumes mem: "wf_mem s" and full: "oom s (brk s)" and cn: "heap s cn = Some (OCnode n)"
    and n: "n = zero_cnode\<lparr>cn_system_manager := sm\<rparr>" and sm: "heap s sm = Some (OSysman m)"
  shows "init_board e cn s \<noteq> Inr r"
proof -
  have ne: "cn \<noteq> 0" "sm \<noteq> 0" "cn \<le> brk s" "cn \<noteq> sm"
    using wf_memD [OF mem cn] wf_memD [OF mem sm] cn sm by auto
  let ?s = "s\<lparr>brk := Suc (brk s), total_mem_usage := total_mem_usage s + sz_tboard e\<rparr>"
  let ?u = "?s\<lparr>heap := (heap s)(sm := None, cn := None), total_mem_usage := total_mem_usage ?s - 16 - 36\<rparr>"
  have "tboard_create (sz_tboard e) s = Inr (0, ?s)"
    using full by (simp add: tboard_create_def prog_simps)
  moreover have "update_cnode cn (\<lambda>n. n\<lparr>cn_tboard := 0\<rparr>) ?s = Inr ((), ?s\<lparr>heap := (heap s)(cn := Some (OCnode n))\<rparr>)"
    using cn n by (simp add: prog_simps zero_cnode_def)
  moreover have "cnode_destroy e cn (?s\<lparr>heap := (heap s)(cn := Some (OCnode n))\<rparr>) = Inr ((), ?u)"
    using ne sm cn by (simp add: cnode_destroy_def system_manager_destroy_def prog_simps n zero_cnode_def fun_upd_twist)
  ultimately have "init_board e cn s = init_core e cn ?u"
    by (simp add: init_board_def prog_simps)
  moreover have "init_core e cn ?u \<noteq> Inr r" by (rule init_core_freed) (use ne in simp_all)
  ultimately show ?thesis by simp
qed

section \<open>Starting and stopping\<close>

text \<open>Every answer of the library: the node starts if all four are good, and stops at the first that is not.\<close>

abbreviation opened :: "ext_call list" where
  "opened \<equiv> [Lib ''z_config_default'', Lib ''zp_config_insert'', Lib ''zp_config_insert'', Lib ''z_open'']"

abbreviation declared :: "ext_call list" where
  "declared \<equiv> opened @ [Lib ''zp_start_read_task'', Lib ''zp_start_lease_task'', Z_pub CNODE_REPLY_PUB_KEYEXPR]"

definition started_node :: "world \<Rightarrow> cnode_t \<Rightarrow> cnode_t" where
  "started_node s n = n\<lparr>cn_zenoh := brk s + 1, cn_zenoh_pub_reply := brk s + 2, cn_zenoh_pub_request := brk s + 3\<rparr>"

lemma cnode_start_ok:
  fixes e :: env
  assumes mem: "wf_mem s" "no_oom s" and cn: "heap s cn = Some (OCnode n)" "cn_initialized n"
  defines "t0 \<equiv> trace s @ opened" and "t1 \<equiv> trace s @ declared"
  defines "t2 \<equiv> t1 @ [Z_pub CNODE_REQUEST_PUB_KEYEXPR]"
  defines "t3 \<equiv> t2 @ [Z_sub CNODE_SUB_KEYEXPR]"
  defines "good \<equiv> e_ok e t0 \<and> e_ok e t1 \<and> e_ok e t2 \<and> e_ok e t3"
  shows "\<exists>s'. cnode_start e cn s = Inr (good, s')
    \<and> trace s' = (if \<not> e_ok e t0 then t0 else if \<not> e_ok e t1 then t1 else if \<not> e_ok e t2 then t2
        else if \<not> e_ok e t3 then t3 else t3 @ [Rtos_task cn])
    \<and> (good \<longrightarrow> heap s' = (heap s)(cn := Some (OCnode (started_node s n)), brk s + 1 := Some OZenoh,
        brk s + 2 := Some (OPub \<lparr>pub_keyexpr = CNODE_REPLY_PUB_KEYEXPR\<rparr>),
        brk s + 3 := Some (OPub \<lparr>pub_keyexpr = CNODE_REQUEST_PUB_KEYEXPR\<rparr>))
      \<and> brk s' = brk s + 3 \<and> oom s' = oom s \<and> global_tboard s' = global_tboard s)"
proof -
  have ne: "cn \<noteq> 0" "cn \<le> brk s" using cn(1) mem(1) by (auto dest: wf_memD)
  note run = cnode_start_def zenoh_init_def zenoh_start_read_task_def zenoh_start_lease_task_def
    zenoh_declare_pub_def zenoh_declare_sub_def prog_simps
  consider "\<not> e_ok e t0" | "e_ok e t0" "\<not> e_ok e t1" | "e_ok e t0" "e_ok e t1" "\<not> e_ok e t2"
    | "e_ok e t0" "e_ok e t1" "e_ok e t2" "\<not> e_ok e t3" | "good" unfolding good_def by blast
  then show ?thesis
    by cases (use cn ne mem(2) in \<open>simp_all add: run t0_def t1_def t2_def t3_def good_def started_node_def\<close>,
        auto simp: fun_eq_iff)
qed

text \<open>\<open>cnode_stop\<close> of an initialised node that was not started follows a \<open>NULL\<close>
  pointer.\<close>

lemma cnode_stop_before_start:
  assumes "wf_mem s" "heap s cn = Some (OCnode n)" "cn_initialized n" "cn_zenoh n = 0"
  shows "cnode_stop e cn s = Inl NullDeref"
proof -
  have "cn \<noteq> 0" "heap s 0 = None" using assms(1) wf_memD [OF assms(1,2)] by (simp_all add: wf_mem_def)
  with assms show ?thesis by (simp add: cnode_stop_def stopping_def prog_simps bad_ptr_def Let_def)
qed

lemma cnode_stop_ok:
  assumes "heap s cn = Some (OCnode n)" "cn \<noteq> 0" "cn_initialized n" "heap s (cn_zenoh n) = Some OZenoh"
    and "heap s (cn_zenoh_pub_reply n) = Some (OPub p)" "heap s (cn_zenoh_pub_request n) = Some (OPub r)"
    and "\<And>tr x. e_ok e (tr @ [x])"
  shows "cnode_stop e cn s = Inr (True, s\<lparr>trace := trace s @ [Lib ''zp_stop_read_task'', Lib ''zp_stop_lease_task'',
    Lib ''z_undeclare_subscriber'', Lib ''z_undeclare_publisher'', Lib ''z_undeclare_publisher'',
    Lib ''z_session_is_closed'']\<rparr>)"
proof -
  have ok: "e_ok e (tr @ x # xs)" for tr x xs
    using assms(7) [of "tr @ butlast (x # xs)" "last (x # xs)"] append_butlast_last_id [of "x # xs"] by simp
  show ?thesis using assms(1-6) by (simp add: cnode_stop_def stopping_def prog_simps Let_def ok)
qed

end
