(* ===== verification/Cnode_Flow.thy ===== *)
theory Cnode_Flow
  imports Cnode
begin

text \<open>
  From a message to its reply: the subscriber's handler decodes what another node sent and queues the
  command; a round of the processing task takes it from the queue, starts the task and acknowledges.
  The queue obeys the laws of \<open>command_queue\<close>, the CBOR library those of \<open>cbor_codec\<close>.
\<close>

section \<open>What a change elsewhere keeps\<close>

text \<open>Every object but those of the nodes is as it was.\<close>

definition keeps_objs :: "world \<Rightarrow> world \<Rightarrow> bool" where
  "keeps_objs s s' \<longleftrightarrow> (\<forall>x ob. heap s x = Some ob \<longrightarrow> (\<forall>n. ob \<noteq> OCnode n) \<longrightarrow> heap s' x = Some ob)"

lemma keeps_objsD: "keeps_objs s s' \<Longrightarrow> heap s x = Some ob \<Longrightarrow> (\<And>n. ob \<noteq> OCnode n) \<Longrightarrow> heap s' x = Some ob"
  by (simp add: keeps_objs_def)

lemma task_ok_kept:
  assumes ok: "task_ok s p t" and wf: "wf_mem s'" and keep: "keeps_objs s s'"
  shows "task_ok s' p t" "slots s' t = slots s t"
proof -
  note t = task_okD [OF ok]
  have "heap s' y = heap s y" if "inst_ok s p x" "y \<in> set (inst_ptrs s x)" for x y
    using inst_ptrs_objs [OF that] keeps_objsD [OF keep, of y] by auto
  moreover have "heap s' p = heap s p" using keeps_objsD [OF keep t(2)] t(2) by simp
  ultimately show "task_ok s' p t" "slots s' t = slots s t" using task_ok_cong [OF ok wf] by blast+
qed

lemma tboard_ok_kept:
  assumes ok: "tboard_ok s b tb" and wf: "wf_mem s'" and keep: "keeps_objs s s'"
  shows "tboard_ok s' b tb" "task_map s' tb = task_map s tb"
proof -
  note b = tboard_okD [OF ok]
  have tasks: "\<exists>t. heap s p = Some (OTask t) \<and> heap s' p = Some (OTask t)" if "p \<in> set (tb_tasks tb)" "p \<noteq> 0" for p
    using b(4) [OF that] keeps_objsD [OF keep, of p] by auto
  have names: "name_of s' p = name_of s p" if "p \<in> set (tb_tasks tb)" for p
    using tasks [OF that] name_of_null [OF b(1)] name_of_null [OF wf]
    by (cases "p = 0") (auto simp: name_of_def)
  show "tboard_ok s' b tb"
    using b(3) wf keeps_objsD [OF keep b(2)] tasks unfolding tboard_ok_def by auto
  show "task_map s' tb = task_map s tb"
  proof (rule ext)
    fix m
    have "first_idx (\<lambda>p. name_of s' p = Some m) (tb_tasks tb) = first_idx (\<lambda>p. name_of s p = Some m) (tb_tasks tb)"
      by (rule first_idx_cong) (simp add: names)
    then show "task_map s' tb m = task_map s tb m" by (simp only: task_map_def)
  qed
qed

section \<open>The command decoded\<close>

lemma terminated_set_field: "terminated c \<Longrightarrow> wf_cmd c \<Longrightarrow> field_ok k x \<Longrightarrow> terminated (set_field ud k x c)"
proof -
  assume c: "terminated c" "wf_cmd c" and k: "field_ok k x"
  have "NUL \<in> set (opt_text b x)" if "b \<noteq> []" for b
  proof (cases x)
    case (IText y)
    then show ?thesis by (simp add: opt_text_def put_text_def)
  qed (use that in \<open>auto simp: opt_text_def intro!: set_update_memI\<close>)
  moreover have "c_fn_name c \<noteq> []" "c_node_id c \<noteq> []" "c_fn_argsig c \<noteq> []" using c(2) by (auto simp: wf_cmd_def)
  ultimately show ?thesis using c(1) by (simp add: terminated_def set_field_def)
qed

lemma terminated_set_fields:
  "terminated c \<Longrightarrow> wf_cmd c \<Longrightarrow> list_all (\<lambda>(k, x). field_ok k x) kvs \<Longrightarrow> terminated (set_fields ud kvs c)"
  by (induction kvs arbitrary: c) (auto simp: set_fields_def terminated_set_field wf_cmd_set_field)

lemma decoded_terminated:
  assumes "names_fit fn node sig" "wf_cmd c" "terminated c"
  shows "terminated (decoded ud (cmd_fields cmd sub fn tid node sig) [] c q n)"
  using terminated_set_fields [OF assms(3,2) field_ok_cmd [OF assms(1)]]
  by (simp add: decoded_def terminated_def set_fields_def)

section \<open>The handler\<close>

text \<open>The subscriber, which also receives what the node publishes, ignores the node's own messages:
  nothing is decoded and no state changes.\<close>

lemma data_handler_own:
  assumes "NUL \<in> set key" "starts CNODE_REPLY_PUB_KEYEXPR (c_str key) \<or> starts CNODE_REQUEST_PUB_KEYEXPR (c_str key)"
  shows "cnode_data_handler e P fuel l cn key payload s = Inr ((), s)"
  using assms by (simp add: cnode_data_handler_def is_own_message_ok prog_simps)

definition foreign_key :: "char list \<Rightarrow> bool" where
  "foreign_key key \<longleftrightarrow> NUL \<in> set key \<and> \<not> starts CNODE_REPLY_PUB_KEYEXPR (c_str key)
     \<and> \<not> starts CNODE_REQUEST_PUB_KEYEXPR (c_str key)"

text \<open>An empty message is not decoded at all.\<close>

lemma data_handler_empty:
  assumes "foreign_key key" "heap s cn = Some (OCnode n)"
  shows "cnode_data_handler e P fuel l cn key [] s =
    Inr ((), s\<lparr>heap := (heap s)(cn := Some (OCnode (n\<lparr>cn_message_received := True\<rparr>)))\<rparr>)"
  using assms by (simp add: cnode_data_handler_def is_own_message_ok foreign_key_def
      cnode_process_received_cmd_def prog_simps)

text \<open>C24. A message of more than 1024 bytes is copied past the end of the command's buffer.\<close>

lemma data_handler_long:
  assumes "foreign_key key" "cn \<noteq> 0" "1024 < length payload" "length payload < 2 ^ 31" "no_oom s"
  shows "cnode_data_handler e P fuel l cn key payload s = Inl OutOfBounds"
proof -
  have "unat (of_nat (length payload) :: u32) = length payload" using assms(4) by simp
  then have "(of_nat (length payload) :: u32) \<noteq> 0" using assms(3) by (metis not_less_zero unat_0)
  with assms show ?thesis
    by (simp add: cnode_data_handler_def is_own_message_ok foreign_key_def
        cnode_process_received_cmd_def command_from_data_def zero_command_def prog_simps)
qed

text \<open>What the handler leaves of a message that fits: the command in the queue, or nothing.\<close>

definition marked :: "world \<Rightarrow> addr \<Rightarrow> cnode_t \<Rightarrow> ext_call \<Rightarrow> world" where
  "marked s cn n x = s\<lparr>heap := (heap s)(cn := Some (OCnode (n\<lparr>cn_message_received := True\<rparr>))), trace := trace s @ [x]\<rparr>"

definition dropped :: "world \<Rightarrow> world \<Rightarrow> addr \<Rightarrow> cnode_t \<Rightarrow> addr \<Rightarrow> bool" where
  "dropped s s' cn n p \<longleftrightarrow> heap s' = (heap s)(cn := Some (OCnode (n\<lparr>cn_message_received := True\<rparr>)))
     \<and> trace s' = trace s @ [Q_full p] \<and> wf_mem s' \<and> no_oom s' \<and> global_tboard s' = global_tboard s"

lemma data_handler_ok:
  assumes cb: "cbor_codec E P bytes view" and key: "foreign_key key" and cn: "heap s cn = Some (OCnode n)"
    and names: "names_fit fn node sig" and vs: "list_all sendable vs" "length vs < 2 ^ 28"
    and fits: "length (bytes (cmd_item cmd sub fn tid node sig vs)) \<le> 1024" "bytes (cmd_item cmd sub fn tid node sig vs) \<noteq> []"
    and s: "wf_mem s" "no_oom s" and l: "wf_locals l" and fuel: "7 < fuel" "length vs < fuel"
  shows "\<exists>p s1 c ds. created s s1 p c ds (map received vs)
    \<and> says c cmd sub fn (scast (ucast tid :: i32)) node sig \<and> c_refcount c = 1 \<and> terminated c
    \<and> (e_room e (trace s) \<longrightarrow> cnode_data_handler e P fuel l cn key (bytes (cmd_item cmd sub fn tid node sig vs)) s
        = Inr ((), marked s1 cn n (Q_send p)))
    \<and> (\<not> e_room e (trace s) \<longrightarrow> (\<exists>s'. cnode_data_handler e P fuel l cn key (bytes (cmd_item cmd sub fn tid node sig vs)) s
        = Inr ((), s') \<and> dropped s s' cn n p))"
proof -
  let ?t = "cmd_item cmd sub fn tid node sig vs" and ?len = "of_nat (length (bytes (cmd_item cmd sub fn tid node sig vs))) :: u32"
  have fu: "length (cmd_fields cmd sub fn tid node sig) + length ([] :: (string \<times> item) list) + 1 < fuel"
    using fuel(1) by (simp add: cmd_fields_def)
  define c0 where "c0 = zero_command\<lparr>c_buffer := bytes ?t @ drop (length (bytes ?t)) (c_buffer zero_command),
         c_length := of_nat (length (bytes ?t))\<rparr>"
  have c0: "wf_cmd c0" "terminated c0"
    using fits(1) by (simp_all add: c0_def zero_command_def wf_cmd_def terminated_def)
  from cbor_codec.command_from_data_ok [OF cb cmd_item_message wf_cmd_item [OF names vs] fits(1) _ field_ok_cmd [OF names] _
      item_vals_argv [OF vs(1)] _ s l fu, of "bytes ?t"] vs fuel(2) sendable_length [OF vs(1)]
  obtain p s1 q ds where d: "command_from_data P fuel l (bytes ?t) ?len s = Inr (p, s1)"
    "created s s1 p (decoded (u64_of_double P) (cmd_fields cmd sub fn tid node sig) [] c0 q (cmd_id s)) ds (map received vs)"
    by (auto simp: c0_def)
  let ?c = "decoded (u64_of_double P) (cmd_fields cmd sub fn tid node sig) [] c0 q (cmd_id s)"
  have p: "p \<noteq> 0" "cmd_at s1 p ?c ds (map received vs)" "extends s (s1\<lparr>cmd_id := cmd_id s\<rparr>)"
    using d(2) unfolding created_def cmd_at_def by blast+
  have cn1: "heap s1 cn = Some (OCnode n)" "cn \<noteq> 0" using created_live [OF d(2) s(1) cn] s(1) cn by (auto dest: wf_memD)
  have tr: "trace s1 = trace s" and wf1: "wf_mem s1" using p(3) d(2) by (simp_all add: grows_def created_def)
  have "unat ?len = length (bytes ?t)" using fits(1) by simp
  then have len: "?len \<noteq> 0" using fits(2) by (metis length_0_conv unat_0)
  have rc: "c_refcount ?c = 1" by (simp add: decoded_def)
  have room: "cnode_data_handler e P fuel l cn key (bytes ?t) s = Inr ((), marked s1 cn n (Q_send p))" if "e_room e (trace s)"
    using that key cn1 d(1) len p(1) tr
    by (simp add: cnode_data_handler_def is_own_message_ok foreign_key_def marked_def
        cnode_process_received_cmd_def prog_simps)
  have full: "\<exists>s'. cnode_data_handler e P fuel l cn key (bytes ?t) s = Inr ((), s') \<and> dropped s s' cn n p"
    if "\<not> e_room e (trace s)"
  proof -
    let ?m = "marked s1 cn n (Q_full p)"
    have notcn: "cn \<notin> set (cmd_ptrs p ?c ds)" using cmd_at_owned_live [OF p(2), of cn] cn1 by auto
    have "cmd_at ?m p ?c ds (map received vs)"
      by (rule cmd_at_cong [OF p(2)]) (use notcn in \<open>auto simp: marked_def\<close>)
    from command_free_last [OF this] rc obtain u where
      "command_free p ?m = Inr ((), released (set (cmd_ptrs p ?c ds)) u ?m)" by (auto simp: word_sless_alt)
    then have "cnode_data_handler e P fuel l cn key (bytes ?t) s = Inr ((), released (set (cmd_ptrs p ?c ds)) u ?m)"
      using that key cn1 d(1) len p(1) tr
      by (simp add: cnode_data_handler_def is_own_message_ok foreign_key_def marked_def
          cnode_process_received_cmd_def prog_simps)
    moreover have "heap (released (set (cmd_ptrs p ?c ds)) u ?m) x
        = ((heap s)(cn := Some (OCnode (n\<lparr>cn_message_received := True\<rparr>)))) x" for x
      using notcn fun_cong [OF created_released [OF d(2) s(1), of 0], of x] by (auto simp: marked_def split: if_splits)
    then have "heap (released (set (cmd_ptrs p ?c ds)) u ?m) = (heap s)(cn := Some (OCnode (n\<lparr>cn_message_received := True\<rparr>)))"
      by (rule ext)
    moreover have "wf_mem (released (set (cmd_ptrs p ?c ds)) u ?m)"
      using wf_mem_store [OF wf1 cn1(1)] by (simp add: wf_mem_def marked_def)
    ultimately show ?thesis
      using tr p(3) s(2) by (auto simp: dropped_def marked_def grows_def no_oom_def)
  qed
  show ?thesis
    using d(2) decoded_says [OF names] rc decoded_terminated [OF names c0] room full by blast
qed

section \<open>A request from the network\<close>

fun val_type :: "argv \<Rightarrow> argtype_t" where
  "val_type VNull = NULL_TYPE" | "val_type (VInt _) = INT_TYPE" | "val_type (VLong _) = LONG_TYPE"
| "val_type (VDouble _) = DOUBLE_TYPE" | "val_type (VStr _) = STRING_TYPE" | "val_type VVoid = VOID_TYPE"

lemma arg_view_type: "arg_view s a = Some v \<Longrightarrow> arg_type a = val_type v"
  by (auto simp: arg_view_def split: argtype_t.splits)

lemma args_fit_vals:
  assumes at: "args_at s a ds vs" and sig: "map char_to_argtype sig = map val_type vs" "length sig < 20"
  shows "args_fit sig ds"
proof -
  have len: "length sig = length ds"
    using arg_cong [OF sig(1), of length] args_at_length [OF at] by simp
  have n0: "nargs (ds ! 0) = of_nat (length ds)"
    using args_at_nth(2) [OF at, of 0] args_at_bounds [OF at] by simp
  have "arg_fits sig ds i" if "i < length sig" for i
  proof -
    have "char_to_argtype (sig ! i) = val_type (vs ! i)"
      using arg_cong [OF sig(1), of "\<lambda>xs. xs ! i"] that len args_at_length [OF at] by simp
    with that len n0 args_at_nth [OF at, of i] arg_view_type show ?thesis
      by (simp add: arg_fits_def nth_append)
  qed
  with len sig(2) n0 show ?thesis by (simp add: args_fit_def)
qed

text \<open>Values without strings do not depend on the heap.\<close>

definition plain :: "argv \<Rightarrow> bool" where
  "plain v \<longleftrightarrow> val_type v \<noteq> STRING_TYPE"

lemma arg_view_plain:
  assumes "arg_view s a = Some v" "plain v"
  shows "arg_view s' a = Some v"
proof -
  have "arg_type a \<noteq> STRING_TYPE" using arg_view_type [OF assms(1)] assms(2) by (simp add: plain_def)
  then have "arg_view s' a = arg_view s a" by (simp add: arg_view_def split: argtype_t.splits)
  with assms(1) show ?thesis by simp
qed

lemma args_at_plain:
  assumes at: "args_at s a ds vs" and plain: "list_all plain vs" and h: "heap s' b = Some (OArgs ds)"
  shows "args_at s' b ds vs"
proof -
  have "arg_view s' d = arg_view s d" if "d \<in> set ds" for d
  proof -
    from that obtain i where i: "i < length ds" "d = ds ! i" by (auto simp: in_set_conv_nth)
    have "arg_view s d = Some (vs ! i)" using args_at_nth(1) [OF at i(1)] i(2) by simp
    moreover have "plain (vs ! i)" using plain i(1) args_at_length [OF at] by (simp add: list_all_length)
    ultimately show ?thesis using arg_view_plain [of s d "vs ! i" s'] by simp
  qed
  then have "map (arg_view s') ds = map (arg_view s) ds" by simp
  with at h show ?thesis by (simp add: args_at_def)
qed

text \<open>The task id as the decoder reads it, as far as an \<open>int\<close> carries it.\<close>

definition int_id :: "u64 \<Rightarrow> u64" where
  "int_id tid = scast (ucast tid :: i32)"

lemma ucast_int_id [simp]: "(ucast (int_id tid) :: u32) = ucast tid"
  by (simp add: int_id_def)

lemma answerable_says:
  assumes "says c cmd sub fn tid node sig" "names_fit fn node sig" "terminated c"
    and "\<And>code. code \<in> {CMD_REXEC_ACK, CMD_REXEC_ERR} \<Longrightarrow> length (bytes (cmd_item (cmd_code code) sub fn tid node [] [])) \<le> 1024"
  shows "answerable bytes c"
  using assms by (auto simp: answerable_def says_def status_item_def)

text \<open>
  A node that can serve the task \<open>p\<close>: it can send, its board is the one the workers report to and has
  the task under the name \<open>fn\<close>, and the task is well-formed.
\<close>

definition ready :: "world \<Rightarrow> addr \<Rightarrow> cnode_t \<Rightarrow> string \<Rightarrow> tboard_t \<Rightarrow> string \<Rightarrow> addr \<Rightarrow> task_t \<Rightarrow> bool" where
  "ready s cn n key tb fn p t \<longleftrightarrow> node_up s cn n key \<and> tboard_ok s (cn_tboard n) tb
     \<and> global_tboard s = cn_tboard n \<and> task_map s tb fn = Some p \<and> task_ok s p t \<and> no_oom s"

lemma readyD:
  assumes "ready s cn n key tb fn p t"
  shows "node_up s cn n key" "tboard_ok s (cn_tboard n) tb" "task_map s tb fn = Some p" "task_ok s p t"
    "no_oom s" "heap s cn = Some (OCnode n)" "wf_mem s" "global_tboard s = cn_tboard n"
  using assms tboard_okD(1) by (auto simp: ready_def node_up_def)

lemma ready_kept:
  assumes r: "ready s cn n key tb fn p t" and keep: "keeps_objs s s'"
    and s': "wf_mem s'" "no_oom s'" "global_tboard s' = global_tboard s" "heap s' cn = Some (OCnode (n\<lparr>cn_message_received := b\<rparr>))"
  shows "ready s' cn (n\<lparr>cn_message_received := b\<rparr>) key tb fn p t" "slots s' t = slots s t"
proof -
  note r' = readyD [OF r]
  from r'(1) obtain pb where pb: "heap s (cn_zenoh_pub_reply n) = Some (OPub pb)" "pub_keyexpr pb = key"
    by (auto simp: node_up_def)
  from keeps_objsD [OF keep pb(1)] have "heap s' (cn_zenoh_pub_reply n) = Some (OPub pb)" by simp
  with r'(1) pb(2) s'(4) have "node_up s' cn (n\<lparr>cn_message_received := b\<rparr>) key" by (auto simp: node_up_def)
  with tboard_ok_kept [OF r'(2) s'(1) keep] task_ok_kept [OF r'(4) s'(1) keep] r' s'(2,3)
  show "ready s' cn (n\<lparr>cn_message_received := b\<rparr>) key tb fn p t" "slots s' t = slots s t"
    by (simp_all add: ready_def)
qed

text \<open>A message received: the command, in fresh memory, is the last in the queue.\<close>

definition queued :: "world \<Rightarrow> world \<Rightarrow> addr \<Rightarrow> cnode_t \<Rightarrow> addr \<Rightarrow> command_t \<Rightarrow> arg_t list \<Rightarrow> argv list \<Rightarrow> bool" where
  "queued s s1 cn n cmd c ds vs \<longleftrightarrow> cmd_at s1 cmd c ds vs \<and> c_refcount c = 1 \<and> terminated c
     \<and> (\<forall>x \<in> set (cmd_ptrs cmd c ds). brk s < x) \<and> length ds = length vs
     \<and> (\<forall>x. x \<notin> set (cmd_ptrs cmd c ds) \<longrightarrow> heap s1 x = ((heap s)(cn := Some (OCnode (n\<lparr>cn_message_received := True\<rparr>)))) x)
     \<and> trace s1 = trace s @ [Q_send cmd] \<and> wf_mem s1 \<and> no_oom s1 \<and> global_tboard s1 = global_tboard s"

lemma received_queued:
  assumes cb: "cbor_codec E P bytes view" and room: "e_room e (trace s)"
    and key: "foreign_key key" and cn: "heap s cn = Some (OCnode n)"
    and names: "names_fit fn node sig" and vs: "list_all sendable vs" "length vs < 20"
    and fits: "length (bytes (cmd_item cmd sub fn tid node sig vs)) \<le> 1024" "bytes (cmd_item cmd sub fn tid node sig vs) \<noteq> []"
    and s: "wf_mem s" "no_oom s" and l: "wf_locals l" and fuel: "20 \<le> fuel"
  shows "\<exists>p s1 c ds. cnode_data_handler e P fuel l cn key (bytes (cmd_item cmd sub fn tid node sig vs)) s = Inr ((), s1)
    \<and> queued s s1 cn n p c ds (map received vs) \<and> says c cmd sub fn (int_id tid) node sig"
proof -
  have "length vs < 2 ^ 28" "7 < fuel" "length vs < fuel" using vs(2) fuel by simp_all
  from data_handler_ok [OF cb key cn names vs(1) this(1) fits s l this(2,3), of e]
  obtain p s1 c ds where h: "created s s1 p c ds (map received vs)"
    "says c cmd sub fn (int_id tid) node sig" "c_refcount c = 1" "terminated c"
    "e_room e (trace s) \<longrightarrow> cnode_data_handler e P fuel l cn key (bytes (cmd_item cmd sub fn tid node sig vs)) s
        = Inr ((), marked s1 cn n (Q_send p))"
    unfolding int_id_def by blast
  let ?m = "marked s1 cn n (Q_send p)" and ?A = "set (cmd_ptrs p c ds)"
  have at: "cmd_at s1 p c ds (map received vs)" and ext: "extends s (s1\<lparr>cmd_id := cmd_id s\<rparr>)" and wf: "wf_mem s1"
    and len: "length ds = length vs" and A: "?A \<subseteq> {brk s<..brk s1}" "new_objs s s1 ?A"
    using h(1) unfolding created_def by auto
  have cn1: "heap s1 cn = Some (OCnode n)" using created_live [OF h(1) s(1) cn] .
  have tr: "trace s1 = trace s" "no_oom s1" "global_tboard s1 = global_tboard s" "brk s \<le> brk s1"
    using ext s(2) by (simp_all add: grows_def no_oom_def)
  have "cn \<notin> ?A" using cmd_at_owned_live [OF at, of cn] cn1 by auto
  then have "cmd_at ?m p c ds (map received vs)" by (intro cmd_at_cong [OF at]) (auto simp: marked_def)
  moreover have "heap ?m x = ((heap s)(cn := Some (OCnode (n\<lparr>cn_message_received := True\<rparr>)))) x" if "x \<notin> ?A" for x
    using fun_cong [OF created_released [OF h(1) s(1), of 0], of x] that by (simp add: marked_def)
  moreover have "wf_mem ?m" using wf_mem_store [OF wf cn1] by (simp add: marked_def)
  ultimately have "queued s ?m cn n p c ds (map received vs)"
    using h(3,4) A(1) len tr unfolding queued_def by (auto simp: marked_def)
  with room h(2,5) show ?thesis by blast
qed

lemma received_dropped:
  assumes cb: "cbor_codec E P bytes view" and full: "\<not> e_room e (trace s)"
    and key: "foreign_key key" and cn: "heap s cn = Some (OCnode n)"
    and names: "names_fit fn node sig" and vs: "list_all sendable vs" "length vs < 20"
    and fits: "length (bytes (cmd_item cmd sub fn tid node sig vs)) \<le> 1024" "bytes (cmd_item cmd sub fn tid node sig vs) \<noteq> []"
    and s: "wf_mem s" "no_oom s" and l: "wf_locals l" and fuel: "20 \<le> fuel"
  shows "\<exists>p s'. cnode_data_handler e P fuel l cn key (bytes (cmd_item cmd sub fn tid node sig vs)) s = Inr ((), s')
    \<and> dropped s s' cn n p"
proof -
  have "length vs < 2 ^ 28" "7 < fuel" "length vs < fuel" using vs(2) fuel by simp_all
  from data_handler_ok [OF cb key cn names vs(1) this(1) fits s l this(2,3), of e] full show ?thesis by blast
qed

text \<open>The state in which the processing task has it in hand.\<close>

abbreviation taken :: "world \<Rightarrow> addr \<Rightarrow> world" where
  "taken s1 cmd \<equiv> s1\<lparr>trace := trace s1 @ [Q_recv cmd]\<rparr>"

lemma queued_ready:
  assumes q: "queued s s1 cn n cmd c ds vs" and r: "ready s cn n key tb fn p t"
  shows "ready s1 cn (n\<lparr>cn_message_received := True\<rparr>) key tb fn p t" "slots s1 t = slots s t"
    "heap s x = Some ob \<Longrightarrow> x \<notin> set (cmd_ptrs cmd c ds)"
    "heap s x = Some ob \<Longrightarrow> x \<noteq> cn \<Longrightarrow> heap s1 x = Some ob"
proof -
  note r' = readyD [OF r]
  have old: "x \<notin> set (cmd_ptrs cmd c ds)" if "heap s x = Some ob" for x ob
    using wf_memD [OF r'(7) that] q by (auto simp: queued_def)
  then show "heap s x = Some ob \<Longrightarrow> x \<notin> set (cmd_ptrs cmd c ds)" by blast
  have h: "heap s1 x = ((heap s)(cn := Some (OCnode (n\<lparr>cn_message_received := True\<rparr>)))) x" if "heap s x = Some ob" for x ob
    using q old [OF that] unfolding queued_def by blast
  then show "heap s x = Some ob \<Longrightarrow> x \<noteq> cn \<Longrightarrow> heap s1 x = Some ob" by auto
  have "keeps_objs s s1" using h r'(6) by (fastforce simp: keeps_objs_def)
  moreover have "heap s1 cn = Some (OCnode (n\<lparr>cn_message_received := True\<rparr>))" using h [OF r'(6)] by simp
  moreover have "wf_mem s1" "no_oom s1" "global_tboard s1 = global_tboard s" using q by (simp_all add: queued_def)
  ultimately show "ready s1 cn (n\<lparr>cn_message_received := True\<rparr>) key tb fn p t" "slots s1 t = slots s t"
    using ready_kept [OF r] by blast+
qed

lemma dropped_ready:
  assumes d: "dropped s s1 cn n p" and r: "ready s cn n key tb fn q t"
  shows "ready s1 cn (n\<lparr>cn_message_received := True\<rparr>) key tb fn q t" "slots s1 t = slots s t"
proof -
  have "keeps_objs s s1" using d readyD(6) [OF r] by (auto simp: keeps_objs_def dropped_def)
  with d show "ready s1 cn (n\<lparr>cn_message_received := True\<rparr>) key tb fn q t" "slots s1 t = slots s t"
    using ready_kept [OF r] unfolding dropped_def by simp_all
qed

text \<open>Nothing of this depends on what was asked of the outside.\<close>

lemma ready_heap:
  assumes r: "ready s cn n key tb fn p t" and h: "heap s' = heap s"
    and s': "wf_mem s'" "no_oom s'" "global_tboard s' = global_tboard s"
  shows "ready s' cn n key tb fn p t" "slots s' t = slots s t"
  using ready_kept [OF r _ s', of "cn_message_received n"] readyD(6) [OF r] by (simp_all add: keeps_objs_def h)

text \<open>What the node offers stays when objects change but not the names and places of its tasks.\<close>

definition keeps_service :: "world \<Rightarrow> world \<Rightarrow> bool" where
  "keeps_service s s' \<longleftrightarrow> (\<forall>x n. heap s x = Some (OCnode n) \<longrightarrow> heap s' x = Some (OCnode n))
     \<and> (\<forall>x b. heap s x = Some (OPub b) \<longrightarrow> heap s' x = Some (OPub b))
     \<and> (\<forall>x t. heap s x = Some (OTask t) \<longrightarrow> (\<exists>t'. heap s' x = Some (OTask t') \<and> t_name t' = t_name t))"

lemma ready_change:
  assumes r: "ready s cn n key tb fn p t" and keep: "keeps_service s s'" and t: "task_ok s' p t'" and mem: "no_oom s'"
    and b: "global_tboard s' = global_tboard s" "heap s' (cn_tboard n) = Some (OTboard tb')" "tb_tasks tb' = tb_tasks tb"
  shows "ready s' cn n key tb' fn p t'"
proof -
  note r' = readyD [OF r] and wf = task_okD(1) [OF t]
  note tb = tboard_okD [OF r'(2)]
  have tasks: "\<exists>t. heap s' q = Some (OTask t) \<and> name_of s' q = name_of s q" if "q \<in> set (tb_tasks tb)" "q \<noteq> 0" for q
  proof -
    from tb(4) [OF that] obtain t where "heap s q = Some (OTask t)" by blast
    with keep show ?thesis by (fastforce simp: keeps_service_def name_of_def)
  qed
  then have "name_of s' q = name_of s q" if "q \<in> set (tb_tasks tb)" for q
    using that name_of_null [OF tb(1)] name_of_null [OF wf] by (cases "q = 0") auto
  then have "first_idx (\<lambda>q. name_of s' q = Some fn) (tb_tasks tb) = first_idx (\<lambda>q. name_of s q = Some fn) (tb_tasks tb)"
    by (intro first_idx_cong) simp
  then have "task_map s' tb' fn = Some p" using r'(3) by (simp add: task_map_def b(3))
  moreover have "tboard_ok s' (cn_tboard n) tb'" using wf b(2,3) tb(3) tasks by (auto simp: tboard_ok_def)
  moreover have "node_up s' cn n key" using r'(1) keep by (fastforce simp: node_up_def keeps_service_def)
  ultimately show ?thesis using r'(8) b(1) t mem by (simp add: ready_def)
qed

text \<open>The objects the service rests on; no command and no instance owns one.\<close>

fun service_obj :: "obj \<Rightarrow> bool" where
  "service_obj (OCnode _) = True" | "service_obj (OPub _) = True" | "service_obj (OTboard _) = True"
| "service_obj (OTask _) = True" | "service_obj _ = False"

lemma cmd_ptrs_no_service: "cmd_at s cmd c ds vs \<Longrightarrow> heap s x = Some ob \<Longrightarrow> service_obj ob \<Longrightarrow> x \<notin> set (cmd_ptrs cmd c ds)"
  using cmd_at_owned_live [of s cmd c ds vs x] by (cases ob) auto

lemma inst_ptrs_no_service: "inst_ok s p q \<Longrightarrow> heap s x = Some ob \<Longrightarrow> service_obj ob \<Longrightarrow> x \<notin> set (inst_ptrs s q)"
  using inst_ptrs_objs [of s p q x] by auto

lemma ready_update:
  assumes r: "ready s cn n key tb fn p t" and t: "task_ok s' p t'" "t_name t' = t_name t"
    and s': "no_oom s'" "global_tboard s' = global_tboard s"
    and old: "\<forall>x ob. heap s x = Some ob \<longrightarrow> x \<noteq> p \<longrightarrow> service_obj ob \<longrightarrow> heap s' x = Some ob"
  shows "ready s' cn n key tb fn p t'"
proof -
  have p: "heap s p = Some (OTask t)" "heap s' p = Some (OTask t')"
    using task_okD(2) [OF readyD(4) [OF r]] task_okD(2) [OF t(1)] .
  have b: "heap s (cn_tboard n) = Some (OTboard tb)" using tboard_okD(2) [OF readyD(2) [OF r]] .
  have keep: "heap s' x = Some ob" if "heap s x = Some ob" "service_obj ob" "\<forall>t. ob \<noteq> OTask t" for x ob
    using old that p(1) by (cases "x = p") auto
  have "\<exists>u'. heap s' x = Some (OTask u') \<and> t_name u' = t_name u" if "heap s x = Some (OTask u)" for x u
    using old that p t(2) by (cases "x = p") auto
  then have "keeps_service s s'" using keep by (simp add: keeps_service_def)
  from ready_change [OF r this t(1) s' keep [OF b]] show ?thesis by simp
qed

text \<open>An instance of the task in its slot: the values it was given, and its return argument.\<close>

definition instance_at :: "world \<Rightarrow> addr \<Rightarrow> task_t \<Rightarrow> u32 \<Rightarrow> addr \<Rightarrow> task_instance_t \<Rightarrow> arg_t list \<Rightarrow> argv list \<Rightarrow> arg_t \<Rightarrow> bool" where
  "instance_at s p t n q i ds vs a \<longleftrightarrow> inst_map s t n = Some q \<and> heap s q = Some (OInst i) \<and> serial_id i = n
     \<and> parent_task i = p \<and> args_at s (i_args i) ds vs \<and> heap s (i_return_arg i) = Some (OArgs [a])"

text \<open>
  The start, seen from the state in which the command's objects are released again: the task has the new
  instance, and everything else is as it was.
\<close>

lemma started_released:
  assumes ok: "task_ok s p t" and at: "cmd_at s cmd c ds vs" "c_args c \<noteq> 0"
    and sep: "\<forall>q \<in> set (live_slots t). set (inst_ptrs s q) \<inter> set (cmd_ptrs cmd c ds) = {}"
    and fresh: "slot_of s t k = None" and j: "stop_slot s t k = Some j" and wf: "wf_mem s'"
    and h: "heap s' = (\<lambda>x. if x \<in> set (cmd_ptrs cmd c ds) then None else heap (started s p t k j ds) x)"
  defines "t' \<equiv> with_inst t j (Suc (brk s))"
  shows "task_ok s' p t'" "inst_map s' t' k = Some (Suc (brk s))" "slots s' t' = (slots s t)[j := Some k]"
    "heap s' (Suc (brk s)) = Some (OInst (launched s p k))" "heap s' (Suc (Suc (Suc (brk s)))) = Some (OArgs ds)"
    "heap s' (Suc (Suc (brk s))) = Some (OArgs [\<lparr>nargs = 1, arg_type = t_return_type t, arg_val = ZVal\<rparr>])"
    "heap s x = Some ob \<Longrightarrow> x \<noteq> p \<Longrightarrow> x \<notin> set (cmd_ptrs cmd c ds) \<Longrightarrow> heap s' x = Some ob"
proof -
  note tk = task_okD [OF ok]
  have ats: "args_at s (c_args c) ds vs" using at by (simp add: cmd_at_def)
  then have as: "ds \<noteq> []" "nargs (ds ! 0) = of_nat (length ds)"
    using args_at_bounds [OF ats] args_at_nth(2) [OF ats, of 0] by auto
  let ?st = "started s p t k j ds" and ?C = "set (cmd_ptrs cmd c ds)"
  note st = started_heap [OF ok, where n = k and j = j and as = ds]
    and ok1 = started_ok [OF ok fresh j as, folded t'_def]
  have C: "x \<le> brk s" if "x \<in> ?C" for x
    using cmd_at_owned_live [OF at(1) that] wf_memD [OF tk(1)] by blast
  have ra: "heap ?st (Suc (Suc (brk s))) = Some (OArgs [\<lparr>nargs = 1, arg_type = t_return_type t, arg_val = ZVal\<rparr>])"
    using tk(2) wf_memD [OF tk(1), of p] by (auto simp: started_def inst_created_def Let_def)
  have "x \<notin> ?C" if "brk s < x" for x using C [of x] that by (meson not_le)
  then have new: "heap s' x = heap ?st x" if "brk s < x" for x using that by (simp add: h)
  show "heap s' (Suc (brk s)) = Some (OInst (launched s p k))" "heap s' (Suc (Suc (Suc (brk s)))) = Some (OArgs ds)"
    "heap s' (Suc (Suc (brk s))) = Some (OArgs [\<lparr>nargs = 1, arg_type = t_return_type t, arg_val = ZVal\<rparr>])"
    using st(1,2) ra by (simp_all add: new)
  show "heap s' x = Some ob" if "heap s x = Some ob" "x \<noteq> p" "x \<notin> ?C"
    using st(3) [OF that(1,2)] that(3) by (simp add: h)
  have "y \<notin> ?C" if x: "x \<in> set (live_slots t')" and y: "y \<in> set (inst_ptrs ?st x)" for x y
  proof (cases "x = Suc (brk s)")
    case True
    then have "brk s < y" using y st(1) by (auto simp: inst_ptrs_def launched_def new_inst_def zero_inst_def split: if_splits)
    with C show ?thesis by fastforce
  next
    case False
    then have lx: "x \<in> set (live_slots t)" using x set_update_subset_insert [of "instances t" j "Suc (brk s)"]
      by (auto simp: t'_def)
    then obtain ii where ii: "heap s x = Some (OInst ii)" using tk(6) [of x] by (auto simp: inst_ok_def)
    moreover have "x \<noteq> p" using ii tk(2) by auto
    ultimately have "inst_ptrs ?st x = inst_ptrs s x" using st(3) by (simp add: inst_ptrs_def)
    with y sep lx show ?thesis by auto
  qed
  then have "\<forall>q \<in> set (live_slots t'). set (inst_ptrs ?st q) \<inter> ?C = {}" by blast
  moreover have "p \<notin> ?C" using cmd_at_owned_live [OF at(1), of p] tk(2) by auto
  ultimately have ok2: "task_ok s' p t'" "slots s' t' = slots ?st t'" using task_ok_released [OF ok1(1) wf h] by blast+
  from ok2(1) show "task_ok s' p t'" .
  from ok2(2) ok1(3) show "slots s' t' = (slots s t)[j := Some k]" by simp
  show "inst_map s' t' k = Some (Suc (brk s))"
    using ok1(2) slots_slot_of [OF ok2(2), of k] by (simp add: inst_map_def)
qed

lemma start_ready:
  assumes r: "ready s cn n key tb fn p t" and at: "cmd_at s cmd c ds vs" "c_args c \<noteq> 0" and plain: "list_all plain vs"
    and sep: "\<forall>q \<in> set (live_slots t). set (inst_ptrs s q) \<inter> set (cmd_ptrs cmd c ds) = {}"
    and fresh: "slot_of s t k = None" and j: "stop_slot s t k = Some j"
    and h: "heap s' = (\<lambda>x. if x \<in> set (cmd_ptrs cmd c ds) then None else heap (started s p t k j ds) x)"
    and s': "wf_mem s'" "no_oom s'" "global_tboard s' = global_tboard s"
  defines "t' \<equiv> with_inst t j (Suc (brk s))"
  shows "ready s' cn n key tb fn p t'"
    and "instance_at s' p t' k (Suc (brk s)) (launched s p k) ds vs \<lparr>nargs = 1, arg_type = t_return_type t, arg_val = ZVal\<rparr>"
    and "slots s' t' = (slots s t)[j := Some k]"
proof -
  note r' = readyD [OF r] and tk = task_okD [OF readyD(4) [OF r]]
  note new = started_released [OF r'(4) at sep fresh j s'(1) h, folded t'_def]
  have "\<forall>x ob. heap s x = Some ob \<longrightarrow> x \<noteq> p \<longrightarrow> service_obj ob \<longrightarrow> heap s' x = Some ob"
    using new(7) cmd_ptrs_no_service [OF at(1)] by blast
  from ready_update [OF r new(1) _ s'(2,3) this] show "ready s' cn n key tb fn p t'" by (simp add: t'_def)
  have "args_at s (c_args c) ds vs" using at by (simp add: cmd_at_def)
  from args_at_plain [OF this plain new(5)]
  show "instance_at s' p t' k (Suc (brk s)) (launched s p k) ds vs \<lparr>nargs = 1, arg_type = t_return_type t, arg_val = ZVal\<rparr>"
    using new(2,4,6) by (simp add: instance_at_def launched_def new_inst_def)
  show "slots s' t' = (slots s t)[j := Some k]" by (rule new(3))
qed

end
