(* ===== verification/Schedule.thy ===== *)
theory Schedule
  imports Cnode_Flow
begin

text \<open>
  What a node is for those who call it: an abstract machine with a queue of messages, a list of calls, each
  in progress or collected, and perhaps a call whose result the processing task is waiting for. Messages
  arrive, the processing task and the workers of the calls take their steps, in any order. Nothing of this
  mentions memory; that the firmware implements the machine is shown in \<open>Node_Run\<close>.
\<close>

section \<open>The messages\<close>

text \<open>What a controller chooses: the same identifiers go into both messages of a call.\<close>

record request =
  rq_sub :: i32
  rq_tid :: u64
  rq_node :: string
  rq_sig :: string
  rq_vals :: "argv list"

text \<open>The values as the task receives them, and the id the node knows the call by.\<close>

abbreviation rq_args :: "request \<Rightarrow> argv list" where
  "rq_args r \<equiv> map received (rq_vals r)"

abbreviation rq_id :: "request \<Rightarrow> u32" where
  "rq_id r \<equiv> ucast (rq_tid r)"

datatype message = Rexec request | Get request | Other i32 request

primrec msg_rq :: "message \<Rightarrow> request" where
  "msg_rq (Rexec r) = r" | "msg_rq (Get r) = r" | "msg_rq (Other x r) = r"

primrec msg_code :: "message \<Rightarrow> i32" where
  "msg_code (Rexec r) = cmd_code CMD_REXEC"
| "msg_code (Get r) = cmd_code CMD_GET_REXEC_RES"
| "msg_code (Other x r) = x"

primrec msg_vals :: "message \<Rightarrow> argv list" where
  "msg_vals (Rexec r) = rq_vals r" | "msg_vals (Get r) = []" | "msg_vals (Other x r) = []"

definition msg_item :: "string \<Rightarrow> message \<Rightarrow> item" where
  "msg_item fn m = cmd_item (msg_code m) (rq_sub (msg_rq m)) fn (rq_tid (msg_rq m)) (rq_node (msg_rq m))
     (rq_sig (msg_rq m)) (msg_vals m)"

text \<open>What the node answers.\<close>

definition status_msg :: "jamcommand_t \<Rightarrow> string \<Rightarrow> request \<Rightarrow> item" where
  "status_msg code fn r = cmd_item (cmd_code code) (rq_sub r) fn (int_id (rq_tid r)) (rq_node r) [] []"

definition res_msg :: "string \<Rightarrow> request \<Rightarrow> argv \<Rightarrow> item" where
  "res_msg fn r v = cmd_item (cmd_code CMD_REXEC_RES) (rq_sub r) fn (int_id (rq_tid r)) (rq_node r) (rq_sig r) [v]"

text \<open>
  A message the node can take: it and the replies without values fit their buffers, and the values of a
  request are those of the task's signature.
\<close>

fun takes :: "string \<Rightarrow> message \<Rightarrow> bool" where
  "takes asig (Rexec r) \<longleftrightarrow> list_all sendable (rq_vals r) \<and> rq_vals r \<noteq> [] \<and> length (rq_vals r) < 20
     \<and> list_all plain (rq_args r) \<and> map char_to_argtype asig = map val_type (rq_args r)"
| "takes asig (Get r) \<longleftrightarrow> True"
| "takes asig (Other x r) \<longleftrightarrow> x \<noteq> cmd_code CMD_REXEC \<and> x \<noteq> cmd_code CMD_GET_REXEC_RES"

definition deliverable :: "(item \<Rightarrow> u8 list) \<Rightarrow> string \<Rightarrow> string \<Rightarrow> message \<Rightarrow> bool" where
  "deliverable bytes fn asig m \<longleftrightarrow> names_fit fn (rq_node (msg_rq m)) (rq_sig (msg_rq m)) \<and> takes asig m
     \<and> length (bytes (msg_item fn m)) \<le> 1024 \<and> bytes (msg_item fn m) \<noteq> []
     \<and> length (bytes (status_msg CMD_REXEC_ACK fn (msg_rq m))) \<le> 1024
     \<and> length (bytes (status_msg CMD_REXEC_ERR fn (msg_rq m))) \<le> 1024"

lemma msg_vals_fit:
  "deliverable bytes fn asig m \<Longrightarrow> list_all sendable (msg_vals m) \<and> length (msg_vals m) < 20"
  by (cases m) (auto simp: deliverable_def)

section \<open>The abstract machine\<close>

text \<open>A worker takes six steps; the third sets the flag the processing task waits for.\<close>

datatype phase = Progress nat | Collected

primrec progress :: "phase \<Rightarrow> nat" where
  "progress (Progress n) = n" | "progress Collected = 0"

abbreviation FLAGGED :: nat where "FLAGGED \<equiv> 3"
abbreviation WORKER_STEPS :: nat where "WORKER_STEPS \<equiv> 6"

type_synonym rcall = "request \<times> phase"

abbreviation is_open :: "rcall \<Rightarrow> bool" where
  "is_open c \<equiv> snd c \<noteq> Collected"

text \<open>The call that has an id: the first that is not collected.\<close>

definition find_call :: "rcall list \<Rightarrow> u32 \<Rightarrow> nat option" where
  "find_call cs k = first_idx (\<lambda>c. rq_id (fst c) = k \<and> is_open c) cs"

record spec =
  sp_queue :: "message list"
  sp_calls :: "rcall list"
  sp_wait :: "request option"

type_synonym reply = "string \<times> u8 list"

text \<open>
  What happens: a message arrives, or one of the node's own comes back; the processing task takes a step; so does
  the worker started as the \<open>m\<close>th.
\<close>

datatype node_event = Deliver message | Echo "char list" "u8 list" | Proc | Work nat

text \<open>Taking a message from the queue.\<close>

fun take_message :: "(item \<Rightarrow> u8 list) \<Rightarrow> string \<Rightarrow> string \<Rightarrow> message \<Rightarrow> spec \<Rightarrow> (spec \<times> reply list) option" where
  "take_message bytes key fn (Rexec r) A =
     (if find_call (sp_calls A) (rq_id r) = None \<and> length (filter is_open (sp_calls A)) < MAX_INSTANCES
      then Some (A\<lparr>sp_calls := sp_calls A @ [(r, Progress 0)]\<rparr>, [(key, bytes (status_msg CMD_REXEC_ACK fn r))]) else None)"
| "take_message bytes key fn (Get r) A =
     (if find_call (sp_calls A) (rq_id r) = None then None else Some (A\<lparr>sp_wait := Some r\<rparr>, []))"
| "take_message bytes key fn (Other x r) A = Some (A, [(key, bytes (status_msg CMD_REXEC_ERR fn r))])"

text \<open>
  Waiting for a result: one poll. The call is collected when its worker is done. Between the flag and the worker's
  end the processing task would destroy an instance that is still in use; the machine has no step there.
\<close>

definition poll_result :: "(item \<Rightarrow> u8 list) \<Rightarrow> string \<Rightarrow> string \<Rightarrow> (argv list \<Rightarrow> argv) \<Rightarrow> request \<Rightarrow> spec
    \<Rightarrow> (spec \<times> reply list) option" where
  "poll_result bytes key fn F r A = (case find_call (sp_calls A) (rq_id r) of
       None \<Rightarrow> None
     | Some m \<Rightarrow> let c = sp_calls A ! m in
         if progress (snd c) < FLAGGED then Some (A, [])
         else if progress (snd c) = WORKER_STEPS
         then Some (A\<lparr>sp_calls := (sp_calls A)[m := (fst c, Collected)], sp_wait := None\<rparr>,
           [(key, bytes (res_msg fn r (F (rq_args (fst c)))))])
         else None)"

definition own_key :: "char list \<Rightarrow> bool" where
  "own_key key \<longleftrightarrow> NUL \<in> set key
     \<and> (starts CNODE_REPLY_PUB_KEYEXPR (c_str key) \<or> starts CNODE_REQUEST_PUB_KEYEXPR (c_str key))"

fun spec_step :: "(item \<Rightarrow> u8 list) \<Rightarrow> string \<Rightarrow> string \<Rightarrow> string \<Rightarrow> (argv list \<Rightarrow> argv) \<Rightarrow> spec \<Rightarrow> node_event
    \<Rightarrow> (spec \<times> reply list) option" where
  "spec_step bytes key fn asig F A (Deliver m) =
     (if deliverable bytes fn asig m
      then Some (if length (sp_queue A) < QUEUE_LENGTH then A\<lparr>sp_queue := sp_queue A @ [m]\<rparr> else A, []) else None)"
| "spec_step bytes key fn asig F A (Echo k payload) = (if own_key k then Some (A, []) else None)"
| "spec_step bytes key fn asig F A Proc = (case sp_wait A of
       Some r \<Rightarrow> poll_result bytes key fn F r A
     | None \<Rightarrow> (case sp_queue A of
           [] \<Rightarrow> Some (A, [])
         | m # ms \<Rightarrow> take_message bytes key fn m (A\<lparr>sp_queue := ms\<rparr>)))"
| "spec_step bytes key fn asig F A (Work m) =
     (let c = sp_calls A ! m in
      if m < length (sp_calls A) \<and> is_open c \<and> progress (snd c) < WORKER_STEPS
      then Some (A\<lparr>sp_calls := (sp_calls A)[m := (fst c, Progress (Suc (progress (snd c))))]\<rparr>, []) else None)"

text \<open>What the machine has no step for and the firmware does not survive: a request when every slot is taken,
  and a request for the result of a call that is not there (any more).\<close>

fun refused :: "rcall list \<Rightarrow> message \<Rightarrow> bool" where
  "refused cs (Rexec r) \<longleftrightarrow> length (filter is_open cs) = MAX_INSTANCES"
| "refused cs (Get r) \<longleftrightarrow> find_call cs (rq_id r) = None"
| "refused cs (Other x r) \<longleftrightarrow> False"

lemma refused_no_step:
  "sp_wait A = None \<Longrightarrow> sp_queue A = m # ms \<Longrightarrow> refused (sp_calls A) m \<Longrightarrow> spec_step bytes key fn asig F A Proc = None"
  by (cases m) simp_all

text \<open>Event after event, for any machine.\<close>

fun spec_run :: "('a \<Rightarrow> 'e \<Rightarrow> ('a \<times> 'o list) option) \<Rightarrow> 'a \<Rightarrow> 'e list \<Rightarrow> ('a \<times> 'o list) option" where
  "spec_run stp A [] = Some (A, [])"
| "spec_run stp A (ev # evs) = (case stp A ev of
       None \<Rightarrow> None
     | Some (A', out) \<Rightarrow> map_option (\<lambda>(A'', out'). (A'', out @ out')) (spec_run stp A' evs))"

lemma spec_run_append:
  "spec_run stp A evs = Some (A', out) \<Longrightarrow> spec_run stp A' evs' = Some (A'', out') \<Longrightarrow>
    spec_run stp A (evs @ evs') = Some (A'', out @ out')"
  by (induction evs arbitrary: A out) (auto split: option.splits)

section \<open>Waiting\<close>

text \<open>A worker's step changes no call's id, so the call that is waited for stays the same.\<close>

lemma find_call_work:
  assumes "is_open (cs ! m)"
  shows "find_call (cs[m := (fst (cs ! m), Progress n)]) k = find_call cs k"
proof -
  have "rq_id (fst (cs[m := (fst (cs ! m), Progress n)] ! i)) = rq_id (fst (cs ! i))"
    "is_open (cs[m := (fst (cs ! m), Progress n)] ! i) = is_open (cs ! i)" if "i < length cs" for i
    using assms that by (cases "i = m"; simp)+
  then show ?thesis unfolding find_call_def by (intro first_idx_pointwise) simp_all
qed

abbreviation result_of :: "(item \<Rightarrow> u8 list) \<Rightarrow> string \<Rightarrow> string \<Rightarrow> (argv list \<Rightarrow> argv) \<Rightarrow> request \<Rightarrow> request \<Rightarrow> reply" where
  "result_of bytes key fn F r q \<equiv> (key, bytes (res_msg fn r (F (rq_args q))))"

text \<open>An event publishes the result or leaves the machine waiting, with the call as far as its worker has come.\<close>

lemma waiting_step:
  assumes ev: "spec_step bytes key fn asig F A ev = Some (A', out)"
    and w: "sp_wait A = Some r" "find_call (sp_calls A) (rq_id r) = Some m"
  shows "result_of bytes key fn F r (fst (sp_calls A ! m)) \<in> set out
    \<or> sp_wait A' = Some r \<and> find_call (sp_calls A') (rq_id r) = Some m \<and> fst (sp_calls A' ! m) = fst (sp_calls A ! m)
      \<and> progress (snd (sp_calls A' ! m)) = progress (snd (sp_calls A ! m)) + (if ev = Work m then 1 else 0)"
proof (cases ev)
  case Proc
  with ev w show ?thesis by (auto simp: poll_result_def Let_def split: if_splits)
next
  case (Work k)
  with ev have k: "k < length (sp_calls A)" "is_open (sp_calls A ! k)"
    and A': "A' = A\<lparr>sp_calls := (sp_calls A)[k := (fst (sp_calls A ! k), Progress (Suc (progress (snd (sp_calls A ! k)))))]\<rparr>"
    by (auto simp: Let_def split: if_splits)
  with Work w find_call_work [OF k(2)] show ?thesis by (cases "k = m") simp_all
qed (use ev w in \<open>auto split: if_splits\<close>)

lemma waiting_run:
  "spec_run (spec_step bytes key fn asig F) A sched = Some (A', out) \<Longrightarrow> sp_wait A = Some r \<Longrightarrow>
    find_call (sp_calls A) (rq_id r) = Some m \<Longrightarrow>
    result_of bytes key fn F r (fst (sp_calls A ! m)) \<in> set out
    \<or> sp_wait A' = Some r \<and> find_call (sp_calls A') (rq_id r) = Some m \<and> fst (sp_calls A' ! m) = fst (sp_calls A ! m)
      \<and> progress (snd (sp_calls A' ! m)) = progress (snd (sp_calls A ! m)) + count_list sched (Work m)"
proof (induction sched arbitrary: A out)
  case (Cons ev evs)
  from Cons.prems(1) obtain A1 os1 os2 where ev: "spec_step bytes key fn asig F A ev = Some (A1, os1)"
    and evs: "spec_run (spec_step bytes key fn asig F) A1 evs = Some (A', os2)" and out: "out = os1 @ os2"
    by (auto split: option.splits)
  from waiting_step [OF ev Cons.prems(2,3)] show ?case
  proof
    assume "sp_wait A1 = Some r \<and> find_call (sp_calls A1) (rq_id r) = Some m \<and> fst (sp_calls A1 ! m) = fst (sp_calls A ! m)
      \<and> progress (snd (sp_calls A1 ! m)) = progress (snd (sp_calls A ! m)) + (if ev = Work m then 1 else 0)"
    with Cons.IH [OF evs] out show ?thesis by auto
  qed (use out in simp)
qed simp

section \<open>One call after the other\<close>

text \<open>The schedule that makes each call wait for the one before it.\<close>

fun one_by_one :: "nat \<Rightarrow> request list \<Rightarrow> node_event list" where
  "one_by_one m [] = []"
| "one_by_one m (r # rs) =
     [Deliver (Rexec r), Proc] @ replicate WORKER_STEPS (Work m) @ [Deliver (Get r), Proc, Proc] @ one_by_one (Suc m) rs"

definition replies :: "(item \<Rightarrow> u8 list) \<Rightarrow> string \<Rightarrow> string \<Rightarrow> (argv list \<Rightarrow> argv) \<Rightarrow> request \<Rightarrow> reply list" where
  "replies bytes key fn F r = [(key, bytes (status_msg CMD_REXEC_ACK fn r)), (key, bytes (res_msg fn r (F (rq_args r))))]"

definition callable :: "(item \<Rightarrow> u8 list) \<Rightarrow> string \<Rightarrow> string \<Rightarrow> request \<Rightarrow> bool" where
  "callable bytes fn asig r \<longleftrightarrow> deliverable bytes fn asig (Rexec r) \<and> deliverable bytes fn asig (Get r)"

lemma find_call_none: "\<forall>c \<in> set cs. \<not> is_open c \<Longrightarrow> find_call cs k = None"
  by (simp add: find_call_def)

lemma find_call_last: "\<forall>c \<in> set cs. \<not> is_open c \<Longrightarrow> x \<noteq> Collected \<Longrightarrow> find_call (cs @ [(r, x)]) (rq_id r) = Some (length cs)"
  by (auto simp: find_call_def first_idx_Some nth_append)

lemma one_by_one_step:
  assumes "\<forall>c \<in> set (sp_calls A). \<not> is_open c" "sp_queue A = []" "sp_wait A = None" "callable bytes fn asig r"
  shows "spec_run (spec_step bytes key fn asig F) A (one_by_one (length (sp_calls A)) [r]) =
    Some (A\<lparr>sp_calls := sp_calls A @ [(r, Collected)]\<rparr>, replies bytes key fn F r)"
proof -
  have "filter is_open (sp_calls A) = []" using assms(1) by (simp add: filter_empty_conv)
  then show ?thesis
    using assms find_call_none [OF assms(1)] find_call_last [OF assms(1), of "Progress 6" r]
    by (simp add: callable_def replies_def nth_append poll_result_def eval_nat_numeral)
qed

lemma one_by_one_ok:
  "\<forall>c \<in> set (sp_calls A). \<not> is_open c \<Longrightarrow> sp_queue A = [] \<Longrightarrow> sp_wait A = None \<Longrightarrow> \<forall>r \<in> set rs. callable bytes fn asig r \<Longrightarrow>
    spec_run (spec_step bytes key fn asig F) A (one_by_one (length (sp_calls A)) rs) =
    Some (A\<lparr>sp_calls := sp_calls A @ map (\<lambda>r. (r, Collected)) rs\<rparr>, concat (map (replies bytes key fn F) rs))"
proof (induction rs arbitrary: A)
  case (Cons r rs)
  let ?A = "A\<lparr>sp_calls := sp_calls A @ [(r, Collected)]\<rparr>"
  have "spec_run (spec_step bytes key fn asig F) A (one_by_one (length (sp_calls A)) [r])
      = Some (?A, replies bytes key fn F r)"
    by (rule one_by_one_step) (use Cons.prems in simp_all)
  moreover have "spec_run (spec_step bytes key fn asig F) ?A (one_by_one (length (sp_calls ?A)) rs)
      = Some (?A\<lparr>sp_calls := sp_calls ?A @ map (\<lambda>r. (r, Collected)) rs\<rparr>, concat (map (replies bytes key fn F) rs))"
    by (rule Cons.IH) (use Cons.prems in auto)
  moreover have "one_by_one (length (sp_calls A)) (r # rs)
      = one_by_one (length (sp_calls A)) [r] @ one_by_one (length (sp_calls ?A)) rs" by simp
  ultimately show ?case by (simp only: spec_run_append) simp
qed simp

section \<open>Calls in their slots\<close>

text \<open>Which call each of a task's slots holds; every open call has its slot, and no two have the same id.\<close>

definition seating :: "rcall list \<Rightarrow> nat option list \<Rightarrow> bool" where
  "seating cs seats \<longleftrightarrow> length seats = MAX_INSTANCES
     \<and> (\<forall>i < MAX_INSTANCES. \<forall>m. seats ! i = Some m \<longrightarrow> m < length cs \<and> is_open (cs ! m))
     \<and> (\<forall>m < length cs. is_open (cs ! m) \<longrightarrow> (\<exists>i < MAX_INSTANCES. seats ! i = Some m))
     \<and> (\<forall>i < MAX_INSTANCES. \<forall>j < MAX_INSTANCES. \<forall>m m'. seats ! i = Some m \<longrightarrow> seats ! j = Some m'
          \<longrightarrow> rq_id (fst (cs ! m)) = rq_id (fst (cs ! m')) \<longrightarrow> i = j)"

abbreviation seat_ids :: "rcall list \<Rightarrow> nat option list \<Rightarrow> u32 option list" where
  "seat_ids cs seats \<equiv> map (map_option (\<lambda>m. rq_id (fst (cs ! m)))) seats"

lemma seatingD:
  assumes "seating cs seats"
  shows "length seats = 5" "i < 5 \<Longrightarrow> seats ! i = Some m \<Longrightarrow> m < length cs \<and> is_open (cs ! m)"
    "m < length cs \<Longrightarrow> is_open (cs ! m) \<Longrightarrow> \<exists>i < 5. seats ! i = Some m"
    "i < 5 \<Longrightarrow> j < 5 \<Longrightarrow> seats ! i = Some m \<Longrightarrow> seats ! j = Some m' \<Longrightarrow>
      rq_id (fst (cs ! m)) = rq_id (fst (cs ! m')) \<Longrightarrow> i = j"
  using assms unfolding seating_def by blast+

text \<open>The slot of a call is the one that has its id.\<close>

lemma seat_found:
  assumes se: "seating cs seats" and m: "find_call cs k = Some m"
  shows "\<exists>j < 5. seats ! j = Some m \<and> first_idx (\<lambda>x. x = Some k) (seat_ids cs seats) = Some j"
proof -
  note d = seatingD [OF se]
  have m': "m < length cs" "is_open (cs ! m)" "rq_id (fst (cs ! m)) = k"
    using m by (auto simp: find_call_def first_idx_Some)
  with d(3) obtain j where j: "j < 5" "seats ! j = Some m" by blast
  have "seat_ids cs seats ! i \<noteq> Some k" if i: "i < j" for i
  proof
    assume "seat_ids cs seats ! i = Some k"
    with i j(1) d(1) obtain m0 where "seats ! i = Some m0" "rq_id (fst (cs ! m0)) = k" by auto
    with d(4) [of i j m0 m] i j m'(3) show False by simp
  qed
  with j m'(3) d(1) show ?thesis by (intro exI [of _ j]) (simp add: first_idx_Some)
qed

lemma seat_none:
  assumes se: "seating cs seats" and k: "find_call cs k = None"
  shows "first_idx (\<lambda>x. x = Some k) (seat_ids cs seats) = None"
proof -
  have "rq_id (fst (cs ! m)) \<noteq> k" if "i < 5" "seats ! i = Some m" for i m
    using k seatingD(2) [OF se that] nth_mem [of m cs] by (auto simp: find_call_def)
  then show ?thesis using seatingD(1) [OF se] by (auto simp: in_set_conv_nth) blast
qed

lemma seat_room:
  assumes se: "seating cs seats"
  shows "length (filter (\<lambda>x. x \<noteq> None) seats) = length (filter is_open cs)"
proof -
  note d = seatingD [OF se]
  let ?I = "{i. i < length seats \<and> seats ! i \<noteq> None}" and ?M = "{m. m < length cs \<and> is_open (cs ! m)}"
  let ?f = "\<lambda>i. the (seats ! i)"
  have "inj_on ?f ?I"
  proof (rule inj_onI)
    fix i j assume "i \<in> ?I" "j \<in> ?I" "?f i = ?f j"
    with d(1) d(4) [of i j] show "i = j" by auto
  qed
  moreover have "?f ` ?I = ?M"
  proof
    show "?f ` ?I \<subseteq> ?M" using d(1,2) by auto
    show "?M \<subseteq> ?f ` ?I"
    proof
      fix m assume "m \<in> ?M"
      with d(3) obtain i where "i < 5" "seats ! i = Some m" by blast
      with d(1) show "m \<in> ?f ` ?I" by (intro image_eqI [of _ _ i]) simp_all
    qed
  qed
  ultimately have "card ?I = card ?M" using card_image [of ?f ?I] by simp
  then show ?thesis by (simp add: length_filter_conv_card)
qed

text \<open>The slots after a call is started, taken forward or collected.\<close>

lemma seat_start:
  assumes se: "seating cs seats" and j: "j < 5" "seats ! j = None" and r: "find_call cs (rq_id r) = None"
  shows "seating (cs @ [(r, Progress 0)]) (seats[j := Some (length cs)])"
    "seat_ids (cs @ [(r, Progress 0)]) (seats[j := Some (length cs)]) = (seat_ids cs seats)[j := Some (rq_id r)]"
proof -
  note d = seatingD [OF se]
  have "m < length cs" if "Some m \<in> set seats" for m
    using that d(1,2) by (auto simp: in_set_conv_nth)
  then have ids: "seat_ids (cs @ [(r, Progress 0)]) seats = seat_ids cs seats"
    by (auto simp: nth_append map_option_case split: option.splits)
  show "seat_ids (cs @ [(r, Progress 0)]) (seats[j := Some (length cs)]) = (seat_ids cs seats)[j := Some (rq_id r)]"
    by (simp only: map_update ids) simp
  have r': "rq_id (fst (cs ! m)) \<noteq> rq_id r" if "i < 5" "seats ! i = Some m" for i m
    using r d(2) [OF that] nth_mem [of m cs] by (auto simp: find_call_def)
  show "seating (cs @ [(r, Progress 0)]) (seats[j := Some (length cs)])"
    unfolding seating_def
  proof (intro conjI allI impI)
    fix i m assume "i < 5" "seats[j := Some (length cs)] ! i = Some m"
    with d(1) d(2) [of i m] j(1) show "m < length (cs @ [(r, Progress 0)])" "is_open ((cs @ [(r, Progress 0)]) ! m)"
      by (auto simp: nth_list_update nth_append split: if_splits)
  next
    fix m assume m: "m < length (cs @ [(r, Progress 0)])" "is_open ((cs @ [(r, Progress 0)]) ! m)"
    show "\<exists>i < 5. seats[j := Some (length cs)] ! i = Some m"
    proof (cases "m = length cs")
      case True
      with j(1) d(1) show ?thesis by auto
    next
      case False
      with m d(3) [of m] obtain i where i: "i < 5" "seats ! i = Some m" by (auto simp: nth_append)
      with j(2) have "i \<noteq> j" by auto
      with i show ?thesis by (intro exI [of _ i]) simp
    qed
  next
    fix i i' m m'
    assume i: "i < 5" "i' < 5" "seats[j := Some (length cs)] ! i = Some m" "seats[j := Some (length cs)] ! i' = Some m'"
      "rq_id (fst ((cs @ [(r, Progress 0)]) ! m)) = rq_id (fst ((cs @ [(r, Progress 0)]) ! m'))"
    have old: "m < length cs" if "i < 5" "seats ! i = Some m" for i m using d(2) [OF that] by blast
    from i j(1) d(1) d(4) [of i i' m m'] r' old show "i = i'"
      by (auto simp: nth_list_update nth_append split: if_splits)
  qed (use d(1) in simp)
qed

lemma seat_work:
  assumes "seating cs seats" "m < length cs" "is_open (cs ! m)"
  shows "seating (cs[m := (fst (cs ! m), Progress n)]) seats" "seat_ids (cs[m := (fst (cs ! m), Progress n)]) seats = seat_ids cs seats"
proof -
  have "fst (cs[m := (fst (cs ! m), Progress n)] ! x) = fst (cs ! x)"
    "is_open (cs[m := (fst (cs ! m), Progress n)] ! x) = is_open (cs ! x)" for x
    using assms(2,3) by (cases "x = m"; simp)+
  then show "seating (cs[m := (fst (cs ! m), Progress n)]) seats" "seat_ids (cs[m := (fst (cs ! m), Progress n)]) seats = seat_ids cs seats"
    using assms(1) by (simp_all add: seating_def)
qed

lemma seat_collect:
  assumes se: "seating cs seats" and j: "j < 5" "seats ! j = Some m"
  shows "seating (cs[m := (fst (cs ! m), Collected)]) (seats[j := None])"
    "seat_ids (cs[m := (fst (cs ! m), Collected)]) (seats[j := None]) = (seat_ids cs seats)[j := None]"
proof -
  note d = seatingD [OF se]
  have m: "m < length cs" using d(2) [OF j] by simp
  have same: "fst (cs[m := (fst (cs ! m), Collected)] ! x) = fst (cs ! x)"
    "is_open (cs[m := (fst (cs ! m), Collected)] ! x) = (x \<noteq> m \<and> is_open (cs ! x))" for x
    using m by (cases "x = m"; simp)+
  have uniq: "i = j" if "i < 5" "seats ! i = Some m" for i using d(4) [OF that(1) j(1) that(2) j(2)] by simp
  have left: "i \<noteq> j \<and> seats ! i = Some x" if "i < 5" "seats[j := None] ! i = Some x" for i x
    using that d(1) j(1) by (auto simp: nth_list_update split: if_splits)
  show "seating (cs[m := (fst (cs ! m), Collected)]) (seats[j := None])"
    unfolding seating_def same
  proof (intro conjI allI impI)
    fix i x assume i: "i < 5" "seats[j := None] ! i = Some x"
    from left [OF this] d(2) [of i x] i(1) uniq [of i]
    show "x < length (cs[m := (fst (cs ! m), Collected)])" "x \<noteq> m" "is_open (cs ! x)" by auto
  next
    fix x assume "x < length (cs[m := (fst (cs ! m), Collected)])" "x \<noteq> m \<and> is_open (cs ! x)"
    with d(3) [of x] obtain i where i: "i < 5" "seats ! i = Some x" "x \<noteq> m" by auto
    with j(2) have "i \<noteq> j" by auto
    with i show "\<exists>i < 5. seats[j := None] ! i = Some x" by (intro exI [of _ i]) simp
  next
    fix i i' x x'
    assume "i < 5" "i' < 5" "seats[j := None] ! i = Some x" "seats[j := None] ! i' = Some x'"
      "rq_id (fst (cs ! x)) = rq_id (fst (cs ! x'))"
    with left [of i x] left [of i' x'] d(4) [of i i' x x'] show "i = i'" by blast
  qed (use d(1) in simp)
  show "seat_ids (cs[m := (fst (cs ! m), Collected)]) (seats[j := None]) = (seat_ids cs seats)[j := None]"
    by (simp add: same(1) map_update)
qed

end
