(* ===== verification/Node_Steps.thy ===== *)
theory Node_Steps
  imports Cnode_Flow
begin

text \<open>
  The node's FreeRTOS tasks cut into the steps between which others can run: the processing task where it polls
  for a result, the workers as in \<open>Interleave\<close>. What is between two cuts is one step.
\<close>

section \<open>The steps of the processing task\<close>

text \<open>The first half of \<open>_cnode_return_task\<close>: the instance whose result is asked for.\<close>

definition find_result :: "addr \<Rightarrow> addr \<Rightarrow> addr option c_prog" where
  "find_result cn cmd =
     (if cn = 0 \<or> cmd = 0 then ret None
      else bnd (load as_cnode cn) (\<lambda>n. bnd (load as_cmd cmd) (\<lambda>c.
        bnd (read_str (c_fn_name c)) (\<lambda>fn.
        bnd (tboard_find_task_name (cn_tboard n) fn) (\<lambda>task.
        if task = 0 then ret None
        else bnd (task_get_instance_index task (ucast (c_task_id c))) (\<lambda>r. case r of
            None \<Rightarrow> ret None
          | Some i \<Rightarrow> bnd (load as_task task) (\<lambda>t. bnd (idx (instances t) i) (\<lambda>inst. ret (Some inst)))))))))"

text \<open>The second half, after the loop, and the reply.\<close>

definition take_result :: "addr \<Rightarrow> addr c_prog" where
  "take_result inst =
     bnd (task_instance_get_return_args inst) (\<lambda>retarg. andthen (task_instance_destroy inst) (ret retarg))"

definition deliver_result :: "env \<Rightarrow> cbor_encoder \<Rightarrow> addr \<Rightarrow> addr \<Rightarrow> addr \<Rightarrow> unit c_prog" where
  "deliver_result e E cn cmd retarg =
     (if retarg = 0 then
        andthen (command_free cmd) (bnd (cnode_send_error e E cn cmd) (\<lambda>_. ret ()))
      else
        bnd (cnode_send_response e E cn cmd retarg) (\<lambda>_.
        andthen (command_args_free retarg) (command_free cmd)))"

text \<open>Where the task is: about to take a command, or waiting with a command for an instance.\<close>

datatype proc = P_idle | P_wait addr addr

fun proc_step :: "env \<Rightarrow> cbor_encoder \<Rightarrow> addr \<Rightarrow> proc \<Rightarrow> proc c_prog" where
  "proc_step e E cn P_idle =
     bnd (load as_cnode cn) (\<lambda>_.
     bnd (ask (e_next e)) (\<lambda>r. case r of
       None \<Rightarrow> andthen (call Q_empty) (ret P_idle)
     | Some cmd \<Rightarrow> andthen (call (Q_recv cmd)) (bnd (load as_cmd cmd) (\<lambda>c.
         if c_cmd c = cmd_code CMD_REXEC then andthen (process_rexec e E cn cmd) (ret P_idle)
         else if c_cmd c = cmd_code CMD_GET_REXEC_RES then
           bnd (find_result cn cmd) (\<lambda>f. case f of
             None \<Rightarrow> andthen (deliver_result e E cn cmd 0) (ret P_idle)
           | Some inst \<Rightarrow> ret (P_wait cmd inst))
         else bnd (cnode_send_error e E cn cmd) (\<lambda>_. ret P_idle)))))"
| "proc_step e E cn (P_wait cmd inst) =
     bnd (load as_inst inst) (\<lambda>i.
     if has_finished i then
       bnd (take_result inst) (\<lambda>retarg. andthen (deliver_result e E cn cmd retarg) (ret P_idle))
     else ret (P_wait cmd inst))"

text \<open>Step after step until the task is idle again, with \<open>others\<close> between two polls.\<close>

primrec until_idle :: "env \<Rightarrow> cbor_encoder \<Rightarrow> addr \<Rightarrow> unit c_prog \<Rightarrow> nat \<Rightarrow> proc \<Rightarrow> unit c_prog" where
  "until_idle e E cn others 0 pc = (if pc = P_idle then ret () else raise NoFuel)"
| "until_idle e E cn others (Suc k) pc = (if pc = P_idle then ret ()
     else bnd (proc_step e E cn pc) (\<lambda>pc'. if pc' = P_idle then ret () else andthen others (until_idle e E cn others k pc')))"

lemma return_task_halves:
  "cnode_return_task others k cn cmd = bnd (find_result cn cmd) (\<lambda>f. case f of
     None \<Rightarrow> ret 0 | Some inst \<Rightarrow> andthen (wait_finished others k inst) (take_result inst))"
  by (rule ext) (simp add: cnode_return_task_def find_result_def take_result_def prog_simps
      split: sum.splits prod.splits option.splits)

lemma wait_steps:
  "andthen (wait_finished others k inst) (bnd (take_result inst) (deliver_result e E cn cmd))
    = until_idle e E cn others k (P_wait cmd inst)"
proof (induction k)
  case 0
  show ?case by (rule ext) (simp add: prog_simps)
next
  case (Suc k)
  show ?case
  proof (rule ext)
    fix s
    show "andthen (wait_finished others (Suc k) inst) (bnd (take_result inst) (deliver_result e E cn cmd)) s
      = until_idle e E cn others (Suc k) (P_wait cmd inst) s"
      by (auto simp: prog_simps fun_cong [OF Suc, symmetric] split: sum.splits prod.splits)
  qed
qed

text \<open>The steps the processing task is cut into are, one after the other, exactly a round of the loop in
  \<open>_cnode_process_cmd\<close>'s task, whatever the other tasks do between two polls.\<close>

lemma proc_steps_round:
  "cnode_round e E others k cn = bnd (proc_step e E cn P_idle) (until_idle e E cn others k)"
proof -
  have result: "process_get_result e E others k cn cmd = bnd (find_result cn cmd) (\<lambda>f. case f of
      None \<Rightarrow> deliver_result e E cn cmd 0
    | Some inst \<Rightarrow> until_idle e E cn others k (P_wait cmd inst))" for cmd
    unfolding wait_steps [symmetric] process_get_result_def return_task_halves deliver_result_def
    by (rule ext) (simp add: prog_simps split: sum.splits prod.splits option.splits)
  have idle: "until_idle e E cn others k P_idle = ret ()" by (cases k) simp_all
  show ?thesis
    by (rule ext) (simp add: cnode_round_def cnode_process_cmd_def result idle prog_simps
        split: sum.splits prod.splits option.splits)
qed

end
