(* ===== verification/Node_Run.thy ===== *)
theory Node_Run
  imports Schedule Node_Steps
begin

text \<open>
  The firmware implements the abstract machine of \<open>Schedule\<close>: under every schedule the machine allows, no
  function of the firmware faults and the messages published are those of the machine. The invariant
  says which memory each queued command and each instance owns, and that nothing is owned twice.
\<close>

section \<open>What the record of external calls says\<close>

text \<open>The FreeRTOS tasks created, and the messages published.\<close>

fun tasks_started :: "ext_call list \<Rightarrow> addr list" where
  "tasks_started [] = []"
| "tasks_started (Rtos_task q # cs) = q # tasks_started cs"
| "tasks_started (_ # cs) = tasks_started cs"

fun published :: "ext_call list \<Rightarrow> reply list" where
  "published [] = []"
| "published (Z_put key bs # cs) = (key, bs) # published cs"
| "published (_ # cs) = published cs"

lemma tasks_started_append [simp]: "tasks_started (cs @ ds) = tasks_started cs @ tasks_started ds"
  by (induction cs rule: tasks_started.induct) auto

lemma published_append [simp]: "published (cs @ ds) = published cs @ published ds"
  by (induction cs rule: published.induct) auto

section \<open>The firmware's side of an event\<close>

text \<open>The memory, where the processing task is, and where the worker of each call is.\<close>

record node_config =
  cf_world :: world
  cf_proc :: proc
  cf_workers :: "nat \<Rightarrow> worker"

definition on_world :: "'r c_prog \<Rightarrow> ('r \<Rightarrow> node_config \<Rightarrow> node_config) \<Rightarrow> node_config \<Rightarrow> fault + node_config" where
  "on_world prg upd c = (case prg (cf_world c) of Inl f \<Rightarrow> Inl f | Inr (r, s) \<Rightarrow> Inr ((upd r c)\<lparr>cf_world := s\<rparr>))"

text \<open>The worker that takes a step as the \<open>m\<close>th is the task created \<open>b + m\<close> tasks after power-on.\<close>

fun node_step :: "env \<Rightarrow> cbor_encoder \<Rightarrow> 'v cbor_parser \<Rightarrow> nat \<Rightarrow> locals
    \<Rightarrow> (nat \<Rightarrow> addr \<Rightarrow> addr \<Rightarrow> addr c_prog) \<Rightarrow> bool \<Rightarrow> (item \<Rightarrow> u8 list) \<Rightarrow> addr \<Rightarrow> char list \<Rightarrow> string \<Rightarrow> nat
    \<Rightarrow> node_event \<Rightarrow> node_config \<Rightarrow> fault + node_config" where
  "node_step e E P fuel l stub tk bytes cn key fn b (Deliver m) c =
     on_world (cnode_data_handler e P fuel l cn key (bytes (msg_item fn m))) (\<lambda>_ c. c) c"
| "node_step e E P fuel l stub tk bytes cn key fn b (Echo own payload) c =
     on_world (cnode_data_handler e P fuel l cn own payload) (\<lambda>_ c. c) c"
| "node_step e E P fuel l stub tk bytes cn key fn b Proc c =
     on_world (proc_step e E cn (cf_proc c)) (\<lambda>pc c. c\<lparr>cf_proc := pc\<rparr>) c"
| "node_step e E P fuel l stub tk bytes cn key fn b (Work m) c =
     on_world (worker_step stub tk (tasks_started (trace (cf_world c)) ! (b + m)) (cf_workers c m))
       (\<lambda>w c. c\<lparr>cf_workers := (cf_workers c)(m := w)\<rparr>) c"

fun steps :: "('e \<Rightarrow> 'c \<Rightarrow> 'f + 'c) \<Rightarrow> 'e list \<Rightarrow> 'c \<Rightarrow> 'f + 'c" where
  "steps stp [] c = Inr c"
| "steps stp (ev # evs) c = (case stp ev c of Inl f \<Rightarrow> Inl f | Inr c' \<Rightarrow> steps stp evs c')"

lemma steps_append: "steps stp (evs @ evs') c = (case steps stp evs c of Inl f \<Rightarrow> Inl f | Inr c' \<Rightarrow> steps stp evs' c')"
  by (induction evs arbitrary: c) (auto split: sum.splits)

text \<open>
  The function \<open>f\<close> of the entry point computes \<open>F\<close>: on arguments that have the values \<open>vs\<close> its result,
  read with the task's return type, has the value \<open>F vs\<close>.
\<close>

definition computes :: "(arg_t list \<Rightarrow> argvalue_t) \<Rightarrow> (argv list \<Rightarrow> argv) \<Rightarrow> argtype_t \<Rightarrow> string \<Rightarrow> bool" where
  "computes f F ty asig \<longleftrightarrow> (\<forall>s ds vs. map (arg_view s) ds = map Some vs \<longrightarrow> map char_to_argtype asig = map val_type vs \<longrightarrow>
     arg_view s \<lparr>nargs = 1, arg_type = ty, arg_val = f ds\<rparr> = Some (F vs) \<and> plain (F vs) \<and> sendable (F vs))"

section \<open>Simulation in general\<close>

text \<open>A machine that follows another step by step follows it over any run the other allows.\<close>

locale simulation =
  fixes stp :: "'e \<Rightarrow> 'c \<Rightarrow> 'f + 'c" and spc :: "'a \<Rightarrow> 'e \<Rightarrow> ('a \<times> 'o list) option"
    and rel :: "'c \<Rightarrow> 'a \<Rightarrow> bool" and out :: "'c \<Rightarrow> 'o list" and ok :: "'o \<Rightarrow> bool"
  assumes sim_step: "rel c A \<Longrightarrow> spc A ev = Some (A', os) \<Longrightarrow> list_all ok os \<Longrightarrow>
    \<exists>c'. stp ev c = Inr c' \<and> rel c' A' \<and> out c' = out c @ os"
begin

lemma sim_run:
  "rel c A \<Longrightarrow> spec_run spc A evs = Some (A', os) \<Longrightarrow> list_all ok os \<Longrightarrow>
    \<exists>c'. steps stp evs c = Inr c' \<and> rel c' A' \<and> out c' = out c @ os"
proof (induction evs arbitrary: c A os)
  case (Cons ev evs)
  from Cons.prems(2) obtain A1 os1 os2 where
    first: "spc A ev = Some (A1, os1)" and rest: "spec_run spc A1 evs = Some (A', os2)" and os: "os = os1 @ os2"
    by (auto split: option.splits)
  with Cons.prems(3) have fit: "list_all ok os1" "list_all ok os2" by simp_all
  from sim_step [OF Cons.prems(1) first fit(1)] obtain c1 where
    c1: "stp ev c = Inr c1" "rel c1 A1" "out c1 = out c @ os1" by blast
  from Cons.IH [OF c1(2) rest fit(2)] obtain c2 where
    "steps stp evs c1 = Inr c2" "rel c2 A'" "out c2 = out c1 @ os2" by blast
  with c1 os show ?case by simp
qed simp

end

section \<open>The commands in the queue\<close>

type_synonym held_cmd = "addr \<times> command_t \<times> arg_t list"

abbreviation foot :: "held_cmd \<Rightarrow> addr list" where
  "foot b \<equiv> cmd_ptrs (fst b) (fst (snd b)) (snd (snd b))"

abbreviation feet :: "held_cmd list \<Rightarrow> addr list" where
  "feet bs \<equiv> concat (map foot bs)"

text \<open>A command in memory that is a message as the controller wrote it.\<close>

definition held :: "(item \<Rightarrow> u8 list) \<Rightarrow> string \<Rightarrow> string \<Rightarrow> world \<Rightarrow> held_cmd \<Rightarrow> message \<Rightarrow> bool" where
  "held bytes fn asig s b m \<longleftrightarrow> cmd_at s (fst b) (fst (snd b)) (snd (snd b)) (map received (msg_vals m))
     \<and> c_refcount (fst (snd b)) = 1 \<and> terminated (fst (snd b))
     \<and> says (fst (snd b)) (msg_code m) (rq_sub (msg_rq m)) fn (int_id (rq_tid (msg_rq m))) (rq_node (msg_rq m)) (rq_sig (msg_rq m))
     \<and> deliverable bytes fn asig m"

lemma held_cong: "held bytes fn asig s b m \<Longrightarrow> \<forall>x \<in> set (foot b). heap s' x = heap s x \<Longrightarrow> held bytes fn asig s' b m"
  unfolding held_def using cmd_at_cong by blast

lemma held_all_cong:
  "list_all2 (held bytes fn asig s) bs ms \<Longrightarrow> \<forall>x \<in> set (feet bs). heap s' x = heap s x \<Longrightarrow>
    list_all2 (held bytes fn asig s') bs ms"
proof (induction rule: list_all2_induct)
  case (Cons b bs m ms)
  then show ?case using held_cong [of bytes fn asig s b m s'] by auto
qed simp

lemma held_live:
  assumes "list_all2 (held bytes fn asig s) bs ms" "x \<in> set (feet bs)"
  shows "\<exists>ob. heap s x = Some ob \<and> \<not> service_obj ob \<and> (\<forall>i. ob \<noteq> OInst i)"
proof -
  from assms(2) obtain b where b: "b \<in> set bs" "x \<in> set (foot b)" by auto
  with assms(1) obtain m where "held bytes fn asig s b m"
    by (auto simp: list_all2_conv_all_nth in_set_conv_nth)
  with cmd_at_owned_live [OF _ b(2)] obtain ob where "heap s x = Some ob" "\<forall>t. ob \<noteq> OTask t" "\<forall>n. ob \<noteq> OCnode n"
    "\<forall>n. ob \<noteq> OInst n" "\<forall>n. ob \<noteq> OTboard n" "\<forall>n. ob \<noteq> OPub n"
    unfolding held_def by blast
  then show ?thesis by (cases ob) auto
qed

lemma answerable_held: "held bytes fn asig s b m \<Longrightarrow> answerable bytes (fst (snd b))"
  by (rule answerable_says) (auto simp: held_def deliverable_def status_msg_def)

section \<open>The instances of the calls\<close>

text \<open>Where the worker is after so many steps, with the pointers of its execution context.\<close>

fun worker_at :: "nat \<Rightarrow> addr \<Rightarrow> addr \<Rightarrow> worker" where
  "worker_at n a r = (if n = 0 then W_start else if n = 1 then W_call a r else if n = 2 then W_flag r
     else if n = 3 then W_stop r else if n = 4 then W_result r else if n = 5 then W_report else W_done)"

text \<open>
  The instance of an open call: it belongs to the task, has the call's id, holds the values the controller
  sent and, once its worker has called the entry point, the value of the function on them.
\<close>

definition inst_at :: "(argv list \<Rightarrow> argv) \<Rightarrow> task_t \<Rightarrow> worker \<Rightarrow> world \<Rightarrow> addr \<Rightarrow> addr \<Rightarrow> rcall
    \<Rightarrow> task_instance_t \<Rightarrow> arg_t list \<Rightarrow> arg_t \<Rightarrow> bool" where
  "inst_at F t w s p q c i ds a \<longleftrightarrow> heap s q = Some (OInst i) \<and> serial_id i = rq_id (fst c)
     \<and> parent_task i = p \<and> args_at s (i_args i) ds (rq_args (fst c)) \<and> heap s (i_return_arg i) = Some (OArgs [a])
     \<and> nargs a = 1 \<and> arg_type a = t_return_type t
     \<and> (has_finished i \<longleftrightarrow> FLAGGED \<le> progress (snd c)) \<and> w = worker_at (progress (snd c)) (i_args i) (i_return_arg i)
     \<and> (2 \<le> progress (snd c) \<longrightarrow> arg_view s a = Some (F (rq_args (fst c)))
          \<and> plain (F (rq_args (fst c))) \<and> sendable (F (rq_args (fst c))))"

definition call_at :: "(argv list \<Rightarrow> argv) \<Rightarrow> task_t \<Rightarrow> worker \<Rightarrow> world \<Rightarrow> addr \<Rightarrow> addr \<Rightarrow> rcall \<Rightarrow> bool" where
  "call_at F t w s p q c \<longleftrightarrow> takes (t_fn_argsig t) (Rexec (fst c)) \<and> (\<exists>i ds a. inst_at F t w s p q c i ds a)"

lemma call_atE:
  assumes "call_at F t w s p q c"
  obtains i ds a where "inst_at F t w s p q c i ds a" "takes (t_fn_argsig t) (Rexec (fst c))"
  using assms unfolding call_at_def by blast

lemma inst_atD:
  assumes "inst_at F t w s p q c i ds a"
  shows "heap s q = Some (OInst i)" "serial_id i = rq_id (fst c)" "parent_task i = p"
    "args_at s (i_args i) ds (rq_args (fst c))" "heap s (i_return_arg i) = Some (OArgs [a])" "nargs a = 1"
    "arg_type a = t_return_type t" "has_finished i \<longleftrightarrow> FLAGGED \<le> progress (snd c)"
    "w = worker_at (progress (snd c)) (i_args i) (i_return_arg i)"
    "2 \<le> progress (snd c) \<Longrightarrow> arg_view s a = Some (F (rq_args (fst c))) \<and> plain (F (rq_args (fst c))) \<and> sendable (F (rq_args (fst c)))"
  using assms unfolding inst_at_def by blast+

lemma call_at_cong:
  assumes c: "call_at F t w s p q c" and wf: "wf_mem s" and same: "\<forall>x \<in> set (inst_ptrs s q). heap s' x = heap s x"
    and t': "t_fn_argsig t' = t_fn_argsig t" "t_return_type t' = t_return_type t"
  shows "call_at F t' w s' p q c" "inst_ptrs s' q = inst_ptrs s q"
proof -
  from c obtain i ds a where at: "inst_at F t w s p q c i ds a" and takes: "takes (t_fn_argsig t) (Rexec (fst c))"
    by (rule call_atE)
  note i = inst_atD [OF at]
  have "i_args i \<noteq> 0" using wf_memD [OF wf args_at_heap [OF i(4)]] by simp
  with i(1) have "{q, i_return_arg i, i_args i} \<subseteq> set (inst_ptrs s q)" by (simp add: inst_ptrs_def)
  with same i(1,5) args_at_heap [OF i(4)] have h: "heap s' q = Some (OInst i)" "heap s' (i_return_arg i) = Some (OArgs [a])"
    "heap s' (i_args i) = Some (OArgs ds)" by auto
  then show "inst_ptrs s' q = inst_ptrs s q" using i(1) by (simp add: inst_ptrs_def)
  have "args_at s' (i_args i) ds (rq_args (fst c))" using args_at_plain [OF i(4) _ h(3)] takes by simp
  with at h have "inst_at F t' w s' p q c i ds a"
    unfolding inst_at_def t' using arg_view_plain [of s a _ s'] by auto
  with takes show "call_at F t' w s' p q c" unfolding call_at_def t' by blast
qed

text \<open>The task's slots hold the open calls, whose instances are \<open>qs\<close> and whose workers are where \<open>ws\<close> says.\<close>

definition seated :: "(argv list \<Rightarrow> argv) \<Rightarrow> (nat \<Rightarrow> worker) \<Rightarrow> world \<Rightarrow> addr \<Rightarrow> task_t \<Rightarrow> addr list \<Rightarrow> rcall list \<Rightarrow> nat option list \<Rightarrow> bool" where
  "seated F ws s p t qs cs seats \<longleftrightarrow> seating cs seats \<and> length qs = length cs \<and> slots s t = seat_ids cs seats
     \<and> instances t = map (\<lambda>x. case x of None \<Rightarrow> 0 | Some m \<Rightarrow> qs ! m) seats
     \<and> (\<forall>m < length cs. is_open (cs ! m) \<longrightarrow> call_at F t (ws m) s p (qs ! m) (cs ! m))
     \<and> (\<forall>m \<ge> length cs. ws m = W_start)"

lemma seatedD:
  assumes "seated F ws s p t qs cs seats"
  shows "seating cs seats" "length qs = length cs" "slots s t = seat_ids cs seats"
    "instances t = map (\<lambda>x. case x of None \<Rightarrow> 0 | Some m \<Rightarrow> qs ! m) seats"
    "m < length cs \<Longrightarrow> is_open (cs ! m) \<Longrightarrow> call_at F t (ws m) s p (qs ! m) (cs ! m)"
    "length cs \<le> m \<Longrightarrow> ws m = W_start"
  using assms unfolding seated_def by blast+

lemma seated_slot:
  assumes se: "seated F ws s p t qs cs seats" and wf: "wf_mem s" and m: "m < length cs" "is_open (cs ! m)"
  shows "\<exists>j < 5. seats ! j = Some m \<and> instances t ! j = qs ! m" "qs ! m \<noteq> 0" "qs ! m \<in> set (live_slots t)"
proof -
  have c: "call_at F t (ws m) s p (qs ! m) (cs ! m)" and sg: "seating cs seats"
    and inst: "instances t = map (\<lambda>x. case x of None \<Rightarrow> 0 | Some m \<Rightarrow> qs ! m) seats"
    using seatedD [OF se] m by blast+
  show q: "qs ! m \<noteq> 0" using c wf_memD [OF wf] by (auto simp: call_at_def inst_at_def)
  from seatingD(1,3) [OF sg] m obtain j where j: "j < 5" "seats ! j = Some m" by blast
  with inst seatingD(1) [OF sg] have at: "instances t ! j = qs ! m" "j < length (instances t)" by simp_all
  with j show "\<exists>j < 5. seats ! j = Some m \<and> instances t ! j = qs ! m" by blast
  from at q show "qs ! m \<in> set (live_slots t)" using nth_mem [of j "instances t"] by simp
qed

lemma seated_find:
  assumes se: "seated F ws s p t qs cs seats" and m: "find_call cs k = Some m"
  shows "\<exists>j < 5. seats ! j = Some m \<and> instances t ! j = qs ! m \<and> slot_of s t k = Some j"
    "m < length cs" "is_open (cs ! m)" "rq_id (fst (cs ! m)) = k"
proof -
  have sg: "seating cs seats" and sl: "slots s t = seat_ids cs seats"
    and inst: "instances t = map (\<lambda>x. case x of None \<Rightarrow> 0 | Some m \<Rightarrow> qs ! m) seats"
    using seatedD [OF se] by blast+
  from seat_found [OF sg m] obtain j where "j < 5" "seats ! j = Some m" "slot_of s t k = Some j"
    unfolding slot_of_slots sl by blast
  with inst seatingD(1) [OF sg] show "\<exists>j < 5. seats ! j = Some m \<and> instances t ! j = qs ! m \<and> slot_of s t k = Some j"
    by (intro exI [of _ j]) simp
  show "m < length cs" "is_open (cs ! m)" "rq_id (fst (cs ! m)) = k"
    using m by (auto simp: find_call_def first_idx_Some)
qed

lemma seated_free:
  assumes se: "seated F ws s p t qs cs seats" and wf: "wf_mem s"
  shows "find_call cs k = None \<Longrightarrow> slot_of s t k = None" "length (live_slots t) = length (filter is_open cs)"
proof -
  have sg: "seating cs seats" and sl: "slots s t = seat_ids cs seats"
    and inst: "instances t = map (\<lambda>x. case x of None \<Rightarrow> 0 | Some m \<Rightarrow> qs ! m) seats"
    using seatedD [OF se] by blast+
  show "find_call cs k = None \<Longrightarrow> slot_of s t k = None" using seat_none [OF sg] unfolding slot_of_slots sl .
  have "qs ! m \<noteq> 0" if "Some m \<in> set seats" for m
  proof -
    from that seatingD(1) [OF sg] obtain i where "i < 5" "seats ! i = Some m" by (auto simp: in_set_conv_nth)
    from seatingD(2) [OF sg this] seated_slot(2) [OF se wf] show ?thesis by blast
  qed
  then have "filter (\<lambda>x. (case x of None \<Rightarrow> 0 | Some m \<Rightarrow> qs ! m) \<noteq> 0) seats = filter (\<lambda>x. x \<noteq> None) seats"
    by (intro filter_cong) (auto split: option.splits)
  then show "length (live_slots t) = length (filter is_open cs)"
    using seat_room [OF sg] by (simp add: inst filter_map comp_def)
qed

lemma seated_empty:
  assumes se: "seated F ws s p t qs cs seats" and wf: "wf_mem s" and j: "j < 5" "instances t ! j = 0"
  shows "seats ! j = None"
proof (rule ccontr)
  assume "seats ! j \<noteq> None"
  then obtain m where m: "seats ! j = Some m" by blast
  note d = seatedD [OF se]
  have "qs ! m = 0" using d(4) m j seatingD(1) [OF d(1)] by simp
  with seated_slot(2) [OF se wf] seatingD(2) [OF d(1) j(1) m] show False by blast
qed

lemma seated_owner:
  assumes se: "seated F ws s p t qs cs seats" and y: "y \<in> set (live_slots t)"
  shows "\<exists>m < length cs. is_open (cs ! m) \<and> y = qs ! m"
proof -
  note d = seatedD [OF se]
  from y d(4) obtain m where m: "Some m \<in> set seats" "y = qs ! m" by (auto split: option.splits)
  then obtain i where "i < 5" "seats ! i = Some m" using seatingD(1) [OF d(1)] by (auto simp: in_set_conv_nth)
  with seatingD(2) [OF d(1)] m(2) show ?thesis by blast
qed

text \<open>A call is added.\<close>

lemma seated_start:
  assumes se: "seated F ws s p t qs cs seats" and j: "j < 5" "seats ! j = None" and r: "find_call cs (rq_id r) = None"
    and old: "\<forall>m < length cs. is_open (cs ! m) \<longrightarrow> call_at F t' (ws m) s' p (qs ! m) (cs ! m)"
    and new: "call_at F t' W_start s' p q (r, Progress 0)"
    and t': "slots s' t' = (slots s t)[j := Some (rq_id r)]" "instances t' = (instances t)[j := q]"
  shows "seated F ws s' p t' (qs @ [q]) (cs @ [(r, Progress 0)]) (seats[j := Some (length cs)])"
proof -
  note d = seatedD [OF se]
  note st = seat_start [OF d(1) j r]
  have "m < length cs" if "Some m \<in> set seats" for m
    using that seatingD(1,2) [OF d(1)] by (auto simp: in_set_conv_nth)
  then have "map (\<lambda>x. case x of None \<Rightarrow> 0 | Some m \<Rightarrow> (qs @ [q]) ! m) seats = instances t"
    unfolding d(4) using d(2) by (auto simp: nth_append split: option.splits)
  then have inst: "instances t' = map (\<lambda>x. case x of None \<Rightarrow> 0 | Some m \<Rightarrow> (qs @ [q]) ! m) (seats[j := Some (length cs)])"
    using d(2) t'(2) by (simp add: map_update nth_append)
  have "call_at F t' (ws m) s' p ((qs @ [q]) ! m) ((cs @ [(r, Progress 0)]) ! m)"
    if "m < length (cs @ [(r, Progress 0)])" "is_open ((cs @ [(r, Progress 0)]) ! m)" for m
    using that old new d(2,6) by (cases "m = length cs") (auto simp: nth_append)
  with st(1) inst d(2,6) t'(1) show ?thesis unfolding seated_def st(2) d(3) by simp
qed

text \<open>Two open calls share nothing.\<close>

lemma slots_apart:
  assumes ok: "task_ok s p t" and ij: "i < 5" "j < 5" "i \<noteq> j" "instances t ! i \<noteq> 0" "instances t ! j \<noteq> 0"
  shows "set (inst_ptrs s (instances t ! i)) \<inter> set (inst_ptrs s (instances t ! j)) = {}"
proof -
  note tk = task_okD [OF ok]
  let ?a = "filter (\<lambda>q. q \<noteq> 0) (take i (instances t))" and ?b = "filter (\<lambda>q. q \<noteq> 0) (drop (Suc i) (instances t))"
  have "live_slots t = ?a @ instances t ! i # ?b"
    using filter_around(2) [of i "instances t" "\<lambda>q. q \<noteq> 0"] ij tk(3) by simp
  then have "distinct (insts_ptrs s ?a @ inst_ptrs s (instances t ! i) @ insts_ptrs s ?b)"
    using tk(5) by simp
  moreover have "instances t ! j \<in> set ?a \<union> set ?b"
  proof (cases "j < i")
    case True
    then show ?thesis using ij tk(3) by (auto simp: in_set_conv_nth intro!: exI [of _ j])
  next
    case False
    then have "drop (Suc i) (instances t) ! (j - Suc i) = instances t ! j" using ij tk(3) by simp
    with False ij tk(3) nth_mem [of "j - Suc i" "drop (Suc i) (instances t)"] show ?thesis by simp
  qed
  ultimately show ?thesis by auto
qed

lemma calls_apart:
  assumes se: "seated F ws s p t qs cs seats" and ok: "task_ok s p t"
    and m: "m < length cs" "is_open (cs ! m)" "m' < length cs" "is_open (cs ! m')" "m \<noteq> m'"
  shows "set (inst_ptrs s (qs ! m)) \<inter> set (inst_ptrs s (qs ! m')) = {}"
proof -
  note wf = task_okD(1) [OF ok]
  from seated_slot(1) [OF se wf m(1,2)] seated_slot(1) [OF se wf m(3,4)] obtain i j where
    "i < 5" "seats ! i = Some m" "instances t ! i = qs ! m" "j < 5" "seats ! j = Some m'" "instances t ! j = qs ! m'" by blast
  with slots_apart [OF ok, of i j] seated_slot(2) [OF se wf] m show ?thesis by (cases "i = j") auto
qed

text \<open>A change elsewhere.\<close>

lemma seated_cong:
  assumes se: "seated F ws s p t qs cs seats" and wf: "wf_mem s" and sl: "slots s' t = slots s t"
    and same: "\<forall>m < length cs. is_open (cs ! m) \<longrightarrow> (\<forall>x \<in> set (inst_ptrs s (qs ! m)). heap s' x = heap s x)"
  shows "seated F ws s' p t qs cs seats"
    "m < length cs \<Longrightarrow> is_open (cs ! m) \<Longrightarrow> inst_ptrs s' (qs ! m) = inst_ptrs s (qs ! m)"
proof -
  have at: "call_at F t (ws m) s' p (qs ! m) (cs ! m) \<and> inst_ptrs s' (qs ! m) = inst_ptrs s (qs ! m)"
    if "m < length cs" "is_open (cs ! m)" for m
    using call_at_cong [OF _ wf, of F t "ws m" p "qs ! m" "cs ! m" s' t] se same that unfolding seated_def by blast
  with se show "seated F ws s' p t qs cs seats" unfolding seated_def sl by blast
  from at show "m < length cs \<Longrightarrow> is_open (cs ! m) \<Longrightarrow> inst_ptrs s' (qs ! m) = inst_ptrs s (qs ! m)" by blast
qed

section \<open>The invariant\<close>

text \<open>No two queued commands own an object.\<close>

primrec disjoint_feet :: "held_cmd list \<Rightarrow> bool" where
  "disjoint_feet [] = True"
| "disjoint_feet (b # bs) = (set (foot b) \<inter> set (feet bs) = {} \<and> disjoint_feet bs)"

lemma disjoint_feet_snoc:
  "disjoint_feet (bs @ [b]) \<longleftrightarrow> disjoint_feet bs \<and> set (foot b) \<inter> set (feet bs) = {}"
  by (induction bs) auto

text \<open>The messages the node has commands of: the one in the hand of the processing task, and those in the queue.\<close>

abbreviation sp_msgs :: "spec \<Rightarrow> message list" where
  "sp_msgs A \<equiv> (case sp_wait A of None \<Rightarrow> [] | Some r \<Rightarrow> [Get r]) @ sp_queue A"

text \<open>
  The node, ready for its task \<open>t\<close>, is where the abstract machine is: the commands \<open>bs\<close> are the messages, the
  instances \<open>qs\<close> are those of the calls, and none shares memory with another.
\<close>

definition node_inv :: "(item \<Rightarrow> u8 list) \<Rightarrow> string \<Rightarrow> string \<Rightarrow> (argv list \<Rightarrow> argv) \<Rightarrow> addr \<Rightarrow> addr \<Rightarrow> nat \<Rightarrow> (nat \<Rightarrow> worker)
    \<Rightarrow> world \<Rightarrow> spec \<Rightarrow> cnode_t \<Rightarrow> tboard_t \<Rightarrow> task_t \<Rightarrow> addr list \<Rightarrow> held_cmd list \<Rightarrow> nat option list \<Rightarrow> bool" where
  "node_inv bytes fn key F cn p b ws s A n tb t qs bs seats \<longleftrightarrow> ready s cn n key tb fn p t
     \<and> pending (trace s) = map fst (if sp_wait A = None then bs else tl bs)
     \<and> list_all2 (held bytes fn (t_fn_argsig t) s) bs (sp_msgs A) \<and> disjoint_feet bs
     \<and> (\<exists>pre. tasks_started (trace s) = pre @ qs \<and> length pre = b) \<and> seated F ws s p t qs (sp_calls A) seats
     \<and> (\<forall>m < length (sp_calls A). is_open (sp_calls A ! m) \<longrightarrow> set (inst_ptrs s (qs ! m)) \<inter> set (feet bs) = {})"

lemma node_invD:
  assumes "node_inv bytes fn key F cn p b ws s A n tb t qs bs seats"
  shows "ready s cn n key tb fn p t" "pending (trace s) = map fst (if sp_wait A = None then bs else tl bs)"
    "list_all2 (held bytes fn (t_fn_argsig t) s) bs (sp_msgs A)" "disjoint_feet bs"
    "\<exists>pre. tasks_started (trace s) = pre @ qs \<and> length pre = b" "seated F ws s p t qs (sp_calls A) seats"
    "m < length (sp_calls A) \<Longrightarrow> is_open (sp_calls A ! m) \<Longrightarrow> set (inst_ptrs s (qs ! m)) \<inter> set (feet bs) = {}"
  using assms unfolding node_inv_def by blast+

lemma pending_length: "node_inv bytes fn key F cn p b ws s A n tb t qs bs seats \<Longrightarrow> length (pending (trace s)) = length (sp_queue A)"
  using node_invD(2,3) [of bytes fn key F cn p b ws s A n tb t qs bs seats] list_all2_lengthD
  by (fastforce split: option.splits)

text \<open>What commands and instances own is no service object and is allocated.\<close>

lemma open_live:
  assumes inv: "node_inv bytes fn key F cn p b ws s A n tb t qs bs seats" and m: "m < length (sp_calls A)" "is_open (sp_calls A ! m)"
    and x: "x \<in> set (inst_ptrs s (qs ! m))"
  shows "\<exists>ob. heap s x = Some ob \<and> \<not> service_obj ob"
proof -
  note r = readyD [OF node_invD(1) [OF inv]]
  have "qs ! m \<in> set (live_slots t)" using seated_slot(3) [OF node_invD(6) [OF inv] r(7) m] .
  then have "inst_ok s p (qs ! m)" using task_okD(6) [OF r(4)] by simp
  from inst_ptrs_objs [OF this x] show ?thesis by auto
qed

text \<open>What a step leaves of the queue and of the calls, if it changes only service objects and those in \<open>D\<close>.\<close>

lemma others_kept:
  assumes inv: "node_inv bytes fn key F cn p b ws s A n tb t qs bs seats"
    and same: "\<forall>x ob. heap s x = Some ob \<longrightarrow> \<not> service_obj ob \<longrightarrow> x \<notin> D \<longrightarrow> heap s' x = Some ob"
    and feet: "D \<inter> set (feet bs) = {}"
  shows "list_all2 (held bytes fn (t_fn_argsig t) s') bs (sp_msgs A)"
    and "m < length (sp_calls A) \<Longrightarrow> is_open (sp_calls A ! m) \<Longrightarrow> set (inst_ptrs s (qs ! m)) \<inter> D = {} \<Longrightarrow>
      t_fn_argsig t' = t_fn_argsig t \<Longrightarrow> t_return_type t' = t_return_type t \<Longrightarrow>
      call_at F t' (ws m) s' p (qs ! m) (sp_calls A ! m) \<and> inst_ptrs s' (qs ! m) = inst_ptrs s (qs ! m)"
proof -
  note d = node_invD [OF inv]
  have "\<forall>x \<in> set (feet bs). heap s' x = heap s x"
  proof
    fix x assume x: "x \<in> set (feet bs)"
    with feet have "x \<notin> D" by auto
    with held_live [OF d(3) x] same show "heap s' x = heap s x" by auto
  qed
  then show "list_all2 (held bytes fn (t_fn_argsig t) s') bs (sp_msgs A)" by (rule held_all_cong [OF d(3)])
  assume m: "m < length (sp_calls A)" "is_open (sp_calls A ! m)" "set (inst_ptrs s (qs ! m)) \<inter> D = {}"
    and t': "t_fn_argsig t' = t_fn_argsig t" "t_return_type t' = t_return_type t"
  have "\<forall>x \<in> set (inst_ptrs s (qs ! m)). heap s' x = heap s x"
  proof
    fix x assume x: "x \<in> set (inst_ptrs s (qs ! m))"
    with m(3) have "x \<notin> D" by auto
    with open_live [OF inv m(1,2) x] same show "heap s' x = heap s x" by auto
  qed
  from call_at_cong [OF seatedD(5) [OF d(6) m(1,2)] readyD(7) [OF d(1)] this t']
  show "call_at F t' (ws m) s' p (qs ! m) (sp_calls A ! m) \<and> inst_ptrs s' (qs ! m) = inst_ptrs s (qs ! m)" by blast
qed

text \<open>A step that only touches the node itself and fresh memory.\<close>

lemma node_inv_frame:
  assumes inv: "node_inv bytes fn key F cn p b ws s A n tb t qs bs seats"
    and r: "ready s' cn n' key tb' fn p t" "slots s' t = slots s t"
    and same: "\<forall>x ob. heap s x = Some ob \<longrightarrow> \<not> service_obj ob \<longrightarrow> heap s' x = Some ob"
    and tr: "pending (trace s') = pending (trace s)" "tasks_started (trace s') = tasks_started (trace s)"
  shows "node_inv bytes fn key F cn p b ws s' A n' tb' t qs bs seats"
proof -
  note d = node_invD [OF inv]
  have "list_all2 (held bytes fn (t_fn_argsig t) s') bs (sp_msgs A)" by (rule others_kept(1) [OF inv, of "{}"]) (use same in auto)
  moreover have each: "call_at F t (ws m) s' p (qs ! m) (sp_calls A ! m) \<and> inst_ptrs s' (qs ! m) = inst_ptrs s (qs ! m)"
    if "m < length (sp_calls A)" "is_open (sp_calls A ! m)" for m
    by (rule others_kept(2) [OF inv, of "{}"]) (use same that in auto)
  moreover have "seated F ws s' p t qs (sp_calls A) seats" using d(6) each unfolding seated_def r(2) by blast
  ultimately show ?thesis using d r tr unfolding node_inv_def by simp
qed

lemma node_inv_trace:
  assumes inv: "node_inv bytes fn key F cn p b ws s A n tb t qs bs seats" and h: "heap s' = heap s"
    and s': "wf_mem s'" "no_oom s'" "global_tboard s' = global_tboard s"
    and tr: "pending (trace s') = pending (trace s)" "tasks_started (trace s') = tasks_started (trace s)"
  shows "node_inv bytes fn key F cn p b ws s' A n tb t qs bs seats"
  using node_inv_frame [OF inv ready_heap [OF node_invD(1) [OF inv] h s'] _ tr] h by simp

text \<open>The processing task has a command in hand: the invariant is that of the others, and it shares nothing with them.\<close>

definition in_hand :: "(item \<Rightarrow> u8 list) \<Rightarrow> string \<Rightarrow> string \<Rightarrow> (argv list \<Rightarrow> argv) \<Rightarrow> addr \<Rightarrow> addr \<Rightarrow> nat \<Rightarrow> (nat \<Rightarrow> worker)
    \<Rightarrow> world \<Rightarrow> spec \<Rightarrow> cnode_t \<Rightarrow> tboard_t \<Rightarrow> task_t \<Rightarrow> addr list \<Rightarrow> held_cmd list \<Rightarrow> nat option list \<Rightarrow> held_cmd \<Rightarrow> message \<Rightarrow> bool" where
  "in_hand bytes fn key F cn p b ws s A n tb t qs bs seats h m \<longleftrightarrow> sp_wait A = None
     \<and> node_inv bytes fn key F cn p b ws s A n tb t qs bs seats \<and> held bytes fn (t_fn_argsig t) s h m
     \<and> set (foot h) \<inter> set (feet bs) = {}
     \<and> (\<forall>m < length (sp_calls A). is_open (sp_calls A ! m) \<longrightarrow> set (inst_ptrs s (qs ! m)) \<inter> set (foot h) = {})"

lemma node_takes:
  assumes qu: "command_queue e" and inv: "node_inv bytes fn key F cn p b ws s A n tb t qs bs seats"
    and q: "sp_wait A = None" "sp_queue A = m # ms"
  shows "\<exists>h bs'. bs = h # bs' \<and> e_next e (trace s) = Some (fst h)
    \<and> in_hand bytes fn key F cn p b ws (taken s (fst h)) (A\<lparr>sp_queue := ms\<rparr>) n tb t qs bs' seats h m"
proof -
  note d = node_invD [OF inv]
  note r = readyD [OF d(1)]
  from d(3) q obtain h bs' where bs: "bs = h # bs'" "held bytes fn (t_fn_argsig t) s h m"
    "list_all2 (held bytes fn (t_fn_argsig t) s) bs' ms" by (auto simp: list_all2_Cons2)
  let ?s = "taken s (fst h)"
  have next_cmd: "e_next e (trace s) = Some (fst h)" using command_queue.next_cmd [OF qu] d(2) bs(1) q(1) by simp
  have s': "wf_mem ?s" "no_oom ?s" "global_tboard ?s = global_tboard s" using r(5,7) by simp_all
  have rh: "ready ?s cn n key tb fn p t" "slots ?s t = slots s t" by (rule ready_heap [OF d(1) _ s'], simp)+
  have q': "list_all2 (held bytes fn (t_fn_argsig t) ?s) bs' ms" by (rule held_all_cong [OF bs(3)]) simp
  have h': "held bytes fn (t_fn_argsig t) ?s h m" by (rule held_cong [OF bs(2)]) simp
  note se = seated_cong [OF d(6) r(7) rh(2)]
  have "pending (trace ?s) = map fst bs'" using d(2) bs(1) q(1) by (simp add: pending_append)
  with d bs(1) q' rh(1) se h' q(1) have "in_hand bytes fn key F cn p b ws ?s (A\<lparr>sp_queue := ms\<rparr>) n tb t qs bs' seats h m"
    by (simp add: in_hand_def node_inv_def Int_Un_distrib)
  with bs(1) next_cmd show ?thesis by blast
qed

text \<open>While it waits, what it has in hand counts among the commands.\<close>

lemma node_waits:
  assumes "node_inv bytes fn key F cn p b ws s A n tb t qs bs seats" "sp_wait A = Some r"
  shows "\<exists>h bs'. bs = h # bs' \<and> in_hand bytes fn key F cn p b ws s (A\<lparr>sp_wait := None\<rparr>) n tb t qs bs' seats h (Get r)"
proof -
  note d = node_invD [OF assms(1)]
  from d(3) assms(2) obtain h bs' where bs: "bs = h # bs'" by (auto simp: list_all2_Cons2)
  with d assms(2) show ?thesis
    by (intro exI [of _ h] exI [of _ bs']) (simp add: in_hand_def node_inv_def Int_Un_distrib)
qed

lemma hand_waits:
  assumes "in_hand bytes fn key F cn p b ws s A n tb t qs bs seats h (Get r)"
  shows "node_inv bytes fn key F cn p b ws s (A\<lparr>sp_wait := Some r\<rparr>) n tb t qs (h # bs) seats"
proof -
  have w: "sp_wait A = None" using assms by (simp add: in_hand_def)
  from assms show ?thesis unfolding in_hand_def node_inv_def by (simp add: w Int_Un_distrib)
qed

section \<open>A message arrives\<close>

lemma deliver_step:
  assumes cb: "cbor_codec E P bytes view" and qu: "command_queue e" and key: "foreign_key fkey"
    and inv: "node_inv bytes fn key F cn p b ws s A n tb t qs bs seats" and m: "deliverable bytes fn (t_fn_argsig t) m"
    and room: "length (sp_queue A) < QUEUE_LENGTH" and l: "wf_locals l" and fuel: "20 \<le> fuel"
  shows "\<exists>s' n' h. cnode_data_handler e P fuel l cn fkey (bytes (msg_item fn m)) s = Inr ((), s')
    \<and> node_inv bytes fn key F cn p b ws s' (A\<lparr>sp_queue := sp_queue A @ [m]\<rparr>) n' tb t qs (bs @ [h]) seats
    \<and> published (trace s') = published (trace s)"
proof -
  note d = node_invD [OF inv]
  note r = readyD [OF d(1)]
  have "e_room e (trace s)"
    using command_queue.room [OF qu] room pending_length [OF inv] by simp
  from received_queued [OF cb this key r(6) _ _ _ _ _ r(7,5) l fuel, of fn "rq_node (msg_rq m)" "rq_sig (msg_rq m)" "msg_vals m"
      "msg_code m" "rq_sub (msg_rq m)" "rq_tid (msg_rq m)"] msg_vals_fit [OF m] m
  obtain cmd s1 c ds where h: "cnode_data_handler e P fuel l cn fkey (bytes (msg_item fn m)) s = Inr ((), s1)"
    "queued s s1 cn n cmd c ds (map received (msg_vals m))"
    "says c (msg_code m) (rq_sub (msg_rq m)) fn (int_id (rq_tid (msg_rq m))) (rq_node (msg_rq m)) (rq_sig (msg_rq m))"
    by (auto simp: msg_item_def deliverable_def)
  note q = queued_ready [OF h(2) d(1)]
  have qd: "trace s1 = trace s @ [Q_send cmd]" "held bytes fn (t_fn_argsig t) s1 (cmd, c, ds) m"
    using h(2,3) m by (simp_all add: queued_def held_def)
  have same: "\<forall>x ob. heap s x = Some ob \<longrightarrow> \<not> service_obj ob \<longrightarrow> heap s1 x = Some ob"
    using q(4) r(6) by (metis option.inject service_obj.simps(1))
  have olds: "list_all2 (held bytes fn (t_fn_argsig t) s1) bs (sp_msgs A)" by (rule others_kept(1) [OF inv, of "{}"]) (use same in auto)
  have q': "list_all2 (held bytes fn (t_fn_argsig t) s1) (bs @ [(cmd, c, ds)]) (sp_msgs (A\<lparr>sp_queue := sp_queue A @ [m]\<rparr>))"
    using list_all2_appendI [OF olds, of "[(cmd, c, ds)]" "[m]"] qd(2) by simp
  have each: "call_at F t (ws m) s1 p (qs ! m) (sp_calls A ! m) \<and> inst_ptrs s1 (qs ! m) = inst_ptrs s (qs ! m)"
    if "m < length (sp_calls A)" "is_open (sp_calls A ! m)" for m
    by (rule others_kept(2) [OF inv, of "{}"]) (use same that in auto)
  then have se: "seated F ws s1 p t qs (sp_calls A) seats" using d(6) unfolding seated_def q(2) by blast
  have "set (cmd_ptrs cmd c ds) \<inter> set (feet bs) = {}" using held_live [OF d(3)] q(3) by blast
  then have dis: "disjoint_feet (bs @ [(cmd, c, ds)])" using d(4) by (simp add: disjoint_feet_snoc)
  have "set (inst_ptrs s (qs ! m)) \<inter> set (feet (bs @ [(cmd, c, ds)])) = {}"
    if "m < length (sp_calls A)" "is_open (sp_calls A ! m)" for m
    using d(7) [OF that] open_live [OF inv that] q(3) by fastforce
  moreover have "pending (trace s1) = map fst (if sp_wait A = None then bs @ [(cmd, c, ds)] else tl (bs @ [(cmd, c, ds)]))"
    using d(2,3) qd(1) by (cases bs) (auto simp: pending_append split: option.splits)
  ultimately
  have "node_inv bytes fn key F cn p b ws s1 (A\<lparr>sp_queue := sp_queue A @ [m]\<rparr>) (n\<lparr>cn_message_received := True\<rparr>) tb t qs
      (bs @ [(cmd, c, ds)]) seats"
    using d(5) q(1) q' dis se each qd(1) unfolding node_inv_def by simp
  with h(1) qd(1) show ?thesis by (intro exI [of _ s1]) auto
qed

lemma drop_step:
  assumes cb: "cbor_codec E P bytes view" and qu: "command_queue e" and key: "foreign_key fkey"
    and inv: "node_inv bytes fn key F cn p b ws s A n tb t qs bs seats" and m: "deliverable bytes fn (t_fn_argsig t) m"
    and full: "\<not> length (sp_queue A) < QUEUE_LENGTH" and l: "wf_locals l" and fuel: "20 \<le> fuel"
  shows "\<exists>s' n'. cnode_data_handler e P fuel l cn fkey (bytes (msg_item fn m)) s = Inr ((), s')
    \<and> node_inv bytes fn key F cn p b ws s' A n' tb t qs bs seats \<and> published (trace s') = published (trace s)"
proof -
  note d = node_invD [OF inv]
  note r = readyD [OF d(1)]
  have "\<not> e_room e (trace s)"
    using command_queue.room [OF qu] full pending_length [OF inv] by simp
  from received_dropped [OF cb this key r(6) _ _ _ _ _ r(7,5) l fuel, of fn "rq_node (msg_rq m)" "rq_sig (msg_rq m)" "msg_vals m"
      "msg_code m" "rq_sub (msg_rq m)" "rq_tid (msg_rq m)"] msg_vals_fit [OF m] m
  obtain x s1 where h: "cnode_data_handler e P fuel l cn fkey (bytes (msg_item fn m)) s = Inr ((), s1)" "dropped s s1 cn n x"
    by (auto simp: msg_item_def deliverable_def)
  have tr: "trace s1 = trace s @ [Q_full x]" using h(2) by (simp add: dropped_def)
  have "\<forall>x ob. heap s x = Some ob \<longrightarrow> \<not> service_obj ob \<longrightarrow> heap s1 x = Some ob"
    using h(2) r(6) by (auto simp: dropped_def)
  from node_inv_frame [OF inv dropped_ready [OF h(2) d(1)] this] tr h(1) show ?thesis
    by (intro exI [of _ s1]) (auto simp: pending_append)
qed

section \<open>A round of the processing task\<close>

lemma in_handD:
  assumes "in_hand bytes fn key F cn p b ws s A n tb t qs bs seats h m"
  shows "node_inv bytes fn key F cn p b ws s A n tb t qs bs seats"
    "cmd_at s (fst h) (fst (snd h)) (snd (snd h)) (map received (msg_vals m))" "c_refcount (fst (snd h)) = 1"
    "answerable bytes (fst (snd h))"
    "says (fst (snd h)) (msg_code m) (rq_sub (msg_rq m)) fn (int_id (rq_tid (msg_rq m))) (rq_node (msg_rq m)) (rq_sig (msg_rq m))"
    "deliverable bytes fn (t_fn_argsig t) m" "heap s (fst h) = Some (OCmd (fst (snd h)))"
    "set (foot h) \<inter> set (feet bs) = {}"
    "i < length (sp_calls A) \<Longrightarrow> is_open (sp_calls A ! i) \<Longrightarrow> set (inst_ptrs s (qs ! i)) \<inter> set (foot h) = {}"
  using assms answerable_held [of bytes fn _ s h m] unfolding in_hand_def held_def cmd_at_def by blast+

text \<open>A command it does not know is answered with an error; its memory stays with nobody.\<close>

lemma other_step:
  assumes cb: "cbor_codec E P bytes view" and hand: "in_hand bytes fn key F cn p b ws s A n tb t qs bs seats h (Other x r)"
  shows "\<exists>ok s'. cnode_send_error e E cn (fst h) s = Inr (ok, s')
    \<and> node_inv bytes fn key F cn p b ws s' A n tb t qs bs seats
    \<and> published (trace s') = published (trace s) @ [(key, bytes (status_msg CMD_REXEC_ERR fn r))]"
proof -
  note d = in_handD [OF hand]
  note rd = readyD [OF node_invD(1) [OF d(1)]]
  from send_status_bytes [OF cb rd(7,5,1) d(7,4), of CMD_REXEC_ERR e] obtain s' where
    sd: "send_status e E CMD_REXEC_ERR cn (fst h) s = Inr (e_ok e (trace s @ [Z_put key (bytes (status_item CMD_REXEC_ERR (fst (snd h))))]), s')"
    "sent s s' key (bytes (status_item CMD_REXEC_ERR (fst (snd h))))" by auto
  have "node_inv bytes fn key F cn p b ws s' A n tb t qs bs seats"
    by (rule node_inv_trace [OF d(1)]) (use sd(2) rd(5) in \<open>simp_all add: sent_def pending_append no_oom_def\<close>)
  moreover have "status_item CMD_REXEC_ERR (fst (snd h)) = status_msg CMD_REXEC_ERR fn r"
    using d(5) by (simp add: status_item_def status_msg_def says_def)
  ultimately show ?thesis using sd by (auto simp: sent_def cnode_send_error_def)
qed

text \<open>A request starts a new instance; of the commands and the other instances nothing changes.\<close>

lemma rexec_starts:
  assumes cb: "cbor_codec E P bytes view" and hand: "in_hand bytes fn key F cn p b ws s A n tb t qs bs seats h (Rexec r)"
    and free: "find_call (sp_calls A) (rq_id r) = None" "length (filter is_open (sp_calls A)) < 5"
  shows "\<exists>s' j. process_rexec e E cn (fst h) s = Inr ((), s') \<and> j < 5 \<and> instances t ! j = 0
    \<and> ready s' cn n key tb fn p (with_inst t j (Suc (brk s)))
    \<and> instance_at s' p (with_inst t j (Suc (brk s))) (rq_id r) (Suc (brk s)) (launched s p (rq_id r)) (snd (snd h)) (rq_args r)
        \<lparr>nargs = 1, arg_type = t_return_type t, arg_val = ZVal\<rparr>
    \<and> slots s' (with_inst t j (Suc (brk s))) = (slots s t)[j := Some (rq_id r)]
    \<and> (\<forall>y ob. heap s y = Some ob \<longrightarrow> \<not> service_obj ob \<longrightarrow> y \<notin> set (foot h) \<longrightarrow> heap s' y = Some ob)
    \<and> trace s' = trace s @ [Rtos_task (Suc (brk s)), Z_put key (bytes (status_msg CMD_REXEC_ACK fn r))]"
proof -
  note d = in_handD [OF hand]
  note inv = node_invD [OF d(1)]
  note rd = readyD [OF inv(1)] and tk = task_okD [OF readyD(4) [OF inv(1)]]
  let ?c = "fst (snd h)" and ?ds = "snd (snd h)" and ?k = "rq_id r"
  have c: "c_str (c_fn_name ?c) = fn" "ucast (c_task_id ?c) = ?k" "status_item CMD_REXEC_ACK ?c = status_msg CMD_REXEC_ACK fn r"
    using d(5) by (simp_all add: says_def status_item_def status_msg_def)
  have takes: "takes (t_fn_argsig t) (Rexec r)" and at: "cmd_at s (fst h) ?c ?ds (rq_args r)"
    using d(2,6) by (simp_all add: deliverable_def)
  then have args: "c_args ?c \<noteq> 0" by (auto simp: cmd_at_def split: if_splits)
  then have ats: "args_at s (c_args ?c) ?ds (rq_args r)" using at by (simp add: cmd_at_def)
  have types: "map char_to_argtype (t_fn_argsig t) = map val_type (rq_args r)" and plain: "list_all plain (rq_args r)"
    using takes by simp_all
  then have "length (t_fn_argsig t) = length (rq_vals r)" using map_eq_imp_length_eq [OF types] by simp
  then have fit: "args_fit (t_fn_argsig t) ?ds" using args_fit_vals [OF ats types] takes by simp
  have fresh: "slot_of s t ?k = None" and live: "length (live_slots t) < 5"
    using seated_free [OF inv(6) rd(7)] free by simp_all
  from process_rexec_ok [OF cb rd(1) at d(3,4) args rd(2) _ rd(4) live _ fit rd(5), of e] rd(3) fresh
  obtain s' j where x: "process_rexec e E cn (fst h) s = Inr ((), s')"
    "heap s' = (\<lambda>x. if x \<in> set (foot h) then None else heap (started s p t ?k j ?ds) x)"
    "stop_slot s t ?k = Some j"
    "trace s' = trace s @ [Rtos_task (Suc (brk s)), Z_put key (bytes (status_msg CMD_REXEC_ACK fn r))]"
    "wf_mem s'" "no_oom s'" "global_tboard s' = global_tboard s"
    unfolding c by blast
  have j: "j < 5" "instances t ! j = 0" using fresh_stop_slot [OF x(3) fresh] tk(3) by auto
  have sep: "\<forall>y \<in> set (live_slots t). set (inst_ptrs s y) \<inter> set (foot h) = {}"
    using seated_owner [OF inv(6)] d(9) by blast
  have "\<forall>y ob. heap s y = Some ob \<longrightarrow> \<not> service_obj ob \<longrightarrow> y \<notin> set (foot h) \<longrightarrow> heap s' y = Some ob"
    using started_released(7) [OF rd(4) at args sep fresh x(3,5,2)] tk(2) by (metis option.inject service_obj.simps(4))
  with x j start_ready [OF inv(1) at args plain sep fresh x(3,2,5,6,7)] show ?thesis by blast
qed

lemma rexec_step:
  assumes cb: "cbor_codec E P bytes view" and hand: "in_hand bytes fn key F cn p b ws s A n tb t qs bs seats h (Rexec r)"
    and free: "find_call (sp_calls A) (rq_id r) = None" "length (filter is_open (sp_calls A)) < 5"
  shows "\<exists>s' q j. process_rexec e E cn (fst h) s = Inr ((), s')
    \<and> node_inv bytes fn key F cn p b ws s' (A\<lparr>sp_calls := sp_calls A @ [(r, Progress 0)]\<rparr>) n tb (with_inst t j q) (qs @ [q]) bs
        (seats[j := Some (length (sp_calls A))])
    \<and> published (trace s') = published (trace s) @ [(key, bytes (status_msg CMD_REXEC_ACK fn r))]"
proof -
  note d = in_handD [OF hand]
  note inv = node_invD [OF d(1)]
  note rd = readyD [OF inv(1)] and se = seatedD [OF inv(6)]
  let ?cs = "sp_calls A" and ?q = "Suc (brk s)"
  from rexec_starts [OF cb hand free, of e] obtain s' j where run: "process_rexec e E cn (fst h) s = Inr ((), s')"
    and j: "j < 5" "instances t ! j = 0" and rd': "ready s' cn n key tb fn p (with_inst t j ?q)"
    and at: "instance_at s' p (with_inst t j ?q) (rq_id r) ?q (launched s p (rq_id r)) (snd (snd h)) (rq_args r)
        \<lparr>nargs = 1, arg_type = t_return_type t, arg_val = ZVal\<rparr>"
    and sl: "slots s' (with_inst t j ?q) = (slots s t)[j := Some (rq_id r)]"
    and same: "\<forall>y ob. heap s y = Some ob \<longrightarrow> \<not> service_obj ob \<longrightarrow> y \<notin> set (foot h) \<longrightarrow> heap s' y = Some ob"
    and tr: "trace s' = trace s @ [Rtos_task ?q, Z_put key (bytes (status_msg CMD_REXEC_ACK fn r))]" by blast
  let ?t = "with_inst t j ?q" and ?cs' = "?cs @ [(r, Progress 0)]" and ?seats = "seats[j := Some (length ?cs)]"
  note kept = others_kept [OF d(1) same d(8)]
  have olds: "call_at F ?t (ws m) s' p (qs ! m) (?cs ! m) \<and> inst_ptrs s' (qs ! m) = inst_ptrs s (qs ! m)"
    if "m < length ?cs" "is_open (?cs ! m)" for m
    by (rule kept(2)) (use that d(9) in simp_all)
  have "takes (t_fn_argsig t) (Rexec r)" using d(6) by (simp add: deliverable_def)
  then have new: "call_at F ?t W_start s' p ?q (r, Progress 0)"
    using at unfolding call_at_def inst_at_def instance_at_def by (auto simp: launched_def new_inst_def zero_inst_def)
  have newp: "set (inst_ptrs s' ?q) \<subseteq> {brk s<..}"
    using at by (auto simp: instance_at_def inst_ptrs_def launched_def new_inst_def zero_inst_def split: if_splits)
  have feet_old: "y \<le> brk s" if "y \<in> set (feet bs)" for y using held_live [OF inv(3) that] wf_memD [OF rd(7)] by blast
  have "seated F ws s' p ?t (qs @ [?q]) ?cs' ?seats"
    by (rule seated_start [OF inv(6) j(1) seated_empty [OF inv(6) rd(7) j] free(1) _ new sl]) (use olds in simp_all)
  moreover have "set (inst_ptrs s' ((qs @ [?q]) ! m)) \<inter> set (feet bs) = {}" if "m < length ?cs'" "is_open (?cs' ! m)" for m
  proof (cases "m = length ?cs")
    case True
    then show ?thesis using newp feet_old se(2) by (fastforce simp: nth_append)
  next
    case False
    with that have "m < length ?cs" "is_open (?cs ! m)" by (auto simp: nth_append)
    then show ?thesis using olds inv(7) se(2) by (simp add: nth_append)
  qed
  moreover have "pending (trace s') = pending (trace s)" "\<exists>pre. tasks_started (trace s') = pre @ (qs @ [?q]) \<and> length pre = b"
    using inv(5) by (auto simp: tr pending_append)
  ultimately have "node_inv bytes fn key F cn p b ws s' (A\<lparr>sp_calls := ?cs'\<rparr>) n tb ?t (qs @ [?q]) bs ?seats"
    using rd' kept(1) inv(2,4) unfolding node_inv_def by simp
  with run tr show ?thesis by (intro exI [of _ s'] exI [of _ ?q] exI [of _ j]) simp
qed

section \<open>A worker takes a step\<close>

text \<open>Each writes to one object: the instance's flags, its return argument, or the board.\<close>

lemma ready_inst:
  assumes r: "ready s cn n key tb fn p t" and i: "heap s q = Some (OInst i)"
    and i': "parent_task i' = parent_task i" "i_return_arg i' = i_return_arg i" "i_args i' = i_args i" "serial_id i' = serial_id i"
  defines "s' \<equiv> s\<lparr>heap := (heap s)(q := Some (OInst i'))\<rparr>"
  shows "ready s' cn n key tb fn p t" "slots s' t = slots s t"
proof -
  note d = readyD [OF r]
  note ok = task_ok_flags [OF d(4) i i', folded s'_def]
  have "no_oom s'" "global_tboard s' = global_tboard s" using d(5) by (simp_all add: s'_def no_oom_def)
  then show "ready s' cn n key tb fn p t"
    by (rule ready_update [OF r ok(1) refl]) (use i in \<open>auto simp: s'_def\<close>)
  show "slots s' t = slots s t" by (rule ok(3))
qed

lemma ready_value:
  assumes r: "ready s cn n key tb fn p t" and a: "heap s x = Some (OArgs [a])" "nargs a' = nargs a"
  defines "s' \<equiv> s\<lparr>heap := (heap s)(x := Some (OArgs [a']))\<rparr>"
  shows "ready s' cn n key tb fn p t" "slots s' t = slots s t"
proof -
  note d = readyD [OF r]
  note ok = task_ok_value [OF d(4) a, folded s'_def]
  have "no_oom s'" "global_tboard s' = global_tboard s" using d(5) by (simp_all add: s'_def no_oom_def)
  then show "ready s' cn n key tb fn p t"
    by (rule ready_update [OF r ok(1) refl]) (use a in \<open>auto simp: s'_def\<close>)
  show "slots s' t = slots s t" by (rule ok(3))
qed

lemma ready_board:
  assumes r: "ready s cn n key tb fn p t" and tb': "tb_tasks tb' = tb_tasks tb"
  defines "s' \<equiv> s\<lparr>heap := (heap s)(global_tboard s := Some (OTboard tb'))\<rparr>"
  shows "ready s' cn n key tb' fn p t" "slots s' t = slots s t"
proof -
  note d = readyD [OF r]
  have b: "heap s (global_tboard s) = Some (OTboard tb)" using tboard_okD(2) [OF d(2)] d(8) by simp
  note ok = task_ok_board [OF d(4) b, of tb', folded s'_def]
  have "keeps_service s s'" using b by (auto simp: keeps_service_def s'_def)
  then show "ready s' cn n key tb' fn p t"
    by (rule ready_change [OF r _ ok(1)]) (use d(5,8) tb' in \<open>simp_all add: s'_def no_oom_def\<close>)
  show "slots s' t = slots s t" by (rule ok(3))
qed

lemma distinct_concat_each: "distinct (concat (map f xs)) \<Longrightarrow> x \<in> set xs \<Longrightarrow> distinct (f x)"
  by (induction xs) auto

lemma slot_distinct: "task_ok s p t \<Longrightarrow> q \<in> set (live_slots t) \<Longrightarrow> distinct (inst_ptrs s q)"
  by (rule distinct_concat_each [OF task_okD(5)])

text \<open>
  What a step of the worker is to the rest: nothing outside the instance and the board has changed, and the
  instance is that of the call one step further.
\<close>

definition moves :: "(argv list \<Rightarrow> argv) \<Rightarrow> addr \<Rightarrow> cnode_t \<Rightarrow> string \<Rightarrow> string \<Rightarrow> addr \<Rightarrow> task_t \<Rightarrow> addr \<Rightarrow> rcall
    \<Rightarrow> world \<Rightarrow> world \<Rightarrow> worker \<Rightarrow> bool" where
  "moves F cn n key fn p t q c s s' w \<longleftrightarrow> (\<exists>tb. ready s' cn n key tb fn p t) \<and> slots s' t = slots s t \<and> trace s' = trace s
     \<and> inst_ptrs s' q = inst_ptrs s q \<and> call_at F t w s' p q (fst c, Progress (Suc (progress (snd c))))
     \<and> (\<forall>x ob. heap s x = Some ob \<longrightarrow> \<not> service_obj ob \<longrightarrow> x \<notin> set (inst_ptrs s q) \<longrightarrow> heap s' x = Some ob)"

lemma moves_flags:
  assumes r: "ready s cn n key tb fn p t" and at: "inst_at F t w s p q c i ds a" and takes: "takes (t_fn_argsig t) (Rexec (fst c))"
    and i': "parent_task i' = parent_task i" "i_return_arg i' = i_return_arg i" "i_args i' = i_args i" "serial_id i' = serial_id i"
    and flag: "has_finished i' \<longleftrightarrow> FLAGGED \<le> Suc (progress (snd c))" and val: "progress (snd c) \<noteq> 1"
  defines "w' \<equiv> worker_at (Suc (progress (snd c))) (i_args i) (i_return_arg i)"
  shows "moves F cn n key fn p t q c s (s\<lparr>heap := (heap s)(q := Some (OInst i'))\<rparr>) w'"
proof -
  let ?s = "s\<lparr>heap := (heap s)(q := Some (OInst i'))\<rparr>"
  note i = inst_atD [OF at] and rd = ready_inst [OF r inst_atD(1) [OF at] i']
  have "heap ?s (i_args i) = Some (OArgs ds)" "heap ?s (i_return_arg i) = Some (OArgs [a])"
    using args_at_heap [OF i(4)] i(1,5) by auto
  moreover from args_at_plain [OF i(4) _ this(1)] takes have "args_at ?s (i_args i) ds (rq_args (fst c))" by simp
  moreover have "arg_view ?s a = Some (F (rq_args (fst c))) \<and> plain (F (rq_args (fst c))) \<and> sendable (F (rq_args (fst c)))"
    if "2 \<le> Suc (progress (snd c))"
    using i(10) val that arg_view_plain [of s a _ ?s] by force
  ultimately have "inst_at F t w' ?s p q (fst c, Progress (Suc (progress (snd c)))) i' ds a"
    using i flag i' by (simp add: inst_at_def w'_def)
  with takes have "call_at F t w' ?s p q (fst c, Progress (Suc (progress (snd c))))" unfolding call_at_def by auto
  with rd i(1) i' show ?thesis by (auto simp: moves_def inst_ptrs_def)
qed

lemma moves_value:
  assumes r: "ready s cn n key tb fn p t" and at: "inst_at F t w s p q c i ds a" and takes: "takes (t_fn_argsig t) (Rexec (fst c))"
    and ne: "i_args i \<noteq> i_return_arg i" and n: "progress (snd c) \<in> {1, 4}"
    and a': "nargs a' = 1" "arg_type a' = t_return_type t" "arg_view s a' = Some (F (rq_args (fst c)))" "plain (F (rq_args (fst c)))"
      "sendable (F (rq_args (fst c)))"
  defines "w' \<equiv> worker_at (Suc (progress (snd c))) (i_args i) (i_return_arg i)"
  shows "moves F cn n key fn p t q c s (s\<lparr>heap := (heap s)(i_return_arg i := Some (OArgs [a']))\<rparr>) w'"
proof -
  let ?s = "s\<lparr>heap := (heap s)(i_return_arg i := Some (OArgs [a']))\<rparr>"
  note i = inst_atD [OF at]
  have "nargs a' = nargs a" using a'(1) i(6) by simp
  note rd = ready_value [OF r i(5) this]
  have q: "heap ?s q = Some (OInst i)" using i(1,5) by auto
  have "heap ?s (i_args i) = Some (OArgs ds)" using args_at_heap [OF i(4)] ne by simp
  from args_at_plain [OF i(4) _ this] takes have "args_at ?s (i_args i) ds (rq_args (fst c))" by simp
  moreover have "has_finished i \<longleftrightarrow> FLAGGED \<le> Suc (progress (snd c))" using i(8) n by auto
  ultimately have "inst_at F t w' ?s p q (fst c, Progress (Suc (progress (snd c)))) i ds a'"
    using i q a' arg_view_plain [OF a'(3,4), of ?s] by (simp add: inst_at_def w'_def)
  with takes have "call_at F t w' ?s p q (fst c, Progress (Suc (progress (snd c))))" unfolding call_at_def by auto
  with rd i(1) q show ?thesis by (auto simp: moves_def inst_ptrs_def)
qed

lemma moves_board:
  assumes r: "ready s cn n key tb fn p t" and at: "inst_at F t w s p q c i ds a" and takes: "takes (t_fn_argsig t) (Rexec (fst c))"
    and tb': "tb_tasks tb' = tb_tasks tb" and n: "progress (snd c) = 5"
  shows "moves F cn n key fn p t q c s (s\<lparr>heap := (heap s)(global_tboard s := Some (OTboard tb'))\<rparr>) W_done"
proof -
  let ?s = "s\<lparr>heap := (heap s)(global_tboard s := Some (OTboard tb'))\<rparr>"
  note i = inst_atD [OF at] and rd = ready_board [OF r tb']
  have b: "heap s (global_tboard s) = Some (OTboard tb)" using tboard_okD(2) [OF readyD(2) [OF r]] readyD(8) [OF r] by simp
  have h: "heap ?s q = Some (OInst i)" "heap ?s (i_args i) = Some (OArgs ds)" "heap ?s (i_return_arg i) = Some (OArgs [a])"
    using b args_at_heap [OF i(4)] i(1,5) by auto
  from args_at_plain [OF i(4) _ h(2)] takes have "args_at ?s (i_args i) ds (rq_args (fst c))" by simp
  moreover have "arg_view ?s a = Some (F (rq_args (fst c))) \<and> plain (F (rq_args (fst c))) \<and> sendable (F (rq_args (fst c)))"
    using i(10) n arg_view_plain [of s a _ ?s] by force
  ultimately have "inst_at F t W_done ?s p q (fst c, Progress (Suc (progress (snd c)))) i ds a"
    using i h n by (simp add: inst_at_def)
  with takes have "call_at F t W_done ?s p q (fst c, Progress (Suc (progress (snd c))))" unfolding call_at_def by auto
  with rd i(1) b h(1) show ?thesis by (auto simp: moves_def inst_ptrs_def)
qed

text \<open>The six steps.\<close>

lemma worker_moves:
  assumes r: "ready s cn n key tb fn p t" and at: "inst_at F t w s p q c i ds a" and takes: "takes (t_fn_argsig t) (Rexec (fst c))"
    and q: "q \<noteq> 0" and ne: "i_args i \<noteq> i_return_arg i" and n: "progress (snd c) < WORKER_STEPS"
    and stub: "stub (t_entry_point t) = calc_stub f (t_entry_point t)" and F: "computes f F (t_return_type t) (t_fn_argsig t)"
  shows "\<exists>s' w'. worker_step stub tk q w s = Inr (w', s') \<and> moves F cn n key fn p t q c s s' w'"
proof -
  note i = inst_atD [OF at] and rd = readyD [OF r]
  note flags = moves_flags [OF r at takes] and val = moves_value [OF r at takes ne]
  have ra: "i_return_arg i \<noteq> 0" and t: "heap s p = Some (OTask t)"
    using wf_memD [OF rd(7) i(5)] task_okD(2) [OF rd(4)] by simp_all
  have view: "arg_view s (a\<lparr>arg_val := f ds\<rparr>) = Some (F (rq_args (fst c)))" "plain (F (rq_args (fst c)))" "sendable (F (rq_args (fst c)))"
  proof -
    have "a\<lparr>arg_val := f ds\<rparr> = \<lparr>nargs = 1, arg_type = t_return_type t, arg_val = f ds\<rparr>" using i(6,7) by simp
    moreover have "map (arg_view s) ds = map Some (rq_args (fst c))" "map char_to_argtype (t_fn_argsig t) = map val_type (rq_args (fst c))"
      using i(4) takes by (simp_all add: args_at_def)
    ultimately show "arg_view s (a\<lparr>arg_val := f ds\<rparr>) = Some (F (rq_args (fst c)))" "plain (F (rq_args (fst c)))" "sendable (F (rq_args (fst c)))"
      using F unfolding computes_def by auto
  qed
  have b: "heap s (global_tboard s) = Some (OTboard tb)" using tboard_okD(2) [OF rd(2)] rd(8) by simp
  consider (start) "progress (snd c) = 0" | (enter) "progress (snd c) = 1" | (flag) "progress (snd c) = 2"
    | (stop) "progress (snd c) = 3" | (result) "progress (snd c) = 4" | (report) "progress (snd c) = 5"
    using n by linarith
  then show ?thesis
  proof cases
    case start
    with flags [of "i\<lparr>is_running := True\<rparr>"] i(1,8,9) q show ?thesis
      by (auto simp: wrapper_start_def prog_simps)
  next
    case enter
    with val [of "a\<lparr>arg_val := f ds\<rparr>"] view i t args_at_heap [OF i(4)] ra show ?thesis
      by (auto simp: wrapper_call_def stub calc_stub_def plain_stub_def prog_simps)
  next
    case flag
    with flags [of "i\<lparr>has_finished := True\<rparr>"] i(1,9) show ?thesis by (auto simp: prog_simps)
  next
    case stop
    with flags [of "i\<lparr>is_running := False\<rparr>"] i(1,8,9) show ?thesis by (auto simp: prog_simps)
  next
    case result
    then have "moves F cn n key fn p t q c s s W_report"
      using val [of a] i(6,7,10) i(5) by (simp add: fun_upd_idem)
    with result i(1,5,9) show ?thesis by (auto simp: wrapper_result_def prog_simps fun_upd_idem)
  next
    case report
    have tb: "moves F cn n key fn p t q c s (s\<lparr>heap := (heap s)(global_tboard s := Some (OTboard tb'))\<rparr>) W_done"
      if "tb_tasks tb' = tb_tasks tb" for tb' by (rule moves_board [OF r at takes that report])
    from tb [of tb] have same: "moves F cn n key fn p t q c s s W_done" using b by (simp add: fun_upd_idem)
    show ?thesis
    proof (cases tk)
      case True
      with report i(1,9) b tb [of "tb\<lparr>last_dead_task_id := serial_id i, num_dead_tasks := num_dead_tasks tb + 1\<rparr>"]
      show ?thesis by (auto simp: wrapper_report_def prog_simps)
    next
      case False
      with report i(9) b same show ?thesis by (auto simp: wrapper_report_def prog_simps)
    qed
  qed
qed

lemma work_step:
  assumes inv: "node_inv bytes fn key F cn p b ws s A n tb t qs bs seats"
    and m: "m < length (sp_calls A)" "is_open (sp_calls A ! m)" "progress (snd (sp_calls A ! m)) < WORKER_STEPS"
    and stub: "stub (t_entry_point t) = calc_stub f (t_entry_point t)" and F: "computes f F (t_return_type t) (t_fn_argsig t)"
  defines "C \<equiv> (sp_calls A)[m := (fst (sp_calls A ! m), Progress (Suc (progress (snd (sp_calls A ! m)))))]"
  shows "\<exists>s' w tb'. worker_step stub tk (tasks_started (trace s) ! (b + m)) (ws m) s = Inr (w, s')
    \<and> node_inv bytes fn key F cn p b (ws(m := w)) s' (A\<lparr>sp_calls := C\<rparr>) n tb' t qs bs seats
    \<and> published (trace s') = published (trace s)"
proof -
  note d = node_invD [OF inv]
  note r = readyD [OF d(1)] and se = seatedD [OF d(6)]
  let ?c = "sp_calls A ! m" and ?q = "qs ! m"
  have q: "?q \<noteq> 0" and live: "?q \<in> set (live_slots t)" using seated_slot(2,3) [OF d(6) r(7) m(1,2)] .
  have nth: "tasks_started (trace s) ! (b + m) = ?q" using d(5) by auto
  from se(5) [OF m(1,2)] obtain i ds a where at: "inst_at F t (ws m) s p ?q ?c i ds a" and takes: "takes (t_fn_argsig t) (Rexec (fst ?c))"
    by (rule call_atE)
  have "i_args i \<noteq> 0" using wf_memD [OF r(7) args_at_heap [OF inst_atD(4) [OF at]]] by simp
  then have "i_args i \<noteq> i_return_arg i" using slot_distinct [OF r(4) live] inst_atD(1) [OF at] by (auto simp: inst_ptrs_def)
  from worker_moves [where stub = stub and f = f and tk = tk, OF d(1) at takes q this m(3) stub F] obtain s' w where
    run: "worker_step stub tk ?q (ws m) s = Inr (w, s')" and mv: "moves F cn n key fn p t ?q ?c s s' w" by blast
  then obtain tb' where rd': "ready s' cn n key tb' fn p t" and sl: "slots s' t = slots s t" and tr: "trace s' = trace s"
    and ptrs: "inst_ptrs s' ?q = inst_ptrs s ?q" and new: "call_at F t w s' p ?q (fst ?c, Progress (Suc (progress (snd ?c))))"
    and same: "\<forall>x ob. heap s x = Some ob \<longrightarrow> \<not> service_obj ob \<longrightarrow> x \<notin> set (inst_ptrs s ?q) \<longrightarrow> heap s' x = Some ob"
    unfolding moves_def by blast
  note kept = others_kept [OF inv same d(7) [OF m(1,2)]]
  have each: "call_at F t ((ws(m := w)) j) s' p (qs ! j) (C ! j) \<and> inst_ptrs s' (qs ! j) = inst_ptrs s (qs ! j)
      \<and> j < length (sp_calls A) \<and> is_open (sp_calls A ! j)" if "j < length C" "is_open (C ! j)" for j
  proof (cases "j = m")
    case True
    with new ptrs m show ?thesis by (simp add: C_def)
  next
    case False
    with that have j: "j < length (sp_calls A)" "is_open (sp_calls A ! j)" by (simp_all add: C_def)
    with kept(2) [OF j] calls_apart [OF d(6) r(4) j m(1,2) False] False show ?thesis by (simp add: C_def)
  qed
  note sw = seat_work [OF se(1) m(1,2), of "Suc (progress (snd ?c))", folded C_def]
  have "seated F (ws(m := w)) s' p t qs C seats"
    using each se(4,6) sw(1) se(2) m(1) unfolding seated_def sl se(3) sw(2) by (simp add: C_def)
  moreover have "set (inst_ptrs s' (qs ! j)) \<inter> set (feet bs) = {}" if "j < length C" "is_open (C ! j)" for j
    using each [OF that] d(7) by simp
  ultimately have "node_inv bytes fn key F cn p b (ws(m := w)) s' (A\<lparr>sp_calls := C\<rparr>) n tb' t qs bs seats"
    using rd' d(2,4,5) tr kept(1) unfolding node_inv_def by simp
  with run tr nth show ?thesis by (intro exI [of _ s'] exI [of _ w] exI [of _ tb']) simp
qed

section \<open>A result is asked for\<close>

text \<open>The instance destroyed, seen from a state in which other objects are released too.\<close>

lemma destroyed_released:
  assumes ok: "task_ok s p t" and j: "j < 5" "instances t ! j = q" "q \<noteq> 0" and wf: "wf_mem s'"
    and sep: "\<forall>y \<in> set (live_slots t). set (inst_ptrs s y) \<inter> C = {}" and p: "p \<notin> C"
    and h: "heap s' = (\<lambda>x. if x \<in> C \<union> set (inst_ptrs s q) then None
        else if x = p then Some (OTask (without_inst t j)) else heap s x)"
  shows "task_ok s' p (without_inst t j)" "slots s' (without_inst t j) = (slots s t)[j := None]"
proof -
  let ?d = "inst_destroyed s p t j" and ?t = "without_inst t j"
  have j0: "instances t ! j \<noteq> 0" using j by simp
  note len = task_okD(3) [OF ok] and d = inst_destroyed_ok [OF ok j(1) j0]
  have hd: "heap s' = (\<lambda>x. if x \<in> C then None else heap ?d x)"
    using j(2) by (simp add: h inst_destroyed_defs fun_eq_iff)
  have "set (insts_ptrs ?d (live_slots ?t)) \<inter> C = {}"
    using sep set_update_subset_insert [of "instances t" j 0] unfolding d(3) by fastforce
  then have "\<forall>y \<in> set (live_slots ?t). set (inst_ptrs ?d y) \<inter> C = {}" by auto
  note rel = task_ok_released [OF d(1) wf hd p this]
  show "task_ok s' p ?t" by (rule rel(1))
  have "slots ?d ?t = (slots s t)[j := None]"
    using d(2) len by (intro nth_equalityI) (simp_all add: nth_list_update)
  then show "slots s' ?t = (slots s t)[j := None]" by (rule trans [OF rel(2)])
qed

lemma seated_collect:
  assumes se: "seated F ws s p t qs cs seats" and j: "j < 5" "seats ! j = Some m"
    and old: "\<forall>i < length cs. is_open (cs ! i) \<longrightarrow> i \<noteq> m \<longrightarrow> call_at F t' (ws i) s' p (qs ! i) (cs ! i)"
    and t': "slots s' t' = (slots s t)[j := None]" "instances t' = (instances t)[j := 0]"
  shows "seated F ws s' p t' qs (cs[m := (fst (cs ! m), Collected)]) (seats[j := None])"
proof -
  note d = seatedD [OF se]
  note st = seat_collect [OF d(1) j]
  have "instances t' = map (\<lambda>x. case x of None \<Rightarrow> 0 | Some m \<Rightarrow> qs ! m) (seats[j := None])"
    using d(4) t'(2) by (simp add: map_update)
  moreover have "call_at F t' (ws i) s' p (qs ! i) (cs[m := (fst (cs ! m), Collected)] ! i)"
    if "i < length cs" "is_open (cs[m := (fst (cs ! m), Collected)] ! i)" for i
    using that old by (cases "i = m") auto
  ultimately show ?thesis using st(1) d(2,6) t'(1) unfolding seated_def st(2) d(3) by simp
qed

lemma find_result_ok:
  assumes n: "node_up s cn n key" and cmd: "cmd_at s cmd c ds vs" "terminated c"
    and tb: "tboard_ok s (cn_tboard n) tb" "task_map s tb (c_str (c_fn_name c)) = Some p" and t: "task_ok s p t"
  shows "find_result cn cmd s = Inr (case slot_of s t (ucast (c_task_id c)) of
    None \<Rightarrow> None | Some j \<Rightarrow> Some (instances t ! j), s)"
proof -
  have h: "heap s cmd = Some (OCmd c)" "cmd \<noteq> 0" "heap s cn = Some (OCnode n)" "cn \<noteq> 0" "NUL \<in> set (c_fn_name c)"
    using cmd n by (auto simp: cmd_at_def node_up_def terminated_def)
  have p: "heap s p = Some (OTask t)" "p \<noteq> 0" using task_okD(1,2) [OF t] by (auto dest: wf_memD)
  have "j < length (instances t)" if "slot_of s t k = Some j" for j k
    using that by (auto simp: slot_of_def first_idx_Some)
  then show ?thesis
    using h p tb(2) tboard_find_task_name_ok [OF tb(1), of "c_str (c_fn_name c)"] task_get_instance_index_ok [OF t]
    by (auto simp: find_result_def prog_simps split: option.splits)
qed

text \<open>What is left of \<open>process_get_result\<close> once the instance is found and has finished.\<close>

lemma collect_halves:
  assumes "find_result cn cmd s = Inr (Some q, s)" "heap s q = Some (OInst i)" "has_finished i" "q \<noteq> 0"
  shows "process_get_result e E others 1 cn cmd s = bnd (take_result q) (deliver_result e E cn cmd) s"
  using assms unfolding process_get_result_def return_task_halves deliver_result_def
  by (simp add: prog_simps split: sum.splits prod.splits)

lemma hand_finds:
  assumes "in_hand bytes fn key F cn p b ws s A n tb t qs bs seats h m"
  shows "find_result cn (fst h) s = Inr (map_option (\<lambda>i. qs ! i) (find_call (sp_calls A) (rq_id (msg_rq m))), s)"
proof -
  note d = in_handD [OF assms]
  note inv = node_invD [OF d(1)]
  note r = readyD [OF inv(1)]
  have c: "c_str (c_fn_name (fst (snd h))) = fn" "ucast (c_task_id (fst (snd h))) = rq_id (msg_rq m)" "terminated (fst (snd h))"
    using d(4,5) by (simp_all add: says_def answerable_def)
  from find_result_ok [OF r(1) d(2) c(3) r(2) _ r(4)] r(3) c(1,2)
  have found: "find_result cn (fst h) s = Inr (case slot_of s t (rq_id (msg_rq m)) of
      None \<Rightarrow> None | Some j \<Rightarrow> Some (instances t ! j), s)" by simp
  show ?thesis
  proof (cases "find_call (sp_calls A) (rq_id (msg_rq m))")
    case None
    with seated_free(1) [OF inv(6) r(7)] found show ?thesis by simp
  next
    case (Some i)
    with seated_find(1) [OF inv(6)] found show ?thesis by fastforce
  qed
qed

lemma get_step:
  assumes cb: "cbor_codec E P bytes view" and hand: "in_hand bytes fn key F cn p b ws s A n tb t qs bs seats h (Get r)"
    and m: "find_call (sp_calls A) (rq_id r) = Some m" "FLAGGED \<le> progress (snd (sp_calls A ! m))"
    and fits: "length (bytes (res_msg fn r (F (rq_args (fst (sp_calls A ! m)))))) \<le> 1024"
  shows "\<exists>s' j. proc_step e E cn (P_wait (fst h) (qs ! m)) s = Inr (P_idle, s')
    \<and> node_inv bytes fn key F cn p b ws s' (A\<lparr>sp_calls := (sp_calls A)[m := (fst (sp_calls A ! m), Collected)]\<rparr>) n tb
        (without_inst t j) qs bs (seats[j := None])
    \<and> published (trace s') = published (trace s) @ [(key, bytes (res_msg fn r (F (rq_args (fst (sp_calls A ! m))))))]
    \<and> (\<forall>x \<in> set (inst_ptrs s (qs ! m)). heap s' x = None \<and> bad_ptr x s' = UseAfterFree)"
proof -
  note d = in_handD [OF hand]
  note inv = node_invD [OF d(1)]
  note rd = readyD [OF inv(1)] and se = seatedD [OF inv(6)]
  let ?c = "fst (snd h)" and ?k = "rq_id r" and ?cs = "sp_calls A" and ?q = "qs ! m"
  let ?v = "F (rq_args (fst (?cs ! m)))"
  have c: "c_str (c_fn_name ?c) = fn" "ucast (c_task_id ?c) = ?k" "result_item ?c ?v = res_msg fn r ?v"
    using d(5) by (simp_all add: says_def result_item_def res_msg_def)
  note fm = seated_find [OF inv(6) m(1)]
  from fm(1) obtain j where j: "j < 5" "seats ! j = Some m" "instances t ! j = ?q" "slot_of s t ?k = Some j" by blast
  have q: "?q \<noteq> 0" and live: "?q \<in> set (live_slots t)" using seated_slot(2,3) [OF inv(6) rd(7) fm(2,3)] .
  from se(5) [OF fm(2,3)] obtain i ds a where at: "inst_at F t (ws m) s p ?q (?cs ! m) i ds a" by (rule call_atE)
  note i = inst_atD [OF at]
  have fin: "has_finished i" and ra: "args_at s (i_return_arg i) [a] [?v]" and v: "sendable ?v"
    using i(5,6,8,10) m(2) by (simp_all add: args_at_def)
  have sep: "set (foot h) \<inter> set (inst_ptrs s ?q) = {}" using d(9) [OF fm(2,3)] by blast
  from get_result_ok [OF cb rd(1) d(2,3,4) rd(2) _ rd(4) _ j(3) i(1) fin ra v _ sep rd(5), of 1 e "ret ()"] rd(3) j(4) fits
  obtain s' where x: "process_get_result e E (ret ()) 1 cn (fst h) s = Inr ((), s')"
    "heap s' = (\<lambda>x. if x \<in> set (foot h) \<union> set (inst_ptrs s ?q) then None
        else if x = p then Some (OTask (without_inst t j)) else heap s x)"
    "trace s' = trace s @ [Z_put key (bytes (res_msg fn r ?v))]"
    "wf_mem s'" "no_oom s'" "global_tboard s' = global_tboard s" "brk s \<le> brk s'"
    unfolding c by auto
  let ?t = "without_inst t j" and ?C = "?cs[m := (fst (?cs ! m), Collected)]"
  have tp: "heap s p = Some (OTask t)" using task_okD(2) [OF rd(4)] .
  have p: "p \<notin> set (foot h)" using cmd_at_owned_live [OF d(2), of p] tp by auto
  have all: "\<forall>y \<in> set (live_slots t). set (inst_ptrs s y) \<inter> set (foot h) = {}"
    using seated_owner [OF inv(6)] d(9) by blast
  note rel = destroyed_released [OF rd(4) j(1,3) q x(4) all p x(2)]
  have iq: "inst_ok s p ?q" using task_okD(6) [OF rd(4), of ?q] live by simp
  have "\<forall>x ob. heap s x = Some ob \<longrightarrow> x \<noteq> p \<longrightarrow> service_obj ob \<longrightarrow> heap s' x = Some ob"
    using cmd_ptrs_no_service [OF d(2)] inst_ptrs_no_service [OF iq] by (simp add: x(2))
  from ready_update [OF inv(1) rel(1) _ x(5,6) this] have rd': "ready s' cn n key tb fn p ?t" by simp
  have same: "\<forall>y ob. heap s y = Some ob \<longrightarrow> \<not> service_obj ob \<longrightarrow> y \<notin> set (foot h) \<union> set (inst_ptrs s ?q) \<longrightarrow> heap s' y = Some ob"
    using tp by (auto simp: x(2))
  have "(set (foot h) \<union> set (inst_ptrs s ?q)) \<inter> set (feet bs) = {}" using d(8) inv(7) [OF fm(2,3)] by auto
  note kept = others_kept [OF d(1) same this]
  have olds: "call_at F ?t (ws i) s' p (qs ! i) (?cs ! i) \<and> inst_ptrs s' (qs ! i) = inst_ptrs s (qs ! i)"
    if i: "i < length ?cs" "is_open (?cs ! i)" "i \<noteq> m" for i
    by (rule kept(2)) (use i d(9) [OF i(1,2)] calls_apart [OF inv(6) rd(4) i(1,2) fm(2,3) i(3)] in auto)
  have "seated F ws s' p ?t qs ?C (seats[j := None])"
    by (rule seated_collect [OF inv(6) j(1,2) _ rel(2)]) (use olds in simp_all)
  moreover have "set (inst_ptrs s' (qs ! i)) \<inter> set (feet bs) = {}" if "i < length ?C" "is_open (?C ! i)" for i
    using that olds [of i] inv(7) [of i] fm(2) by (cases "i = m") auto
  ultimately have node: "node_inv bytes fn key F cn p b ws s' (A\<lparr>sp_calls := ?C\<rparr>) n tb ?t qs bs (seats[j := None])"
    using rd' kept(1) inv(2,4,5) unfolding node_inv_def by (simp add: x(3) pending_append)
  have gone: "heap s' y = None \<and> bad_ptr y s' = UseAfterFree" if "y \<in> set (inst_ptrs s ?q)" for y
  proof -
    from inst_ptrs_objs [OF iq that] obtain ob where "heap s y = Some ob" by auto
    with wf_memD [OF rd(7), of y] x(2,7) that show ?thesis by (auto simp: bad_ptr_def)
  qed
  have "find_result cn (fst h) s = Inr (Some ?q, s)" using hand_finds [OF hand] m(1) by simp
  from collect_halves [OF this i(1) fin q, of e E] x(1) i(1) fin
  have "proc_step e E cn (P_wait (fst h) ?q) s = Inr (P_idle, s')" by (auto simp: prog_simps split: sum.splits prod.splits)
  with node gone x(3) show ?thesis by (intro exI [of _ s'] exI [of _ j]) simp
qed

text \<open>Where the worker has done its work but has not ended, collecting the call makes its next step fault.\<close>

lemma step_after_collection:
  assumes "n \<in> {3, 4, 5}" "tk \<or> n < 5" "heap s q = None" "bad_ptr q s = UseAfterFree"
    "heap s r = None" "bad_ptr r s = UseAfterFree" "\<exists>tb. heap s (global_tboard s) = Some (OTboard tb)" "global_tboard s \<noteq> 0"
  shows "worker_step stub tk q (worker_at n a r) s = Inl UseAfterFree"
  using assms by (auto simp: wrapper_result_def wrapper_report_def prog_simps)

section \<open>The poll that finds the call unfinished\<close>

lemma unfinished_step:
  assumes inv: "node_inv bytes fn key F cn p b ws s A n tb t qs bs seats"
    and m: "find_call (sp_calls A) k = Some m" "progress (snd (sp_calls A ! m)) < FLAGGED"
  shows "proc_step e E cn (P_wait cmd (qs ! m)) s = Inr (P_wait cmd (qs ! m), s)"
proof -
  note d = node_invD [OF inv]
  note fm = seated_find [OF d(6) m(1)]
  from seatedD(5) [OF d(6) fm(2,3)] obtain i ds a where "inst_at F t (ws m) s p (qs ! m) (sp_calls A ! m) i ds a"
    by (rule call_atE)
  from inst_atD(1,8) [OF this] m(2) show ?thesis by (simp add: prog_simps)
qed

lemma idle_step:
  assumes qu: "command_queue e" and inv: "node_inv bytes fn key F cn p b ws s A n tb t qs bs seats"
    and q: "sp_wait A = None" "sp_queue A = []"
  shows "\<exists>s'. proc_step e E cn P_idle s = Inr (P_idle, s') \<and> node_inv bytes fn key F cn p b ws s' A n tb t qs bs seats
    \<and> published (trace s') = published (trace s)"
proof -
  note d = node_invD [OF inv]
  note r = readyD [OF d(1)]
  let ?s = "s\<lparr>trace := trace s @ [Q_empty]\<rparr>"
  have "pending (trace s) = []" using d(2,3) q by simp
  then have "e_next e (trace s) = None" using command_queue.next_cmd [OF qu] by simp
  then have "proc_step e E cn P_idle s = Inr (P_idle, ?s)" using r(6) by (simp add: prog_simps)
  moreover have "node_inv bytes fn key F cn p b ws ?s A n tb t qs bs seats"
    by (rule node_inv_trace [OF inv]) (use r(5,7) in \<open>simp_all add: pending_append\<close>)
  ultimately show ?thesis by (intro exI [of _ ?s]) simp
qed

text \<open>With a command in the queue the step is that of the command.\<close>

lemma take_step:
  assumes "e_next e (trace s) = Some (fst h)"
    and hand: "in_hand bytes fn key F cn p b ws (taken s (fst h)) A n tb t qs bs seats h m"
  shows "proc_step e E cn P_idle s = (case m of
      Rexec r \<Rightarrow> andthen (process_rexec e E cn (fst h)) (ret P_idle) (taken s (fst h))
    | Get r \<Rightarrow> (case find_call (sp_calls A) (rq_id r) of
          None \<Rightarrow> andthen (deliver_result e E cn (fst h) 0) (ret P_idle) (taken s (fst h))
        | Some i \<Rightarrow> Inr (P_wait (fst h) (qs ! i), taken s (fst h)))
    | Other x r \<Rightarrow> bnd (cnode_send_error e E cn (fst h)) (\<lambda>_. ret P_idle) (taken s (fst h)))"
proof -
  note d = in_handD [OF hand]
  have "heap s cn = Some (OCnode n)" using readyD(6) [OF node_invD(1) [OF d(1)]] by simp
  moreover have "c_cmd (fst (snd h)) = msg_code m" using d(5) by (simp add: says_def)
  ultimately show ?thesis
    using assms(1) d(6,7) hand_finds [OF hand]
    by (cases m) (auto simp: deliverable_def prog_simps split: option.splits)
qed

section \<open>The simulation\<close>

text \<open>What the libraries promise, the values passed down and the application's entry point.\<close>

definition works_with :: "env \<Rightarrow> cbor_encoder \<Rightarrow> 'v cbor_parser \<Rightarrow> (item \<Rightarrow> u8 list) \<Rightarrow> ('v \<Rightarrow> item list) \<Rightarrow> nat \<Rightarrow> locals
    \<Rightarrow> (nat \<Rightarrow> addr \<Rightarrow> addr \<Rightarrow> addr c_prog) \<Rightarrow> char list \<Rightarrow> (argv list \<Rightarrow> argv) \<Rightarrow> argtype_t \<Rightarrow> string \<Rightarrow> nat \<Rightarrow> bool" where
  "works_with e E P bytes view fuel l stub fkey F ty asig entry \<longleftrightarrow> cbor_codec E P bytes view \<and> command_queue e
     \<and> foreign_key fkey \<and> wf_locals l \<and> 20 \<le> fuel
     \<and> (\<exists>f. stub entry = calc_stub f entry \<and> computes f F ty asig)"

text \<open>The processing task waits exactly when the machine does, for the instance of that call.\<close>

definition proc_at :: "proc \<Rightarrow> spec \<Rightarrow> addr list \<Rightarrow> held_cmd list \<Rightarrow> bool" where
  "proc_at pc A qs bs \<longleftrightarrow> (case sp_wait A of
       None \<Rightarrow> pc = P_idle
     | Some r \<Rightarrow> \<exists>m. find_call (sp_calls A) (rq_id r) = Some m \<and> pc = P_wait (fst (hd bs)) (qs ! m))"

definition node_sim :: "(item \<Rightarrow> u8 list) \<Rightarrow> string \<Rightarrow> string \<Rightarrow> (argv list \<Rightarrow> argv) \<Rightarrow> addr \<Rightarrow> addr \<Rightarrow> nat \<Rightarrow> argtype_t \<Rightarrow> string \<Rightarrow> nat
    \<Rightarrow> node_config \<Rightarrow> spec \<Rightarrow> bool" where
  "node_sim bytes fn key F cn p b ty asig entry c A \<longleftrightarrow> (\<exists>n tb t qs bs seats.
     node_inv bytes fn key F cn p b (cf_workers c) (cf_world c) A n tb t qs bs seats \<and> proc_at (cf_proc c) A qs bs
     \<and> t_return_type t = ty \<and> t_fn_argsig t = asig \<and> t_entry_point t = entry)"

lemma node_simI:
  "node_inv bytes fn key F cn p b (cf_workers c) (cf_world c) A n tb t qs bs seats \<Longrightarrow> proc_at (cf_proc c) A qs bs \<Longrightarrow>
    t_return_type t = ty \<Longrightarrow> t_fn_argsig t = asig \<Longrightarrow> t_entry_point t = entry \<Longrightarrow>
    node_sim bytes fn key F cn p b ty asig entry c A"
  unfolding node_sim_def by blast

lemma proc_at_wait:
  assumes "node_inv bytes fn key F cn p b ws s A n tb t qs bs seats" "proc_at pc A qs bs" "sp_wait A = Some r"
  obtains h bs' m where "bs = h # bs'" "find_call (sp_calls A) (rq_id r) = Some m" "pc = P_wait (fst h) (qs ! m)"
    "in_hand bytes fn key F cn p b ws s (A\<lparr>sp_wait := None\<rparr>) n tb t qs bs' seats h (Get r)"
  using node_waits [OF assms(1,3)] assms(2,3) by (auto simp: proc_at_def)

text \<open>One step of the processing task, taking whatever comes first or waiting.\<close>

lemma idle_proc_step:
  assumes cb: "cbor_codec E P bytes view" and qu: "command_queue e"
    and inv: "node_inv bytes fn key F cn p b ws s A n tb t qs bs seats" and w: "sp_wait A = None"
    and spec: "spec_step bytes key fn (t_fn_argsig t) F A Proc = Some (A', out)"
  shows "\<exists>s' pc t' qs' bs' seats'. proc_step e E cn P_idle s = Inr (pc, s')
    \<and> node_inv bytes fn key F cn p b ws s' A' n tb t' qs' bs' seats' \<and> proc_at pc A' qs' bs'
    \<and> t_return_type t' = t_return_type t \<and> t_fn_argsig t' = t_fn_argsig t \<and> t_entry_point t' = t_entry_point t
    \<and> published (trace s') = published (trace s) @ out"
proof (cases "sp_queue A")
  case Nil
  with idle_step [OF qu inv w Nil, of E] spec w show ?thesis by (fastforce simp: proc_at_def)
next
  case (Cons m ms)
  from node_takes [OF qu inv w Cons] obtain h bs' where
    nx: "e_next e (trace s) = Some (fst h)"
    and hand: "in_hand bytes fn key F cn p b ws (taken s (fst h)) (A\<lparr>sp_queue := ms\<rparr>) n tb t qs bs' seats h m" by blast
  let ?A = "A\<lparr>sp_queue := ms\<rparr>"
  note step = take_step [OF nx hand, of E]
  have take: "take_message bytes key fn m ?A = Some (A', out)" using spec w Cons by simp
  show ?thesis
  proof (cases m)
    case (Rexec r)
    with take have c: "find_call (sp_calls ?A) (rq_id r) = None" "length (filter is_open (sp_calls ?A)) < 5"
      and o: "A' = ?A\<lparr>sp_calls := sp_calls ?A @ [(r, Progress 0)]\<rparr>" "out = [(key, bytes (status_msg CMD_REXEC_ACK fn r))]"
      by (auto split: if_splits)
    from rexec_step [OF cb hand [unfolded Rexec] c, of e] obtain s' q j where
      x: "process_rexec e E cn (fst h) (taken s (fst h)) = Inr ((), s')"
      "node_inv bytes fn key F cn p b ws s' A' n tb (with_inst t j q) (qs @ [q]) bs' (seats[j := Some (length (sp_calls ?A))])"
      "published (trace s') = published (trace (taken s (fst h))) @ out"
      unfolding o by blast
    moreover have "proc_step e E cn P_idle s = Inr (P_idle, s')" using step x(1) Rexec by (simp add: prog_simps)
    moreover have "proc_at P_idle A' (qs @ [q]) bs'" using w o by (simp add: proc_at_def)
    ultimately show ?thesis
      by (intro exI [of _ s'] exI [of _ P_idle] exI [of _ "with_inst t j q"] exI [of _ "qs @ [q]"] exI [of _ bs']
          exI [of _ "seats[j := Some (length (sp_calls ?A))]"]) simp
  next
    case (Get r)
    with take obtain i where i: "find_call (sp_calls ?A) (rq_id r) = Some i" and o: "A' = ?A\<lparr>sp_wait := Some r\<rparr>" "out = []"
      by (auto split: if_splits)
    from step Get i have "proc_step e E cn P_idle s = Inr (P_wait (fst h) (qs ! i), taken s (fst h))" by simp
    moreover have "proc_at (P_wait (fst h) (qs ! i)) A' qs (h # bs')" using i o by (simp add: proc_at_def)
    moreover note hand_waits [OF hand [unfolded Get]]
    ultimately show ?thesis unfolding o
      by (intro exI [of _ "taken s (fst h)"] exI [of _ "P_wait (fst h) (qs ! i)"] exI [of _ t] exI [of _ qs] exI [of _ "h # bs'"]
          exI [of _ seats]) simp
  next
    case (Other x r)
    with take have o: "A' = ?A" "out = [(key, bytes (status_msg CMD_REXEC_ERR fn r))]" by auto
    from other_step [OF cb hand [unfolded Other], of e] obtain ok s' where
      x: "cnode_send_error e E cn (fst h) (taken s (fst h)) = Inr (ok, s')"
      "node_inv bytes fn key F cn p b ws s' A' n tb t qs bs' seats"
      "published (trace s') = published (trace (taken s (fst h))) @ out"
      unfolding o by blast
    moreover have "proc_step e E cn P_idle s = Inr (P_idle, s')" using step x(1) Other by (simp add: prog_simps)
    moreover have "proc_at P_idle A' qs bs'" using w o by (simp add: proc_at_def)
    ultimately show ?thesis
      by (intro exI [of _ s'] exI [of _ P_idle] exI [of _ t] exI [of _ qs] exI [of _ bs'] exI [of _ seats]) simp
  qed
qed

lemma wait_proc_step:
  assumes cb: "cbor_codec E P bytes view"
    and inv: "node_inv bytes fn key F cn p b ws s A n tb t qs bs seats" and w: "sp_wait A = Some r" "proc_at pc A qs bs"
    and spec: "spec_step bytes key fn (t_fn_argsig t) F A Proc = Some (A', out)" and fits: "list_all (\<lambda>r. length (snd r) \<le> 1024) out"
  shows "\<exists>s' pc' t' qs' bs' seats'. proc_step e E cn pc s = Inr (pc', s')
    \<and> node_inv bytes fn key F cn p b ws s' A' n tb t' qs' bs' seats' \<and> proc_at pc' A' qs' bs'
    \<and> t_return_type t' = t_return_type t \<and> t_fn_argsig t' = t_fn_argsig t \<and> t_entry_point t' = t_entry_point t
    \<and> published (trace s') = published (trace s) @ out"
proof -
  from proc_at_wait [OF inv w(2,1)] obtain h bs' m where bs: "bs = h # bs'" and m: "find_call (sp_calls A) (rq_id r) = Some m"
    and pc: "pc = P_wait (fst h) (qs ! m)"
    and hand: "in_hand bytes fn key F cn p b ws s (A\<lparr>sp_wait := None\<rparr>) n tb t qs bs' seats h (Get r)" .
  let ?c = "sp_calls A ! m"
  have poll: "poll_result bytes key fn F r A = Some (A', out)" using spec w(1) by simp
  show ?thesis
  proof (cases "progress (snd ?c) < FLAGGED")
    case True
    with poll m have "A' = A" "out = []" by (simp_all add: poll_result_def)
    with unfinished_step [OF inv m True, of e E "fst h"] inv w(2) pc show ?thesis
      by (intro exI [of _ s] exI [of _ pc] exI [of _ t] exI [of _ qs] exI [of _ bs] exI [of _ seats]) simp
  next
    case False
    let ?A = "A\<lparr>sp_wait := None\<rparr>"
    from poll m False have A': "A' = ?A\<lparr>sp_calls := (sp_calls ?A)[m := (fst ?c, Collected)]\<rparr>"
      and out: "out = [(key, bytes (res_msg fn r (F (rq_args (fst ?c)))))]"
      by (auto simp: poll_result_def Let_def split: if_splits)
    have "length (bytes (res_msg fn r (F (rq_args (fst ?c))))) \<le> 1024" using fits out by simp
    with get_step [OF cb hand, of m e] m False obtain s' j where
      x: "proc_step e E cn pc s = Inr (P_idle, s')"
      "node_inv bytes fn key F cn p b ws s' A' n tb (without_inst t j) qs bs' (seats[j := None])"
      "published (trace s') = published (trace s) @ out"
      unfolding A' out pc by auto
    moreover have "proc_at P_idle A' qs bs'" by (simp add: proc_at_def A')
    ultimately show ?thesis
      by (intro exI [of _ s'] exI [of _ P_idle] exI [of _ "without_inst t j"] exI [of _ qs] exI [of _ bs']
          exI [of _ "seats[j := None]"]) simp
  qed
qed

text \<open>Where the machine refuses, the firmware answers with the command it has already released.\<close>

lemma refused_step:
  assumes w: "works_with e E P bytes view fuel l stub fkey F ty asig entry"
    and sim: "node_sim bytes fn key F cn p b ty asig entry c A" and q: "sp_wait A = None" "sp_queue A = m # ms"
    and no: "refused (sp_calls A) m"
  shows "proc_step e E cn (cf_proc c) (cf_world c) = Inl UseAfterFree"
proof -
  from w have qu: "command_queue e" by (simp add: works_with_def)
  from sim obtain n tb t qs bs seats where inv: "node_inv bytes fn key F cn p b (cf_workers c) (cf_world c) A n tb t qs bs seats"
    and "proc_at (cf_proc c) A qs bs" unfolding node_sim_def by blast
  with q(1) have pc: "cf_proc c = P_idle" by (simp add: proc_at_def)
  from node_takes [OF qu inv q] obtain h bs' where nx: "e_next e (trace (cf_world c)) = Some (fst h)"
    and hand: "in_hand bytes fn key F cn p b (cf_workers c) (taken (cf_world c) (fst h)) (A\<lparr>sp_queue := ms\<rparr>) n tb t qs bs' seats h m"
    by blast
  note d = in_handD [OF hand]
  note inv' = node_invD [OF d(1)]
  note r = readyD [OF inv'(1)] and step = take_step [OF nx hand, of E]
  have cm: "c_str (c_fn_name (fst (snd h))) = fn" "terminated (fst (snd h))" "c_cmd (fst (snd h)) = msg_code m"
    using d(4,5) by (simp_all add: says_def answerable_def)
  show ?thesis
  proof (cases m)
    case (Rexec x)
    then have "length (live_slots t) = 5" using no seated_free(2) [OF inv'(6) r(7)] by simp
    from rexec_full_faults [OF r(1) d(2,3) cm(2) r(2) _ r(4) this, of e E] r(3) cm(1) have
      "process_rexec e E cn (fst h) (taken (cf_world c) (fst h)) = Inl UseAfterFree" by simp
    with step Rexec pc show ?thesis by (simp add: prog_simps)
  next
    case (Get x)
    with no have "find_call (sp_calls (A\<lparr>sp_queue := ms\<rparr>)) (rq_id x) = None" by simp
    with step Get pc error_after_free [OF r(1) d(2,3) r(7), of e E] show ?thesis
      by (simp add: deliver_result_def prog_simps split: sum.splits)
  qed (use no in simp)
qed

lemma node_follows:
  assumes w: "works_with e E P bytes view fuel l stub fkey F ty asig entry"
    and sim: "node_sim bytes fn key F cn p b ty asig entry c A"
    and spec: "spec_step bytes key fn asig F A ev = Some (A', out)" and fits: "list_all (\<lambda>r. length (snd r) \<le> 1024) out"
  shows "\<exists>c'. node_step e E P fuel l stub tk bytes cn fkey fn b ev c = Inr c'
    \<and> node_sim bytes fn key F cn p b ty asig entry c' A' \<and> published (trace (cf_world c')) = published (trace (cf_world c)) @ out"
proof -
  from w obtain f where cb: "cbor_codec E P bytes view" and qu: "command_queue e" and key: "foreign_key fkey"
    and l: "wf_locals l" "20 \<le> fuel" and f: "stub entry = calc_stub f entry" "computes f F ty asig"
    unfolding works_with_def by blast
  let ?s = "cf_world c" and ?ws = "cf_workers c"
  from sim obtain n tb t qs bs seats where inv: "node_inv bytes fn key F cn p b ?ws ?s A n tb t qs bs seats"
    and pc: "proc_at (cf_proc c) A qs bs"
    and t: "t_return_type t = ty" "t_fn_argsig t = asig" "t_entry_point t = entry" unfolding node_sim_def by blast
  show ?thesis
  proof (cases ev)
    case (Deliver m)
    with spec have m: "deliverable bytes fn (t_fn_argsig t) m" and out: "out = []"
      and A': "A' = (if length (sp_queue A) < QUEUE_LENGTH then A\<lparr>sp_queue := sp_queue A @ [m]\<rparr> else A)"
      by (auto simp: t split: if_splits)
    show ?thesis
    proof (cases "length (sp_queue A) < QUEUE_LENGTH")
      case True
      with deliver_step [OF cb qu key inv m True l] A' obtain s' n' h where
        x: "cnode_data_handler e P fuel l cn fkey (bytes (msg_item fn m)) ?s = Inr ((), s')"
        "node_inv bytes fn key F cn p b ?ws s' A' n' tb t qs (bs @ [h]) seats" "published (trace s') = published (trace ?s)" by auto
      have "bs \<noteq> []" if "sp_wait A \<noteq> None" using node_invD(3) [OF inv] that by auto
      then have "proc_at (cf_proc c) A' qs (bs @ [h])" using pc A' True by (auto simp: proc_at_def split: option.splits)
      with x Deliver out t show ?thesis
        by (intro exI [of _ "c\<lparr>cf_world := s'\<rparr>"]) (auto simp: on_world_def intro!: node_simI)
    next
      case False
      with drop_step [OF cb qu key inv m False l] A' obtain s' n' where
        x: "cnode_data_handler e P fuel l cn fkey (bytes (msg_item fn m)) ?s = Inr ((), s')"
        "node_inv bytes fn key F cn p b ?ws s' A' n' tb t qs bs seats" "published (trace s') = published (trace ?s)" "A' = A" by auto
      with pc Deliver out t show ?thesis
        by (intro exI [of _ "c\<lparr>cf_world := s'\<rparr>"]) (auto simp: on_world_def intro!: node_simI)
    qed
  next
    case (Echo own payload)
    with spec have "own_key own" "A' = A" "out = []" by (auto split: if_splits)
    with Echo sim data_handler_own [of own e P fuel l cn payload ?s] show ?thesis by (simp add: own_key_def on_world_def)
  next
    case Proc
    have "\<exists>s' pc' t' qs' bs' seats'. proc_step e E cn (cf_proc c) ?s = Inr (pc', s')
      \<and> node_inv bytes fn key F cn p b ?ws s' A' n tb t' qs' bs' seats' \<and> proc_at pc' A' qs' bs'
      \<and> t_return_type t' = t_return_type t \<and> t_fn_argsig t' = t_fn_argsig t \<and> t_entry_point t' = t_entry_point t
      \<and> published (trace s') = published (trace ?s) @ out"
    proof (cases "sp_wait A")
      case None
      then have "cf_proc c = P_idle" using pc by (simp add: proc_at_def)
      then show ?thesis using idle_proc_step [OF cb qu inv None, of A' out] spec Proc t by simp
    next
      case (Some r)
      show ?thesis using wait_proc_step [OF cb inv Some pc _ fits, of A' e] spec Proc t by simp
    qed
    then obtain s' pc' t' qs' bs' seats' where x: "proc_step e E cn (cf_proc c) ?s = Inr (pc', s')"
      "node_inv bytes fn key F cn p b ?ws s' A' n tb t' qs' bs' seats'" "proc_at pc' A' qs' bs'"
      "t_return_type t' = t_return_type t" "t_fn_argsig t' = t_fn_argsig t" "t_entry_point t' = t_entry_point t"
      "published (trace s') = published (trace ?s) @ out" by blast
    with Proc t show ?thesis
      by (intro exI [of _ "c\<lparr>cf_proc := pc', cf_world := s'\<rparr>"]) (auto simp: on_world_def intro!: node_simI)
  next
    case (Work m)
    with spec have m: "m < length (sp_calls A)" "is_open (sp_calls A ! m)" "progress (snd (sp_calls A ! m)) < WORKER_STEPS"
      and out: "out = []"
      and A': "A' = A\<lparr>sp_calls := (sp_calls A)[m := (fst (sp_calls A ! m), Progress (Suc (progress (snd (sp_calls A ! m)))))]\<rparr>"
      by (auto simp: Let_def split: if_splits)
    have "stub (t_entry_point t) = calc_stub f (t_entry_point t)" "computes f F (t_return_type t) (t_fn_argsig t)"
      using f t by simp_all
    from work_step [where stub = stub and f = f and tk = tk, OF inv m this] obtain s' w tb' where
      x: "worker_step stub tk (tasks_started (trace ?s) ! (b + m)) (?ws m) ?s = Inr (w, s')"
      "node_inv bytes fn key F cn p b (?ws(m := w)) s' A' n tb' t qs bs seats" "published (trace s') = published (trace ?s)"
      unfolding A' by blast
    have "proc_at (cf_proc c) A' qs bs" using pc find_call_work [OF m(2)] by (simp add: proc_at_def A' split: option.splits)
    with x Work out t show ?thesis
      by (intro exI [of _ "c\<lparr>cf_workers := ?ws(m := w), cf_world := s'\<rparr>"]) (auto simp: on_world_def intro!: node_simI)
  qed
qed

text \<open>
  Between a worker's flag and its end the machine has no step for the processing task. The firmware has one: it
  answers and destroys the instance, and the worker's next step is a use of freed memory.
\<close>

lemma early_collection:
  assumes w: "works_with e E P bytes view fuel l stub fkey F ty asig entry"
    and sim: "node_sim bytes fn key F cn p b ty asig entry c A"
    and m: "sp_wait A = Some r" "find_call (sp_calls A) (rq_id r) = Some m" "progress (snd (sp_calls A ! m)) \<in> {3, 4, 5}"
      "tk \<or> progress (snd (sp_calls A ! m)) < 5"
    and fits: "length (bytes (res_msg fn r (F (rq_args (fst (sp_calls A ! m)))))) \<le> 1024"
  shows "steps (node_step e E P fuel l stub tk bytes cn fkey fn b) [Proc, Work m] c = Inl UseAfterFree"
proof -
  from w have cb: "cbor_codec E P bytes view" by (simp add: works_with_def)
  let ?s = "cf_world c" and ?ws = "cf_workers c"
  from sim obtain n tb t qs bs seats where inv: "node_inv bytes fn key F cn p b ?ws ?s A n tb t qs bs seats"
    and pc: "proc_at (cf_proc c) A qs bs" unfolding node_sim_def by blast
  from proc_at_wait [OF inv pc m(1)] obtain h bs' k where "find_call (sp_calls A) (rq_id r) = Some k" "cf_proc c = P_wait (fst h) (qs ! k)"
    and hand: "in_hand bytes fn key F cn p b ?ws ?s (A\<lparr>sp_wait := None\<rparr>) n tb t qs bs' seats h (Get r)" by metis
  with m(2) have at: "cf_proc c = P_wait (fst h) (qs ! m)" by simp
  from get_step [OF cb hand, of m e] m fits obtain s' j C where
    x: "proc_step e E cn (cf_proc c) ?s = Inr (P_idle, s')" "node_inv bytes fn key F cn p b ?ws s' C n tb (without_inst t j) qs bs' (seats[j := None])"
    "\<forall>x \<in> set (inst_ptrs ?s (qs ! m)). heap s' x = None \<and> bad_ptr x s' = UseAfterFree" unfolding at by auto
  note d = node_invD [OF inv] and d' = node_invD [OF x(2)]
  note r' = readyD [OF d'(1)] and fm = seated_find [OF d(6) m(2)]
  from seatedD(5) [OF d(6) fm(2,3)] obtain i ds a where ia: "inst_at F t (?ws m) ?s p (qs ! m) (sp_calls A ! m) i ds a"
    by (rule call_atE)
  have "i_return_arg i \<noteq> 0" using wf_memD [OF readyD(7) [OF d(1)] inst_atD(5) [OF ia]] by simp
  then have own: "{qs ! m, i_return_arg i} \<subseteq> set (inst_ptrs ?s (qs ! m))" using inst_atD(1) [OF ia] by (simp add: inst_ptrs_def)
  have board: "\<exists>tb. heap s' (global_tboard s') = Some (OTboard tb)" "global_tboard s' \<noteq> 0"
    using tboard_okD(2) [OF r'(2)] r'(8) wf_memD [OF r'(7)] by auto
  have "worker_step stub tk (qs ! m) (?ws m) s' = Inl UseAfterFree"
    unfolding inst_atD(9) [OF ia] by (rule step_after_collection [OF m(3,4) _ _ _ _ board]) (use x(3) own in auto)
  moreover have "tasks_started (trace s') ! (b + m) = qs ! m" using d'(5) by auto
  ultimately show ?thesis using x(1) by (simp add: on_world_def del: worker_step.simps)
qed

interpretation node: simulation "node_step e E P fuel l stub tk bytes cn fkey fn b"
  "spec_step bytes key fn asig F"
  "\<lambda>c A. works_with e E P bytes view fuel l stub fkey F ty asig entry \<and> node_sim bytes fn key F cn p b ty asig entry c A"
  "\<lambda>c. published (trace (cf_world c))" "\<lambda>r. length (snd r) \<le> 1024"
  for e E P bytes view fuel l stub tk fkey F cn p b ty asig entry fn key
proof
  fix c A ev A' out
  assume a: "works_with e E P bytes view fuel l stub fkey F ty asig entry \<and> node_sim bytes fn key F cn p b ty asig entry c A"
    and b: "spec_step bytes key fn asig F A ev = Some (A', out)" "list_all (\<lambda>r. length (snd r) \<le> 1024) out"
  from node_follows [OF conjunct1 [OF a] conjunct2 [OF a] b, of tk]
  show "\<exists>c'. node_step e E P fuel l stub tk bytes cn fkey fn b ev c = Inr c'
    \<and> (works_with e E P bytes view fuel l stub fkey F ty asig entry \<and> node_sim bytes fn key F cn p b ty asig entry c' A')
    \<and> published (trace (cf_world c')) = published (trace (cf_world c)) @ out" using conjunct1 [OF a] by blast
qed

end
