(* ===== verification/Firmware.thy ===== *)
theory Firmware
  imports Cnode_Life Node_Run
begin

text \<open>
  The whole program at work, as an application's \<open>app_main\<close> uses it: the node is initialised and
  started, a task is created and registered on its board, and then messages arrive and the processing task and
  the workers take their steps, in any order. Every step is the function of its own theory; the laws of the
  outside (flash, driver, queue, CBOR) are those of the locales.
\<close>

section \<open>A node with one task\<close>

definition app_main :: "env \<Rightarrow> event list \<Rightarrow> string \<Rightarrow> argtype_t \<Rightarrow> string \<Rightarrow> nat \<Rightarrow> (addr \<times> addr) c_prog" where
  "app_main e evs name ty sig entry =
     bnd (cnode_init e evs) (\<lambda>cn.
     bnd (cnode_start e cn) (\<lambda>ok.
     andthen (check ok AssertFailed)
     (bnd (load as_cnode cn) (\<lambda>n.
     bnd (task_create name ty sig entry) (\<lambda>task.
     andthen (tboard_register_task (cn_tboard n) task)
     (ret (cn, task)))))))"

definition new_task :: "string \<Rightarrow> argtype_t \<Rightarrow> string \<Rightarrow> nat \<Rightarrow> task_t" where
  "new_task name ty sig entry = zero_task\<lparr>t_name := name, t_return_type := ty, t_fn_argsig := sig,
     t_entry_point := entry, instances := replicate MAX_INSTANCES 0, num_instances := 0\<rparr>"

lemma task_create_ok:
  "no_oom s \<Longrightarrow> task_create name ty sig entry s = Inr (Suc (brk s), s\<lparr>brk := Suc (brk s),
    heap := (heap s)(Suc (brk s) := Some (OTask (new_task name ty sig entry))),
    total_mem_usage := total_mem_usage s + 40\<rparr>)"
  by (simp add: task_create_def new_task_def prog_simps)

lemma new_task_ok:
  assumes "wf_mem s" "heap s p = Some (OTask (new_task name ty sig entry))"
  shows "task_ok s p (new_task name ty sig entry)" "live_slots (new_task name ty sig entry) = []"
    "slot_of s (new_task name ty sig entry) n = None"
proof -
  show live: "live_slots (new_task name ty sig entry) = []" by (simp add: new_task_def)
  show "task_ok s p (new_task name ty sig entry)"
    using assms live by (simp add: task_ok_def) (simp add: new_task_def)
  show "slot_of s (new_task name ty sig entry) n = None"
    using serial_of_null [OF assms(1)] by (simp add: slot_of_def new_task_def)
qed

lemma zero_tboard_ok:
  assumes "wf_mem s" "heap s b = Some (OTboard zero_tboard)"
  shows "tboard_ok s b zero_tboard" "task_map s zero_tboard n = None"
    "first_idx (\<lambda>q. q = 0) (tb_tasks zero_tboard) = Some 0"
  using assms name_of_null [OF assms(1)]
  by (simp_all add: tboard_ok_def zero_tboard_def task_map_def eval_nat_numeral)

text \<open>What the node offers then: it is up, its board has the one task, and no message is waiting.\<close>

definition serving :: "world \<Rightarrow> addr \<Rightarrow> cnode_t \<Rightarrow> tboard_t \<Rightarrow> addr \<Rightarrow> task_t \<Rightarrow> bool" where
  "serving s cn n tb p t \<longleftrightarrow> ready s cn n CNODE_REPLY_PUB_KEYEXPR tb (t_name t) p t
     \<and> task_map s tb = [t_name t \<mapsto> p] \<and> pending (trace s) = [] \<and> (\<forall>k. slot_of s t k = None)"

lemma app_main_ok:
  assumes boot: "can_boot e evs s" and ok: "\<And>tr x. e_ok e (tr @ [x])" and idle: "pending (trace s) = []"
  shows "\<exists>cn p s' n tb. app_main e evs name ty sig entry s = Inr ((cn, p), s')
    \<and> serving s' cn n tb p (new_task name ty sig entry)"
proof -
  let ?t = "new_task name ty sig entry"
  have mem: "wf_mem s" "no_oom s" using boot by (simp_all add: can_boot_def)
  from cnode_init_ok [OF boot] obtain s1 n x m where
    r1: "cnode_init e evs s = Inr (brk s + 1, s1)" and made: "node_made s s1 n x m" by blast
  have n: "n = zero_cnode\<lparr>cn_system_manager := brk s + 2, cn_tboard := brk s + 3, cn_core_state := brk s + 4,
       cn_node_id := brk s + 6, cn_commandQueue := cn_commandQueue n, cn_initialized := True\<rparr>"
    and h1: "heap s1 = (heap s)(brk s + 1 := Some (OCnode n), brk s + 2 := Some (OSysman m),
        brk s + 3 := Some (OTboard zero_tboard),
        brk s + 4 := Some (OCore \<lparr>cs_device_id = brk s + 6, cs_serial_num = 0\<rparr>),
        brk s + 5 := Some (OChars [NUL]), brk s + 6 := Some (OChars (x @ [NUL])))"
    and st1: "brk s1 = brk s + 6" "oom s1 = oom s" "pending (trace s1) = []" "global_tboard s1 = brk s + 3"
    using made idle unfolding node_made_def by (blast | simp)+
  have init: "cn_initialized n" "cn_tboard n = brk s + 3" by (subst n, simp)+
  have mem1: "wf_mem s1" "no_oom s1" using mem st1 by (simp_all add: wf_mem_def no_oom_def h1)
  have ok2: "e_ok e (tr @ a # as)" for tr a as
    using ok [of "tr @ butlast (a # as)" "last (a # as)"] append_butlast_last_id [of "a # as"] by simp
  have cn1: "heap s1 (brk s + 1) = Some (OCnode n)" by (simp add: h1)
  from cnode_start_ok [OF mem1 cn1 init(1), of e] ok2 st1 obtain s2 where
    r2: "cnode_start e (brk s + 1) s1 = Inr (True, s2)"
    and h2: "heap s2 = (heap s1)(brk s + 1 := Some (OCnode (started_node s1 n)), brk s + 7 := Some OZenoh,
        brk s + 8 := Some (OPub \<lparr>pub_keyexpr = CNODE_REPLY_PUB_KEYEXPR\<rparr>),
        brk s + 9 := Some (OPub \<lparr>pub_keyexpr = CNODE_REQUEST_PUB_KEYEXPR\<rparr>))"
    and st2: "brk s2 = brk s + 9" "oom s2 = oom s" "global_tboard s2 = brk s + 3"
    and tr2: "trace s2 = trace s1 @ declared @ [Z_pub CNODE_REQUEST_PUB_KEYEXPR, Z_sub CNODE_SUB_KEYEXPR, Rtos_task (brk s + 1)]"
    by (auto simp: add.commute)
  let ?n = "started_node s1 n" and ?p = "brk s + 10"
  have mem2: "wf_mem s2" "no_oom s2" using mem1 st1 st2 by (simp_all add: wf_mem_def no_oom_def h2)
  define s3 where "s3 = s2\<lparr>brk := Suc (brk s2), heap := (heap s2)(?p := Some (OTask ?t)),
    total_mem_usage := total_mem_usage s2 + 40\<rparr>"
  have r3: "task_create name ty sig entry s2 = Inr (?p, s3)"
    using task_create_ok [OF mem2(2)] st2 by (simp add: s3_def add.commute)
  have mem3: "wf_mem s3" using mem2(1) st2 by (simp add: wf_mem_def s3_def)
  have b3: "heap s3 (brk s + 3) = Some (OTboard zero_tboard)" and p3: "heap s3 ?p = Some (OTask ?t)"
    by (simp_all add: s3_def h2 h1)
  note tb3 = zero_tboard_ok [OF mem3 b3]
  let ?tb = "with_task zero_tboard 0 ?p"
  define s4 where "s4 = registered s3 (brk s + 3) zero_tboard ?p 0"
  have r4: "tboard_register_task (brk s + 3) ?p s3 = Inr ((), s4)"
    using tboard_register_task_ok [OF tb3(1) p3] tb3(2,3) by (simp add: s4_def registered_def)
  from registered_ok [OF tb3(1) p3 tb3(2,3)]
  have tb4: "tboard_ok s4 (brk s + 3) ?tb" "task_map s4 ?tb = [t_name ?t \<mapsto> ?p]"
    using tb3(2) by (auto simp: s4_def)
  have h4: "heap s4 r = (if r = brk s + 3 then Some (OTboard ?tb) else heap s3 r)" for r
    by (simp add: s4_def registered_def)
  have "app_main e evs name ty sig entry s = Inr ((brk s + 1, ?p), s4)"
    using r1 r2 r3 r4 init(2) by (simp add: app_main_def prog_simps h2 started_node_def)
  moreover have t4: "heap s4 ?p = Some (OTask ?t)" using p3 h4 [of ?p] by simp
  note new_task_ok [OF tboard_okD(1) [OF tb4(1)] t4]
  moreover have "node_up s4 (brk s + 1) ?n CNODE_REPLY_PUB_KEYEXPR"
    by (simp add: node_up_def h4 s3_def h2 started_node_def st1)
  moreover have "cn_tboard ?n = brk s + 3" by (simp add: started_node_def init)
  moreover have "no_oom s4" "pending (trace s4) = []" "global_tboard s4 = brk s + 3"
    using mem2(2) st1(3) st2(3) by (simp_all add: s4_def registered_def s3_def tr2 pending_append no_oom_def)
  ultimately show ?thesis using tb4 unfolding serving_def ready_def
    by (intro exI [of _ "brk s + 1"] exI [of _ ?p] exI [of _ s4] exI [of _ ?n] exI [of _ ?tb]) simp
qed

text \<open>That is where the abstract machine begins: an empty queue and no call.\<close>

abbreviation spec_init :: spec where
  "spec_init \<equiv> \<lparr>sp_queue = [], sp_calls = [], sp_wait = None\<rparr>"

abbreviation at_rest :: "world \<Rightarrow> node_config" where
  "at_rest s \<equiv> \<lparr>cf_world = s, cf_proc = P_idle, cf_workers = (\<lambda>_. W_start)\<rparr>"

lemma seating_init: "seating [] (replicate MAX_INSTANCES None)"
  by (simp add: seating_def)

lemma serving_sim:
  assumes "serving s cn n tb p (new_task fn ty asig entry)"
  shows "node_sim bytes fn CNODE_REPLY_PUB_KEYEXPR F cn p (length (tasks_started (trace s))) ty asig entry (at_rest s) spec_init"
proof -
  let ?t = "new_task fn ty asig entry"
  have r: "ready s cn n CNODE_REPLY_PUB_KEYEXPR tb fn p ?t" and idle: "pending (trace s) = []"
    using assms by (simp_all add: serving_def new_task_def)
  have inst: "instances ?t = replicate MAX_INSTANCES 0" by (simp add: new_task_def)
  have "seated F (\<lambda>_. W_start) s p ?t [] [] (replicate MAX_INSTANCES None)"
    using serial_of_null [OF readyD(7) [OF r]] seating_init by (simp add: seated_def inst)
  then have "node_inv bytes fn CNODE_REPLY_PUB_KEYEXPR F cn p (length (tasks_started (trace s))) (cf_workers (at_rest s))
      (cf_world (at_rest s)) spec_init n tb ?t [] [] (replicate MAX_INSTANCES None)"
    using r idle by (simp add: node_inv_def)
  then show ?thesis by (rule node_simI) (simp_all add: new_task_def proc_at_def)
qed

text \<open>From power-on along a schedule that the machine allows.\<close>

lemma firmware_follows:
  assumes w: "works_with e E P bytes view fuel l stub key F ty asig entry"
    and boot: "can_boot e evs s" and ok: "\<And>tr x. e_ok e (tr @ [x])" and idle: "pending (trace s) = []"
    and spec: "spec_run (spec_step bytes CNODE_REPLY_PUB_KEYEXPR fn asig F) spec_init sched = Some (A, out)"
    and fits: "list_all (\<lambda>r. length (snd r) \<le> 1024) out"
  obtains cn p s0 c where "app_main e evs fn ty asig entry s = Inr ((cn, p), s0)"
    "steps (node_step e E P fuel l stub tk bytes cn key fn (length (tasks_started (trace s0)))) sched (at_rest s0) = Inr c"
    "published (trace (cf_world c)) = published (trace s0) @ out"
    "node_sim bytes fn CNODE_REPLY_PUB_KEYEXPR F cn p (length (tasks_started (trace s0))) ty asig entry c A"
proof -
  from app_main_ok [OF boot ok idle, of fn ty asig entry] obtain cn p s0 n tb where
    main: "app_main e evs fn ty asig entry s = Inr ((cn, p), s0)" and sv: "serving s0 cn n tb p (new_task fn ty asig entry)"
    by blast
  from node.sim_run [OF conjI [OF w serving_sim [OF sv]] spec fits, of tk] main that show ?thesis by auto
qed

text \<open>C1. From power-on to any service. A node that \<open>app_main\<close> initialises, starts and gives one task implements
  the abstract machine: for every schedule of arriving messages, echoes of its own messages, steps of the
  processing task and steps of the workers that the machine allows, with any number of calls in flight at once,
  no function of the firmware faults, the messages published are exactly the machine's, in its order, and the
  node ends where the machine does.\<close>

lemma firmware_serves:
  assumes w: "works_with e E P bytes view fuel l stub key F ty asig entry"
    and boot: "can_boot e evs s" and ok: "\<And>tr x. e_ok e (tr @ [x])" and idle: "pending (trace s) = []"
    and spec: "spec_run (spec_step bytes CNODE_REPLY_PUB_KEYEXPR fn asig F) spec_init sched = Some (A, out)"
    and fits: "list_all (\<lambda>r. length (snd r) \<le> 1024) out"
  shows "\<exists>cn p s0 c. app_main e evs fn ty asig entry s = Inr ((cn, p), s0)
    \<and> steps (node_step e E P fuel l stub tk bytes cn key fn (length (tasks_started (trace s0)))) sched (at_rest s0) = Inr c
    \<and> published (trace (cf_world c)) = published (trace s0) @ out
    \<and> node_sim bytes fn CNODE_REPLY_PUB_KEYEXPR F cn p (length (tasks_started (trace s0))) ty asig entry c A"
  by (rule firmware_follows [OF w boot ok idle spec fits]) blast

text \<open>C2. The same node, called one call at a time: whatever calls its controllers make, every request is decoded,
  queued, started and acknowledged, every instance runs, and every result asked for is published. The messages
  published are the acknowledgement of each call and its value under \<open>F\<close>, in order and nothing else; afterwards
  the queue is empty, the processing task is idle and the task has no instance left.\<close>

lemma firmware_answers:
  assumes w: "works_with e E P bytes view fuel l stub key F ty asig entry"
    and boot: "can_boot e evs s" and ok: "\<And>tr x. e_ok e (tr @ [x])" and idle: "pending (trace s) = []"
    and calls: "\<forall>r \<in> set rs. callable bytes fn asig r \<and> length (bytes (res_msg fn r (F (rq_args r)))) \<le> 1024"
  shows "\<exists>cn p s0 c n tb t. app_main e evs fn ty asig entry s = Inr ((cn, p), s0)
    \<and> steps (node_step e E P fuel l stub tk bytes cn key fn (length (tasks_started (trace s0)))) (one_by_one 0 rs) (at_rest s0) = Inr c
    \<and> published (trace (cf_world c)) = published (trace s0) @ concat (map (replies bytes CNODE_REPLY_PUB_KEYEXPR fn F) rs)
    \<and> ready (cf_world c) cn n CNODE_REPLY_PUB_KEYEXPR tb fn p t \<and> pending (trace (cf_world c)) = [] \<and> cf_proc c = P_idle
    \<and> live_slots t = []"
proof -
  let ?A = "spec_init\<lparr>sp_calls := map (\<lambda>r. (r, Collected)) rs\<rparr>" and ?out = "concat (map (replies bytes CNODE_REPLY_PUB_KEYEXPR fn F) rs)"
  have spec: "spec_run (spec_step bytes CNODE_REPLY_PUB_KEYEXPR fn asig F) spec_init (one_by_one 0 rs) = Some (?A, ?out)"
    using one_by_one_ok [of spec_init rs bytes fn asig CNODE_REPLY_PUB_KEYEXPR F] calls by simp
  have "list_all (\<lambda>r. length (snd r) \<le> 1024) ?out"
    using calls by (auto simp: list_all_iff replies_def callable_def deliverable_def)
  from firmware_follows [OF w boot ok idle spec this, of tk] obtain cn p s0 c where
    run: "app_main e evs fn ty asig entry s = Inr ((cn, p), s0)"
    "steps (node_step e E P fuel l stub tk bytes cn key fn (length (tasks_started (trace s0)))) (one_by_one 0 rs) (at_rest s0) = Inr c"
    "published (trace (cf_world c)) = published (trace s0) @ ?out"
    and sim: "node_sim bytes fn CNODE_REPLY_PUB_KEYEXPR F cn p (length (tasks_started (trace s0))) ty asig entry c ?A" .
  from sim obtain n tb t qs bs seats where
    inv: "node_inv bytes fn CNODE_REPLY_PUB_KEYEXPR F cn p (length (tasks_started (trace s0))) (cf_workers c) (cf_world c) ?A n tb t qs bs seats"
    and pc: "proc_at (cf_proc c) ?A qs bs" unfolding node_sim_def by blast
  note d = node_invD [OF inv]
  have "pending (trace (cf_world c)) = []" using d(2,3) by simp
  moreover have "cf_proc c = P_idle" using pc by (simp add: proc_at_def)
  moreover have "length (live_slots t) = 0" using seated_free(2) [OF d(6) readyD(7) [OF d(1)]] by (simp add: comp_def)
  ultimately show ?thesis using run d(1) by blast
qed

text \<open>C3. The limits of the service are real. When a schedule has led to a request with five calls in flight, or
  to a request for the result of a call that is not there (never made, or collected before), the next step of
  the processing task uses freed memory: any controller can stop the node by asking twice for a result.\<close>

lemma firmware_limits:
  assumes w: "works_with e E P bytes view fuel l stub key F ty asig entry"
    and boot: "can_boot e evs s" and ok: "\<And>tr x. e_ok e (tr @ [x])" and idle: "pending (trace s) = []"
    and spec: "spec_run (spec_step bytes CNODE_REPLY_PUB_KEYEXPR fn asig F) spec_init sched = Some (A, out)"
    and fits: "list_all (\<lambda>r. length (snd r) \<le> 1024) out"
    and no: "sp_wait A = None" "sp_queue A = m # ms" "refused (sp_calls A) m"
  shows "\<exists>cn p s0. app_main e evs fn ty asig entry s = Inr ((cn, p), s0)
    \<and> steps (node_step e E P fuel l stub tk bytes cn key fn (length (tasks_started (trace s0)))) (sched @ [Proc]) (at_rest s0)
      = Inl UseAfterFree"
proof -
  from firmware_follows [OF w boot ok idle spec fits, of tk] obtain cn p s0 c where
    run: "app_main e evs fn ty asig entry s = Inr ((cn, p), s0)"
    "steps (node_step e E P fuel l stub tk bytes cn key fn (length (tasks_started (trace s0)))) sched (at_rest s0) = Inr c"
    and sim: "node_sim bytes fn CNODE_REPLY_PUB_KEYEXPR F cn p (length (tasks_started (trace s0))) ty asig entry c A" .
  from refused_step [OF w sim no] run show ?thesis by (simp add: steps_append on_world_def)
qed

text \<open>C4. The race is real too. When a schedule has led to where the processing task waits for a call whose worker has
  set its flag and not ended, the next step of the processing task publishes the result and destroys the instance,
  and the next step of that worker uses the freed memory.\<close>

lemma firmware_race:
  assumes w: "works_with e E P bytes view fuel l stub key F ty asig entry"
    and boot: "can_boot e evs s" and ok: "\<And>tr x. e_ok e (tr @ [x])" and idle: "pending (trace s) = []"
    and spec: "spec_run (spec_step bytes CNODE_REPLY_PUB_KEYEXPR fn asig F) spec_init sched = Some (A, out)"
    and fits: "list_all (\<lambda>r. length (snd r) \<le> 1024) out"
    and m: "sp_wait A = Some r" "find_call (sp_calls A) (rq_id r) = Some m" "progress (snd (sp_calls A ! m)) \<in> {3, 4, 5}"
      "tk \<or> progress (snd (sp_calls A ! m)) < 5"
    and fit: "length (bytes (res_msg fn r (F (rq_args (fst (sp_calls A ! m)))))) \<le> 1024"
  shows "\<exists>cn p s0. app_main e evs fn ty asig entry s = Inr ((cn, p), s0)
    \<and> steps (node_step e E P fuel l stub tk bytes cn key fn (length (tasks_started (trace s0)))) (sched @ [Proc, Work m]) (at_rest s0)
      = Inl UseAfterFree"
proof -
  from firmware_follows [OF w boot ok idle spec fits, of tk] obtain cn p s0 c where
    run: "app_main e evs fn ty asig entry s = Inr ((cn, p), s0)"
    "steps (node_step e E P fuel l stub tk bytes cn key fn (length (tasks_started (trace s0)))) sched (at_rest s0) = Inr c"
    and sim: "node_sim bytes fn CNODE_REPLY_PUB_KEYEXPR F cn p (length (tasks_started (trace s0))) ty asig entry c A" .
  from early_collection [OF w sim m fit] run show ?thesis by (simp add: steps_append del: steps.simps)
qed

text \<open>C5. The wait for a result ends. When a schedule has led to where the processing task waits for a call, then
  along every continuation that the machine allows in which the worker of that call takes the rest of its six
  steps, whatever else happens, the result is published, by the next step of the processing task at the latest.\<close>

lemma firmware_wait_ends:
  assumes w: "works_with e E P bytes view fuel l stub key F ty asig entry"
    and boot: "can_boot e evs s" and ok: "\<And>tr x. e_ok e (tr @ [x])" and idle: "pending (trace s) = []"
    and spec: "spec_run (spec_step bytes CNODE_REPLY_PUB_KEYEXPR fn asig F) spec_init sched = Some (A, out)"
    and wait: "sp_wait A = Some r" "find_call (sp_calls A) (rq_id r) = Some m"
    and next_evs: "spec_run (spec_step bytes CNODE_REPLY_PUB_KEYEXPR fn asig F) A sched' = Some (A', out')"
      "progress (snd (sp_calls A ! m)) + count_list sched' (Work m) = WORKER_STEPS"
    and fits: "list_all (\<lambda>r. length (snd r) \<le> 1024)
      (out @ out' @ [result_of bytes CNODE_REPLY_PUB_KEYEXPR fn F r (fst (sp_calls A ! m))])"
  shows "\<exists>cn p s0 k c out''. app_main e evs fn ty asig entry s = Inr ((cn, p), s0) \<and> k \<in> {[], [Proc]}
    \<and> steps (node_step e E P fuel l stub tk bytes cn key fn (length (tasks_started (trace s0)))) (sched @ sched' @ k) (at_rest s0)
      = Inr c
    \<and> published (trace (cf_world c)) = published (trace s0) @ out @ out''
    \<and> result_of bytes CNODE_REPLY_PUB_KEYEXPR fn F r (fst (sp_calls A ! m)) \<in> set out''"
proof -
  let ?res = "result_of bytes CNODE_REPLY_PUB_KEYEXPR fn F r (fst (sp_calls A ! m))"
  have "\<exists>k A2 out2. k \<in> {[], [Proc]} \<and> ?res \<in> set out2 \<and> list_all (\<lambda>r. length (snd r) \<le> 1024) (out @ out2)
    \<and> spec_run (spec_step bytes CNODE_REPLY_PUB_KEYEXPR fn asig F) A (sched' @ k) = Some (A2, out2)"
    using waiting_run [OF next_evs(1) wait]
  proof
    assume "?res \<in> set out'"
    with next_evs(1) fits show ?thesis by (intro exI [of _ "[]"] exI [of _ A'] exI [of _ out']) simp
  next
    let ?A = "A'\<lparr>sp_calls := (sp_calls A')[m := (fst (sp_calls A' ! m), Collected)], sp_wait := None\<rparr>"
    assume "sp_wait A' = Some r \<and> find_call (sp_calls A') (rq_id r) = Some m \<and> fst (sp_calls A' ! m) = fst (sp_calls A ! m)
      \<and> progress (snd (sp_calls A' ! m)) = progress (snd (sp_calls A ! m)) + count_list sched' (Work m)"
    with next_evs(2) have "spec_run (spec_step bytes CNODE_REPLY_PUB_KEYEXPR fn asig F) A' [Proc] = Some (?A, [?res])"
      by (simp add: poll_result_def)
    from spec_run_append [OF next_evs(1) this] fits show ?thesis
      by (intro exI [of _ "[Proc]"] exI [of _ ?A] exI [of _ "out' @ [?res]"]) simp
  qed
  then obtain k A2 out2 where k: "k \<in> {[], [Proc]}" "?res \<in> set out2" "list_all (\<lambda>r. length (snd r) \<le> 1024) (out @ out2)"
    and run: "spec_run (spec_step bytes CNODE_REPLY_PUB_KEYEXPR fn asig F) A (sched' @ k) = Some (A2, out2)" by blast
  from firmware_follows [OF w boot ok idle spec_run_append [OF spec run] k(3), of tk] k(1,2) show ?thesis by metis
qed

end
