(* ===== verification/Printing.thy ===== *)
theory Printing
  imports Tboard Zenoh Command
begin

text \<open>
  What the program prints of its own state: \<open>command_arg_print\<close> and \<open>command_print\<close> (\<open>src/command.c\<close>),
  \<open>task_print\<close> (\<open>src/task.c\<close>), \<open>tboard_print_tasks\<close> (\<open>src/tboard.c\<close>), the \<open>fprint\<close> functions of
  \<open>src/zenoh.c\<close>; and \<open>concat\<close> of \<open>src/utils.c\<close>. A printing function returns the pieces it hands to
  \<open>printf\<close>, in order. It follows the same pointers as any other function, so it can fail as they do:
  the lemmas give what is printed for a well-formed state, and when printing crashes.
\<close>

section \<open>Output\<close>

text \<open>Literal text, the two ends of line, and one constructor for each conversion that is used.\<close>

datatype out =
    Text string
  | Nl             \<comment> \<open>line feed\<close>
  | CrLf           \<comment> \<open>carriage return and line feed\<close>
  | PInt i32       \<comment> \<open>\<open>%d\<close>\<close>
  | PLong i32      \<comment> \<open>\<open>%ld\<close>\<close>
  | PUlong u32     \<comment> \<open>\<open>%lu\<close>\<close>
  | PUllong u64    \<comment> \<open>\<open>%llu\<close>\<close>
  | PDouble u64    \<comment> \<open>\<open>%f\<close>\<close>
  | PDouble3 u64   \<comment> \<open>\<open>%.3f\<close>\<close>
  | PStr string    \<comment> \<open>\<open>%s\<close> and \<open>%.*s\<close>\<close>
  | PHex u8        \<comment> \<open>\<open>%x\<close>\<close>
  | PHex2 u8       \<comment> \<open>\<open>%02X\<close>\<close>

abbreviation quote :: out where
  "quote \<equiv> Text [CHR 0x22]"

type_synonym printer = "out list c_prog"

text \<open>\<open>for (i = 0; i < n; i++)\<close> with a body that prints.\<close>

primrec print_from :: "nat \<Rightarrow> nat \<Rightarrow> (nat \<Rightarrow> printer) \<Rightarrow> printer" where
  "print_from 0 i b = ret []"
| "print_from (Suc k) i b = bnd (b i) (\<lambda>x. bnd (print_from k (Suc i) b) (\<lambda>y. ret (x @ y)))"

lemma print_from_ok:
  "(\<And>j. i \<le> j \<Longrightarrow> j < i + k \<Longrightarrow> b j s = Inr (f j, s)) \<Longrightarrow>
    print_from k i b s = Inr (concat (map f [i..<i + k]), s)"
proof (induction k arbitrary: i)
  case (Suc k)
  have "print_from k (Suc i) b s = Inr (concat (map f [Suc i..<Suc i + k]), s)"
    by (rule Suc.IH) (use Suc.prems in simp)
  moreover have "[i..<i + Suc k] = i # [Suc i..<Suc i + k]" by (simp add: upt_conv_Cons del: upt_Suc)
  ultimately show ?case using Suc.prems [of i] by (simp add: prog_simps del: upt_Suc)
qed (simp add: prog_simps)

lemma print_from_fault:
  "(\<And>j. i \<le> j \<Longrightarrow> j < i + m \<Longrightarrow> \<exists>x. b j s = Inr (x, s)) \<Longrightarrow> b (i + m) s = Inl e \<Longrightarrow> m < k \<Longrightarrow>
    print_from k i b s = Inl e"
proof (induction m arbitrary: i k)
  case 0
  then show ?case by (cases k) (simp_all add: prog_simps)
next
  case (Suc m)
  from Suc.prems(3) obtain k' where k: "k = Suc k'" "m < k'" by (cases k) auto
  have "print_from k' (Suc i) b s = Inl e"
    by (rule Suc.IH) (use Suc.prems k in auto)
  with Suc.prems(1) [of i] k show ?case by (auto simp: prog_simps)
qed

text \<open>A string that \<open>%s\<close> is given.\<close>

definition chars_at :: "addr \<Rightarrow> string c_prog" where
  "chars_at p = bnd (load as_chars p) read_str"

section \<open>Commands\<close>

definition print_element :: "addr \<Rightarrow> nat \<Rightarrow> printer" where
  "print_element arg i = bnd (get_arg arg i) (\<lambda>a.
     case arg_type a of
       INT_TYPE \<Rightarrow> bnd (get_ival (arg_val a)) (\<lambda>x. ret [Text ''Int: '', PInt x, Text '' '', Nl])
     | STRING_TYPE \<Rightarrow> bnd (get_ptr (arg_val a)) (\<lambda>p. bnd (chars_at p) (\<lambda>x.
         ret [Text ''String: '', PStr x, Text '' '', Nl]))
     | DOUBLE_TYPE \<Rightarrow> bnd (get_dval (arg_val a)) (\<lambda>d. ret [Text ''Double: '', PDouble d, Text '' '', Nl])
     | _ \<Rightarrow> ret [])"

definition command_arg_print :: "addr \<Rightarrow> printer" where
  "command_arg_print arg = bnd (get_arg arg 0) (\<lambda>a0. print_from (iterations (nargs a0)) 0 (print_element arg))"

text \<open>\<open>strlen\<close> of the buffer: the bytes before the first zero.\<close>

definition buffer_strlen :: "u8 list \<Rightarrow> ('s, nat) prog" where
  "buffer_strlen b = (if 0 \<in> set b then ret (length (takeWhile (\<lambda>x. x \<noteq> 0) b)) else raise OutOfBounds)"

abbreviation ruler :: "out list" where
  "ruler \<equiv> [Nl, Text ''==================================='', Nl]"

definition command_print :: "addr \<Rightarrow> printer" where
  "command_print cmd = bnd (load as_cmd cmd) (\<lambda>c.
     bnd (read_str (c_fn_name c)) (\<lambda>fn. bnd (read_str (c_node_id c)) (\<lambda>node. bnd (read_str (c_fn_argsig c)) (\<lambda>sig.
     bnd (buffer_strlen (c_buffer c)) (\<lambda>n.
     bnd (print_from n 0 (\<lambda>i. bnd (idx (c_buffer c) i) (\<lambda>b. ret [PHex b]))) (\<lambda>hex.
     bnd (if c_args c \<noteq> 0 then bnd (command_arg_print (c_args c)) (\<lambda>x. ret (Nl # x)) else ret []) (\<lambda>args.
     ret (ruler
       @ [Nl, Text ''Command cmd: '', PInt (c_cmd c), Nl, Nl, Text ''Command subcmd: '', PInt (c_subcmd c), Nl,
          Nl, Text ''Command fn_name: '', PStr fn, Nl, Nl, Text ''Command taskid : '', PUllong (c_task_id c), Nl,
          Nl, Text ''Command node_id: '', PStr node, Nl, Nl, Text ''Command fn_argsig: '', PStr sig, Nl,
          Nl, Text ''Command buffer: '']
       @ hex @ args @ ruler))))))))"

section \<open>Tasks\<close>

text \<open>The switch of \<open>task_print_args\<close> and of \<open>task_print_retval\<close>.\<close>

definition print_value :: "arg_t \<Rightarrow> printer" where
  "print_value a = (case arg_type a of
       INT_TYPE \<Rightarrow> bnd (get_ival (arg_val a)) (\<lambda>x. ret [PInt x, Text '', ''])
     | DOUBLE_TYPE \<Rightarrow> bnd (get_dval (arg_val a)) (\<lambda>d. ret [PDouble3 d, Text '', ''])
     | STRING_TYPE \<Rightarrow> bnd (get_ptr (arg_val a)) (\<lambda>p. bnd (chars_at p) (\<lambda>x. ret [quote, PStr x, quote, Text '', '']))
     | LONG_TYPE \<Rightarrow> bnd (get_ival (arg_val a)) (\<lambda>x. ret [PLong x, Text '', ''])
     | NVOID_TYPE \<Rightarrow> bnd (get_ptr (arg_val a)) (\<lambda>p. bnd (nvoid_field p 4) (\<lambda>n.
         ret [Text ''nvoid(n='', PInt (nv_len n), Text ''), '']))
     | _ \<Rightarrow> ret [])"

definition task_print_args :: "addr \<Rightarrow> nat \<Rightarrow> printer" where
  "task_print_args args num_args =
     (if args = 0 then ret [Text ''no arguments'']
      else bnd (print_from num_args 0 (\<lambda>i. bnd (get_arg args i) print_value)) (\<lambda>x.
        ret (if num_args = 0 then [Text ''no arguments''] else x)))"

definition task_print_retval :: "addr \<Rightarrow> printer" where
  "task_print_retval return_arg =
     (if return_arg = 0 then ret [Text ''no return value'']
      else bnd (get_arg return_arg 0) (\<lambda>a.
        if arg_type a = VOID_TYPE then ret [Text ''no return value''] else print_value a))"

definition sig_name :: "char \<Rightarrow> out list" where
  "sig_name c = (if c = CHR ''i'' then [Text ''int, ''] else if c = CHR ''f'' then [Text ''double, '']
     else if c = CHR ''s'' then [Text ''string, ''] else if c = CHR ''n'' then [Text ''nvoid, ''] else [])"

fun type_name :: "argtype_t \<Rightarrow> string" where
  "type_name INT_TYPE = ''int ''" | "type_name DOUBLE_TYPE = ''double ''" | "type_name STRING_TYPE = ''string ''"
| "type_name NVOID_TYPE = ''nvoid ''" | "type_name LONG_TYPE = ''long ''" | "type_name VOID_TYPE = ''void ''"
| "type_name NULL_TYPE = ''null ''"

definition truth :: "bool \<Rightarrow> out list" where
  "truth b = [Text (if b then ''true '' else ''false ''), CrLf]"

text \<open>The body of the loop over the instances.\<close>

definition instance_text :: "task_instance_t \<Rightarrow> out list \<Rightarrow> out list \<Rightarrow> out list" where
  "instance_text i args ra =
     [Text ''instance id:             '', PUlong (serial_id i), CrLf]
     @ Text ''is_running:              '' # truth (is_running i)
     @ Text ''has_finished:            '' # truth (has_finished i)
     @ Text ''arguments:               '' # args @ [CrLf]
     @ Text ''return value:            '' # ra @ [CrLf, CrLf]"

definition print_instance :: "addr \<Rightarrow> printer" where
  "print_instance inst = bnd (load as_inst inst) (\<lambda>i. bnd (load as_task (parent_task i)) (\<lambda>t.
     bnd (task_print_args (i_args i) (length (t_fn_argsig t))) (\<lambda>args.
     bnd (task_print_retval (i_return_arg i)) (\<lambda>ra. ret (instance_text i args ra)))))"

definition task_text :: "task_t \<Rightarrow> out list \<Rightarrow> out list" where
  "task_text t insts =
     [CrLf, Text '' ---------- TASK INFO BEGIN ---------- '', CrLf,
      Text ''task name:               '', PStr (t_name t), Text '' '', CrLf, Text ''argsig:                  '']
     @ concat (map sig_name (t_fn_argsig t))
     @ [CrLf, Text ''return_type:             '', Text (type_name (t_return_type t)), CrLf,
        Text ''number of instances:     '', PUlong (num_instances t), CrLf, CrLf]
     @ insts @ [Text '' ---------- TASK INFO END ---------- '', CrLf]"

definition task_print :: "addr \<Rightarrow> printer" where
  "task_print task =
     (if task = 0 then ret []
      else bnd (load as_task task) (\<lambda>t.
        bnd (print_from (unat (num_instances t)) 0 (\<lambda>i. bnd (idx (instances t) i) print_instance)) (\<lambda>insts.
        ret (task_text t insts))))"

definition tboard_print_tasks :: "addr \<Rightarrow> printer" where
  "tboard_print_tasks tboard =
     (if tboard = 0 then ret []
      else bnd (load as_tboard tboard) (\<lambda>tb.
        bnd (print_from MAX_TASKS 0 (\<lambda>i. bnd (idx (tb_tasks tb) i) (\<lambda>p. if p = 0 then ret [] else task_print p))) (\<lambda>x.
        ret ([Text ''---------- TBOARD INFO BEGIN ----------'', Nl,
          Text ''Number of tasks:             '', PUlong (num_tasks tb), Nl,
          Text ''Number of dead tasks:        '', PUlong (num_dead_tasks tb), Nl,
          Text ''Last dead task ID:           '', PUlong (last_dead_task_id tb), Nl]
          @ x @ [Text ''---------- TBOARD INFO END ----------'', Nl]))))"

section \<open>Greetings of zenoh nodes\<close>

text \<open>What zenoh-pico hands to the callbacks: the bytes of the identifier, the role, the locators.\<close>

record hello =
  h_zid :: "u8 list"
  h_whatami :: string
  h_locators :: "string list"

definition fprintzid :: "u8 list \<Rightarrow> printer" where
  "fprintzid zid =
     (if length zid = 0 then ret [Text ''None'']
      else bnd (print_from (length zid) 0 (\<lambda>i. bnd (idx zid i) (\<lambda>b. ret [PHex2 b]))) (\<lambda>x.
        ret (Text ''Some('' # x @ [Text '')''])))"

definition fprintwhatami :: "string \<Rightarrow> printer" where
  "fprintwhatami whatami = ret [quote, PStr whatami, quote]"

definition fprintlocators :: "string list \<Rightarrow> printer" where
  "fprintlocators locs =
     bnd (print_from (length locs) 0 (\<lambda>i. bnd (idx locs i) (\<lambda>x.
       ret ([quote, PStr x, quote] @ (if i < length locs - 1 then [Text '', ''] else []))))) (\<lambda>x.
     ret (Text ''['' # x @ [Text '']'']))"

definition fprinthello :: "hello \<Rightarrow> printer" where
  "fprinthello h =
     bnd (fprintzid (h_zid h)) (\<lambda>a. bnd (fprintwhatami (h_whatami h)) (\<lambda>b. bnd (fprintlocators (h_locators h)) (\<lambda>c.
     ret (Text ''Hello { zid: '' # a @ Text '', whatami: '' # b @ Text '', locators: '' # c @ [Text '' }'']))))"

text \<open>The pair of callbacks that nothing uses; \<open>PRINT_HELLO\<close> is defined.\<close>

definition callback :: "hello \<Rightarrow> addr \<Rightarrow> printer" where
  "callback h context = bnd (fprinthello h) (\<lambda>x.
     bnd (load as_bytes context) (\<lambda>b. andthen (store context (OBytes (int_bytes (bytes_int b + 1)))) (ret (x @ [Nl]))))"

definition drop_closure :: "addr \<Rightarrow> printer" where
  "drop_closure context = bnd (load as_bytes context) (\<lambda>b.
     andthen (free_sized context 4)
     (ret (if bytes_int b = 0 then [Text ''Did not find any zenoh process.'', Nl] else [Text ''Dropping scout results.'', Nl])))"

section \<open>\<open>concat\<close>\<close>

definition concat_strings :: "addr \<Rightarrow> addr \<Rightarrow> addr c_prog" where
  "concat_strings s1 s2 =
     bnd (chars_at s1) (\<lambda>x. bnd (chars_at s2) (\<lambda>y. let n = length x + length y + 1 in
     bnd (calloc (OChars (replicate n NUL)) (of_nat n)) (\<lambda>result.
     andthen (store result (OChars (x @ replicate (length y + 1) NUL)))
     (andthen (store result (OChars (x @ y @ [NUL])))
     (ret result)))))"

section \<open>What is printed\<close>

lemma str_view_ptr: "str_view s v = Some x \<Longrightarrow> \<exists>p. v = PVal p \<and> chars_at p s = Inr (x, s)"
  by (cases v) (auto simp: str_view_def chars_at_def prog_simps split: option.splits obj.splits if_splits)

text \<open>A value, as \<open>command_arg_print\<close> and as \<open>task_print\<close> show it.\<close>

fun shown :: "argv \<Rightarrow> out list" where
  "shown (VInt x) = [Text ''Int: '', PInt x, Text '' '', Nl]"
| "shown (VStr x) = [Text ''String: '', PStr x, Text '' '', Nl]"
| "shown (VDouble d) = [Text ''Double: '', PDouble d, Text '' '', Nl]"
| "shown _ = []"

fun listed :: "argv \<Rightarrow> out list" where
  "listed (VInt x) = [PInt x, Text '', '']"
| "listed (VDouble d) = [PDouble3 d, Text '', '']"
| "listed (VStr x) = [quote, PStr x, quote, Text '', '']"
| "listed (VLong x) = [PLong x, Text '', '']"
| "listed _ = []"

lemma print_value_ok: "arg_view s a = Some v \<Longrightarrow> print_value a s = Inr (listed v, s)"
  by (auto simp: arg_view_def print_value_def prog_simps int_viewD dbl_viewD
      dest!: str_view_ptr split: argtype_t.splits)

lemma print_element_ok:
  "heap s p = Some (OArgs ds) \<Longrightarrow> i < length ds \<Longrightarrow> arg_view s (ds ! i) = Some v \<Longrightarrow>
    print_element p i s = Inr (shown v, s)"
  by (auto simp: arg_view_def print_element_def get_arg_def prog_simps int_viewD dbl_viewD
      dest!: str_view_ptr split: argtype_t.splits)

lemma map_nth_upt: "length vs = n \<Longrightarrow> map (\<lambda>i. f (vs ! i)) [0..<n] = map f vs"
  by (metis (no_types, lifting) map_nth map_map comp_apply map_cong)

lemma command_arg_print_ok:
  assumes at: "args_at s p ds vs"
  shows "command_arg_print p s = Inr (concat (map shown vs), s)"
proof -
  have n: "nargs (ds ! 0) = of_nat (length ds)" "0 < length ds" "length ds < 2 ^ 31"
    using args_at_nth(2) [OF at, of 0] args_at_bounds [OF at] by simp_all
  have "print_from (length ds) 0 (print_element p) s = Inr (concat (map (\<lambda>i. shown (vs ! i)) [0..<0 + length ds]), s)"
    by (rule print_from_ok) (use print_element_ok [OF args_at_heap [OF at]] args_at_nth(1) [OF at] in simp)
  then show ?thesis
    using n args_at_heap [OF at] args_at_length [OF at]
    by (simp add: command_arg_print_def get_arg_def prog_simps map_nth_upt)
qed

text \<open>
  Of the buffer, which holds the CBOR encoding, \<open>command_print\<close> shows the bytes before the first zero.
\<close>

definition command_text :: "command_t \<Rightarrow> u8 list \<Rightarrow> argv list \<Rightarrow> out list" where
  "command_text c hex vs = ruler
     @ [Nl, Text ''Command cmd: '', PInt (c_cmd c), Nl, Nl, Text ''Command subcmd: '', PInt (c_subcmd c), Nl,
        Nl, Text ''Command fn_name: '', PStr (c_str (c_fn_name c)), Nl, Nl, Text ''Command taskid : '', PUllong (c_task_id c), Nl,
        Nl, Text ''Command node_id: '', PStr (c_str (c_node_id c)), Nl,
        Nl, Text ''Command fn_argsig: '', PStr (c_str (c_fn_argsig c)), Nl, Nl, Text ''Command buffer: '']
     @ map PHex hex @ (if c_args c = 0 then [] else Nl # concat (map shown vs)) @ ruler"

lemma command_print_ok:
  assumes c: "cmd_at s p c ds vs" "NUL \<in> set (c_fn_name c)" "NUL \<in> set (c_node_id c)" "NUL \<in> set (c_fn_argsig c)"
  shows "command_print p s = (if 0 \<in> set (c_buffer c)
    then Inr (command_text c (takeWhile (\<lambda>b. b \<noteq> 0) (c_buffer c)) vs, s) else Inl OutOfBounds)"
proof (cases "0 \<in> set (c_buffer c)")
  case True
  let ?b = "c_buffer c" and ?n = "length (takeWhile (\<lambda>b. b \<noteq> 0) (c_buffer c))"
  have "print_from ?n 0 (\<lambda>i. bnd (idx ?b i) (\<lambda>b. ret [PHex b])) s
      = Inr (concat (map (\<lambda>i. [PHex (takeWhile (\<lambda>b. b \<noteq> 0) ?b ! i)]) [0..<0 + ?n]), s)"
    by (rule print_from_ok) (use length_takeWhile_le [of "\<lambda>b. b \<noteq> 0" ?b] in \<open>simp add: prog_simps takeWhile_nth\<close>)
  moreover have "concat (map (\<lambda>i. [PHex (takeWhile (\<lambda>b. b \<noteq> 0) ?b ! i)]) [0..<?n]) = map PHex (takeWhile (\<lambda>b. b \<noteq> 0) ?b)"
    using map_nth_upt [of "takeWhile (\<lambda>b. b \<noteq> 0) ?b" ?n PHex] by (simp add: concat_map_singleton)
  moreover have "heap s p = Some (OCmd c)" using c(1) by (simp add: cmd_at_def)
  moreover have "command_arg_print (c_args c) s = Inr (concat (map shown vs), s)" if "c_args c \<noteq> 0"
    using c(1) that by (intro command_arg_print_ok [of s "c_args c" ds vs]) (simp add: cmd_at_def)
  ultimately show ?thesis
    using True c(2-4) by (simp add: command_print_def command_text_def buffer_strlen_def prog_simps)
next
  case False
  moreover have "heap s p = Some (OCmd c)" using c(1) by (simp add: cmd_at_def)
  ultimately show ?thesis using c(2-4) by (simp add: command_print_def buffer_strlen_def prog_simps)
qed

section \<open>A task\<close>

definition prints_args :: "world \<Rightarrow> task_t \<Rightarrow> addr \<Rightarrow> out list \<Rightarrow> bool" where
  "prints_args s t p x \<longleftrightarrow> p = 0 \<and> x = [Text ''no arguments'']
     \<or> (\<exists>ds vs. p \<noteq> 0 \<and> args_at s p ds vs \<and> length ds = length (t_fn_argsig t) \<and> x = concat (map listed vs))"

definition prints_instance :: "world \<Rightarrow> task_t \<Rightarrow> addr \<Rightarrow> out list \<Rightarrow> bool" where
  "prints_instance s t q x \<longleftrightarrow> (\<exists>i as a v. heap s q = Some (OInst i) \<and> prints_args s t (i_args i) as
     \<and> args_at s (i_return_arg i) [a] [v]
     \<and> x = instance_text i as (if v = VVoid then [Text ''no return value''] else listed v))"

lemma task_print_args_ok: "prints_args s t p x \<Longrightarrow> task_print_args p (length (t_fn_argsig t)) s = Inr (x, s)"
  unfolding prints_args_def
proof (elim disjE exE conjE)
  fix ds vs assume p: "p \<noteq> 0" and at: "args_at s p ds vs" and n: "length ds = length (t_fn_argsig t)"
    and x: "x = concat (map listed vs)"
  have "print_from (length ds) 0 (\<lambda>i. bnd (get_arg p i) print_value) s
      = Inr (concat (map (\<lambda>i. listed (vs ! i)) [0..<0 + length ds]), s)"
    by (rule print_from_ok)
      (use args_at_heap [OF at] args_at_nth(1) [OF at] print_value_ok in \<open>simp add: get_arg_def prog_simps\<close>)
  then show ?thesis
    using p n x args_at_bounds [OF at] args_at_length [OF at] by (simp add: task_print_args_def prog_simps map_nth_upt)
qed (simp add: task_print_args_def prog_simps)

lemma arg_view_void: "arg_view s a = Some v \<Longrightarrow> (arg_type a = VOID_TYPE) = (v = VVoid)"
  by (auto simp: arg_view_def split: argtype_t.splits)

lemma print_instance_ok:
  assumes q: "prints_instance s t q x" "inst_ok s p q" and t: "heap s p = Some (OTask t)" and wf: "wf_mem s"
  shows "print_instance q s = Inr (x, s)"
proof -
  from q(1) obtain i as a v where i: "heap s q = Some (OInst i)" "prints_args s t (i_args i) as"
    "args_at s (i_return_arg i) [a] [v]" "x = instance_text i as (if v = VVoid then [Text ''no return value''] else listed v)"
    by (auto simp: prints_instance_def)
  have v: "arg_view s a = Some v" using i(3) by (simp add: args_at_def)
  have ra: "i_return_arg i \<noteq> 0" using wf_memD [OF wf args_at_heap [OF i(3)]] by simp
  have "parent_task i = p" using q(2) i(1) by (simp add: inst_ok_def)
  then show ?thesis
    using i t ra args_at_heap [OF i(3)] task_print_args_ok [OF i(2)] print_value_ok [OF v] arg_view_void [OF v]
    by (simp add: print_instance_def task_print_retval_def get_arg_def prog_simps)
qed

lemma filter_prefix:
  assumes "\<forall>i < length (filter P xs). P (xs ! i)"
  shows "filter P xs = take (length (filter P xs)) xs"
proof -
  define n where "n = length (filter P xs)"
  have le: "n \<le> length xs" by (simp add: n_def)
  then have "filter P (take n xs) = take n xs"
    using assms unfolding n_def [symmetric] by (intro filter_True) (auto simp: in_set_conv_nth)
  then have eq: "filter P xs = take n xs @ filter P (drop n xs)"
    by (metis append_take_drop_id filter_append)
  have "n = length (take n xs @ filter P (drop n xs))" unfolding eq [symmetric] by (rule n_def)
  then have "filter P (drop n xs) = []" using le by simp
  with eq show ?thesis unfolding n_def [symmetric] by simp
qed

text \<open>C23. \<open>task_print\<close> looks for the instances in the first \<open>num_instances\<close> slots. It prints the task and its
  instances in the order of the slots if no slot before an instance is free, and follows the null pointer
  of a free slot otherwise; either way it changes nothing.\<close>

lemma task_print_exact:
  assumes ok: "task_ok s p t" and out: "list_all2 (prints_instance s t) (live_slots t) xs"
  shows "task_print p s = (if \<forall>i < length (live_slots t). instances t ! i \<noteq> 0
    then Inr (task_text t (concat xs), s) else Inl NullDeref)"
proof -
  note t = task_okD [OF ok]
  let ?n = "length (live_slots t)" and ?b = "\<lambda>i. bnd (idx (instances t) i) print_instance"
  have n: "unat (num_instances t) = ?n" "?n \<le> 5" using live_slots_le [OF ok] t(4) by simp_all
  have p: "p \<noteq> 0" using wf_memD [OF t(1,2)] by simp
  have each: "\<exists>x. ?b i s = Inr (x, s)" if "i < 5" "instances t ! i \<noteq> 0" for i
  proof -
    have "instances t ! i \<in> set (live_slots t)" using that t(3) by simp
    then obtain j where j: "j < ?n" "instances t ! i = live_slots t ! j" by (metis in_set_conv_nth)
    then have "prints_instance s t (instances t ! i) (xs ! j)" using list_all2_nthD [OF out] by simp
    from print_instance_ok [OF this t(6) t(2,1)] that t(3) show ?thesis by (simp add: prog_simps)
  qed
  show ?thesis
  proof (cases "\<forall>i < ?n. instances t ! i \<noteq> 0")
    case True
    then have live: "live_slots t = take ?n (instances t)" by (rule filter_prefix)
    have "?b i s = Inr (xs ! i, s)" if i: "i < ?n" for i
    proof -
      have at: "live_slots t ! i = instances t ! i" using i live by (metis nth_take)
      have "prints_instance s t (instances t ! i) (xs ! i)" using list_all2_nthD [OF out i] at by simp
      from print_instance_ok [OF this t(6) t(2,1)] True i n(2) t(3) show ?thesis by (simp add: prog_simps)
    qed
    then have "print_from ?n 0 ?b s = Inr (concat (map ((!) xs) [0..<0 + ?n]), s)" by (intro print_from_ok) simp
    moreover have "map ((!) xs) [0..<?n] = xs" using list_all2_lengthD [OF out] by (metis map_nth)
    ultimately show ?thesis using True p t(2) n(1) by (simp add: task_print_def prog_simps)
  next
    case False
    define m where "m = (LEAST i. i < ?n \<and> instances t ! i = 0)"
    from False have m: "m < ?n" "instances t ! m = 0" "\<And>i. i < m \<Longrightarrow> instances t ! i \<noteq> 0"
      unfolding m_def by (metis (mono_tags, lifting) LeastI, metis (mono_tags, lifting) LeastI, metis (mono_tags, lifting) not_less_Least less_trans LeastI)
    have "?b (0 + m) s = Inl NullDeref"
      using m(1,2) n(2) t(1,3) by (simp add: print_instance_def prog_simps wf_mem_def bad_ptr_def)
    then have "print_from ?n 0 ?b s = Inl NullDeref"
      by (rule print_from_fault [rotated]) (use m n(2) each in auto)
    with False p t(2) n(1) show ?thesis by (simp add: task_print_def prog_simps)
  qed
qed

section \<open>A board\<close>

definition board_text :: "tboard_t \<Rightarrow> out list \<Rightarrow> out list" where
  "board_text tb x = [Text ''---------- TBOARD INFO BEGIN ----------'', Nl,
     Text ''Number of tasks:             '', PUlong (num_tasks tb), Nl,
     Text ''Number of dead tasks:        '', PUlong (num_dead_tasks tb), Nl,
     Text ''Last dead task ID:           '', PUlong (last_dead_task_id tb), Nl]
     @ x @ [Text ''---------- TBOARD INFO END ----------'', Nl]"

text \<open>The board prints its tasks in the order of its entries, and crashes at the first that cannot be printed.\<close>

lemma tboard_print_tasks_ok:
  assumes ok: "tboard_ok s b tb" and each: "\<And>p. p \<in> set (tb_tasks tb) \<Longrightarrow> p \<noteq> 0 \<Longrightarrow> task_print p s = Inr (f p, s)"
  shows "tboard_print_tasks b s = Inr (board_text tb (concat (map f (filter (\<lambda>p. p \<noteq> 0) (tb_tasks tb)))), s)"
proof -
  note b = tboard_okD [OF ok]
  let ?g = "\<lambda>p. if p = 0 then [] else f p"
  have "print_from 20 0 (\<lambda>i. bnd (idx (tb_tasks tb) i) (\<lambda>p. if p = 0 then ret [] else task_print p)) s
      = Inr (concat (map (\<lambda>i. ?g (tb_tasks tb ! i)) [0..<0 + 20]), s)"
    by (rule print_from_ok) (use b(3) each in \<open>simp add: prog_simps\<close>)
  moreover have "map (\<lambda>i. ?g (tb_tasks tb ! i)) [0..<20] = map ?g (tb_tasks tb)"
    using map_nth_upt [OF b(3), of ?g] by simp
  moreover have "concat (map ?g ps) = concat (map f (filter (\<lambda>p. p \<noteq> 0) ps))" for ps
    by (induction ps) auto
  ultimately show ?thesis using b(2,5) by (simp add: tboard_print_tasks_def board_text_def prog_simps)
qed

lemma tboard_print_tasks_faults:
  assumes ok: "tboard_ok s b tb" and j: "j < 20" "tb_tasks tb ! j \<noteq> 0" "task_print (tb_tasks tb ! j) s = Inl e"
    and each: "\<And>i. i < j \<Longrightarrow> tb_tasks tb ! i \<noteq> 0 \<Longrightarrow> \<exists>x. task_print (tb_tasks tb ! i) s = Inr (x, s)"
  shows "tboard_print_tasks b s = Inl e"
proof -
  note b = tboard_okD [OF ok]
  let ?b = "\<lambda>i. bnd (idx (tb_tasks tb) i) (\<lambda>p. if p = 0 then ret [] else task_print p)"
  have at: "?b i s = (if tb_tasks tb ! i = 0 then Inr ([], s) else task_print (tb_tasks tb ! i) s)" if "i < 20" for i
    using that b(3) by (simp add: prog_simps)
  have "print_from 20 0 ?b s = Inl e"
  proof (rule print_from_fault [where m = j])
    show "?b (0 + j) s = Inl e" using at [OF j(1)] j(2,3) by simp
    show "\<exists>x. ?b i s = Inr (x, s)" if "0 \<le> i" "i < 0 + j" for i
      using at [of i] that j(1) each [of i] by (cases "tb_tasks tb ! i = 0") simp_all
  qed (rule j(1))
  then show ?thesis using b(2,5) by (simp add: tboard_print_tasks_def prog_simps)
qed

section \<open>Greetings\<close>

fun joined :: "string list \<Rightarrow> out list" where
  "joined [] = []"
| "joined [x] = [quote, PStr x, quote]"
| "joined (x # y # xs) = [quote, PStr x, quote, Text '', ''] @ joined (y # xs)"

lemma joined_upt: "concat (map (\<lambda>i. [quote, PStr (xs ! i), quote] @ (if i < length xs - 1 then [Text '', ''] else []))
    [0..<length xs]) = joined xs"
proof (induction xs rule: joined.induct)
  case (3 x y xs)
  have "[0..<length (x # y # xs)] = 0 # map Suc [0..<length (y # xs)]" by (simp add: map_Suc_upt upt_conv_Cons del: upt_Suc)
  with 3 show ?case by (simp add: comp_def del: upt_Suc)
qed simp_all

definition hello_text :: "hello \<Rightarrow> out list" where
  "hello_text h = Text ''Hello { zid: '' #
     (if h_zid h = [] then [Text ''None''] else Text ''Some('' # map PHex2 (h_zid h) @ [Text '')''])
     @ Text '', whatami: '' # [quote, PStr (h_whatami h), quote]
     @ Text '', locators: '' # Text ''['' # joined (h_locators h) @ [Text '']'', Text '' }'']"

lemma fprintlocators_ok: "fprintlocators xs s = Inr (Text ''['' # joined xs @ [Text '']''], s)"
proof -
  have "print_from (length xs) 0 (\<lambda>i. bnd (idx xs i) (\<lambda>x. ret ([quote, PStr x, quote]
        @ (if i < length xs - 1 then [Text '', ''] else [])))) s
      = Inr (concat (map (\<lambda>i. [quote, PStr (xs ! i), quote] @ (if i < length xs - 1 then [Text '', ''] else []))
          [0..<0 + length xs]), s)"
    by (rule print_from_ok) (simp add: prog_simps)
  then show ?thesis unfolding fprintlocators_def using joined_upt [of xs] by (simp add: prog_simps)
qed

lemma fprintzid_ok: "fprintzid zid s =
  Inr (if zid = [] then [Text ''None''] else Text ''Some('' # map PHex2 zid @ [Text '')''], s)"
proof -
  have "print_from (length zid) 0 (\<lambda>i. bnd (idx zid i) (\<lambda>b. ret [PHex2 b])) s
      = Inr (concat (map (\<lambda>i. [PHex2 (zid ! i)]) [0..<0 + length zid]), s)"
    by (rule print_from_ok) (simp add: prog_simps)
  moreover have "concat (map (\<lambda>i. [PHex2 (zid ! i)]) [0..<length zid]) = map PHex2 zid"
    using map_nth_upt [of zid "length zid" PHex2] by (simp add: concat_map_singleton)
  ultimately show ?thesis by (simp add: fprintzid_def prog_simps)
qed

lemma fprinthello_ok: "fprinthello h s = Inr (hello_text h, s)"
  by (simp add: fprinthello_def fprintwhatami_def fprintlocators_ok fprintzid_ok hello_text_def prog_simps)

text \<open>The unused pair of callbacks counts as the used one does.\<close>

lemma callback_scout: "callback h context s =
    (case scout_callback context s of Inl e \<Rightarrow> Inl e | Inr (_, s') \<Rightarrow> Inr (hello_text h @ [Nl], s'))"
  by (simp add: callback_def scout_callback_def fprinthello_ok prog_simps split: sum.splits prod.splits)

lemma drop_closure_ok:
  assumes "heap s c = Some (OBytes (int_bytes n))" "c \<noteq> 0"
  shows "drop_closure c s = Inr (if n = 0 then [Text ''Did not find any zenoh process.'', Nl]
    else [Text ''Dropping scout results.'', Nl],
    s\<lparr>heap := (heap s)(c := None), total_mem_usage := total_mem_usage s - 4\<rparr>)"
  using assms by (simp add: drop_closure_def prog_simps)

section \<open>Concatenation\<close>

text \<open>\<open>concat\<close> returns the two strings one after the other in fresh memory, and counts its bytes; when
  there is no memory it writes through \<open>NULL\<close>.\<close>

lemma concat_strings_ok:
  assumes wf: "heap s 0 = None" and s1: "heap s p = Some (OChars a)" "NUL \<in> set a" and s2: "heap s q = Some (OChars b)" "NUL \<in> set b"
  shows "concat_strings p q s = (if oom s (brk s) then Inl NullDeref
    else Inr (Suc (brk s), s\<lparr>brk := Suc (brk s),
      heap := (heap s)(Suc (brk s) := Some (OChars (c_str a @ c_str b @ [NUL]))),
      total_mem_usage := total_mem_usage s + of_nat (length (c_str a) + length (c_str b) + 1)\<rparr>))"
  using assms by (simp add: concat_strings_def chars_at_def store_def deref_def bad_ptr_def prog_simps Let_def)

end
