(* ===== verification/Rfc8949.thy ===== *)
theory Rfc8949
  imports Cbor_Interface
begin

text \<open>
  An encoder and a parser written from RFC 8949, for the part of the format the program uses. They are
  not the library the program links: they show that the laws of \<open>cbor_codec\<close> are those of the format,
  and give the examples their bytes.
\<close>

section \<open>The head of a data item\<close>

fun be :: "nat \<Rightarrow> nat \<Rightarrow> u8 list" where
  "be 0 n = []"
| "be (Suc k) n = of_nat (n div 256 ^ k) # be k (n mod 256 ^ k)"

fun from_be :: "nat \<Rightarrow> u8 list \<Rightarrow> nat" where
  "from_be a [] = a"
| "from_be a (b # bs) = from_be (256 * a + unat b) bs"

lemma length_be [simp]: "length (be k n) = k"
  by (induction k n rule: be.induct) auto

lemma from_be_be: "n < 256 ^ k \<Longrightarrow> from_be a (be k n) = a * 256 ^ k + n"
proof (induction k n arbitrary: a rule: be.induct)
  case (2 k n)
  have "n div 256 ^ k < 256" using 2(2) by (simp add: less_mult_imp_div_less mult.commute)
  then have "unat (of_nat (n div 256 ^ k) :: u8) = n div 256 ^ k"
    by (simp add: unat_of_nat take_bit_nat_eq_self)
  with 2 show ?case by (simp add: algebra_simps)
qed simp

text \<open>Major type and argument; the additional information says how many bytes the argument has.\<close>

definition enc_head :: "nat \<Rightarrow> nat \<Rightarrow> u8 list" where
  "enc_head m n =
     (if n < 24 then [of_nat (32 * m + n)]
      else if n < 256 then of_nat (32 * m + 24) # be 1 n
      else if n < 256 ^ 2 then of_nat (32 * m + 25) # be 2 n
      else if n < 256 ^ 4 then of_nat (32 * m + 26) # be 4 n
      else of_nat (32 * m + 27) # be 8 n)"

text \<open>Major type, additional information, argument, rest.\<close>

definition dec_arg :: "nat \<Rightarrow> nat \<Rightarrow> nat \<Rightarrow> u8 list \<Rightarrow> (nat \<times> nat \<times> nat \<times> u8 list) option" where
  "dec_arg m i k bs = (if length bs < k then None else Some (m, i, from_be 0 (take k bs), drop k bs))"

fun dec_head :: "u8 list \<Rightarrow> (nat \<times> nat \<times> nat \<times> u8 list) option" where
  "dec_head [] = None"
| "dec_head (b # bs) =
     (let m = unat b div 32; i = unat b mod 32 in
      if i < 24 then Some (m, i, i, bs)
      else if i = 24 then dec_arg m i 1 bs
      else if i = 25 then dec_arg m i 2 bs
      else if i = 26 then dec_arg m i 4 bs
      else if i = 27 then dec_arg m i 8 bs
      else None)"

lemma dec_arg_be [simp]: "n < 256 ^ k \<Longrightarrow> dec_arg m i k (be k n @ r) = Some (m, i, n, r)"
  by (simp add: dec_arg_def from_be_be)

lemma unat_head: "m < 8 \<Longrightarrow> i < 32 \<Longrightarrow> unat (of_nat (32 * m + i) :: u8) = 32 * m + i"
  by (simp del: of_nat_add of_nat_mult add: unat_of_nat take_bit_nat_eq_self)

lemma dec_head_byte: "m < 8 \<Longrightarrow> i < 32 \<Longrightarrow> dec_head (of_nat (32 * m + i) # bs) =
     (if i < 24 then Some (m, i, i, bs)
      else if i = 24 then dec_arg m i 1 bs
      else if i = 25 then dec_arg m i 2 bs
      else if i = 26 then dec_arg m i 4 bs
      else if i = 27 then dec_arg m i 8 bs
      else None)"
  using unat_head [of m i] by (simp add: Let_def)

lemma dec_enc_head:
  assumes "m < 8" "n < 2 ^ 64"
  shows "\<exists>i. dec_head (enc_head m n @ r) = Some (m, i, n, r) \<and> i < 28"
proof -
  have "n < 256 ^ 8" using assms(2) by simp
  then show ?thesis
    using assms(1) dec_arg_be [of n 1 m 24 r] dec_arg_be [of n 2 m 25 r] dec_arg_be [of n 4 m 26 r]
      dec_arg_be [of n 8 m 27 r] dec_head_byte [of m n r]
      dec_head_byte [of m 24 "be 1 n @ r"] dec_head_byte [of m 25 "be 2 n @ r"]
      dec_head_byte [of m 26 "be 4 n @ r"] dec_head_byte [of m 27 "be 8 n @ r"]
    by (auto simp: enc_head_def simp del: dec_head.simps be.simps)
qed

section \<open>Data items\<close>

definition char_byte :: "char \<Rightarrow> u8" where
  "char_byte c = of_nat (of_char c)"

definition byte_char :: "u8 \<Rightarrow> char" where
  "byte_char b = char_of (unat b)"

fun enc_item :: "item \<Rightarrow> u8 list" where
  "enc_item (IInt i) = (if 0 \<le> i then enc_head 0 (nat i) else enc_head 1 (nat (- 1 - i)))"
| "enc_item (IBytes b) = enc_head 2 (length b) @ b"
| "enc_item (IText x) = enc_head 3 (length x) @ map char_byte x"
| "enc_item (IArray xs) = enc_head 4 (length xs) @ concat (map enc_item xs)"
| "enc_item (IMap xs) = enc_head 5 (length xs div 2) @ concat (map enc_item xs)"
| "enc_item (IDouble d) = of_nat (32 * 7 + 27) # be 8 (unat d)"
| "enc_item INull = [of_nat (32 * 7 + 22)]"

text \<open>Decoding a number of items; the first number is fuel.\<close>

fun dec_items :: "nat \<Rightarrow> nat \<Rightarrow> u8 list \<Rightarrow> (item list \<times> u8 list) option" where
  "dec_items f 0 bs = Some ([], bs)"
| "dec_items 0 (Suc n) bs = None"
| "dec_items (Suc f) (Suc n) bs =
     (case dec_head bs of None \<Rightarrow> None
      | Some (m, i, a, r) \<Rightarrow>
        (case (if m = 0 then Some (IInt (int a), r)
               else if m = 1 then Some (IInt (- 1 - int a), r)
               else if m = 2 then (if length r < a then None else Some (IBytes (take a r), drop a r))
               else if m = 3 then
                 (if length r < a then None else Some (IText (map byte_char (take a r)), drop a r))
               else if m = 4 then map_option (\<lambda>(xs, r). (IArray xs, r)) (dec_items f a r)
               else if m = 5 then map_option (\<lambda>(xs, r). (IMap xs, r)) (dec_items f (2 * a) r)
               else if i = 22 then Some (INull, r)
               else if i = 27 then Some (IDouble (of_nat a), r)
               else None) of
           None \<Rightarrow> None
         | Some (x, r) \<Rightarrow> map_option (\<lambda>(xs, r). (x # xs, r)) (dec_items f n r)))"

fun item_size :: "item \<Rightarrow> nat" where
  "item_size (IArray xs) = Suc (sum_list (map item_size xs))"
| "item_size (IMap xs) = Suc (sum_list (map item_size xs))"
| "item_size _ = 1"

abbreviation items_size :: "item list \<Rightarrow> nat" where
  "items_size xs \<equiv> sum_list (map item_size xs)"

lemma enc_head_nonempty: "1 \<le> length (enc_head m n)"
  by (simp add: enc_head_def)

lemma item_size_le: "item_size x \<le> length (enc_item x)"
proof (induction x rule: enc_item.induct)
  case (4 xs)
  then have "items_size xs \<le> length (concat (map enc_item xs))"
    by (induction xs) (auto intro: add_mono)
  then show ?case using enc_head_nonempty [of 4 "length xs"] by simp
next
  case (5 xs)
  then have "items_size xs \<le> length (concat (map enc_item xs))"
    by (induction xs) (auto intro: add_mono)
  then show ?case using enc_head_nonempty [of 5 "length xs div 2"] by simp
qed (use enc_head_nonempty in \<open>auto simp: Suc_le_eq intro: add_pos_nonneg\<close>)

lemma byte_char_byte [simp]: "byte_char (char_byte c) = c"
proof -
  have "(of_char c :: nat) < 256" by (metis nat_of_char_less_256)
  then show ?thesis
    by (simp add: byte_char_def char_byte_def unat_of_nat take_bit_nat_eq_self)
qed

lemma char_bytes: "map byte_char (map char_byte x) = x"
  by (induction x) auto

text \<open>One item, when the items in it can be decoded; then any number of items, followed by anything.\<close>

lemma dec_enc_item:
  assumes wf: "wf_item x" and size: "item_size x \<le> Suc g"
    and sub: "\<And>zs r. list_all wf_item zs \<Longrightarrow> items_size zs \<le> g \<Longrightarrow>
      dec_items g (length zs) (concat (map enc_item zs) @ r) = Some (zs, r)"
    and tail: "dec_items g n r = Some (ys, r')"
  shows "dec_items (Suc g) (Suc n) (enc_item x @ r) = Some (x # ys, r')"
proof (cases x)
  case (IInt i)
  show ?thesis
  proof (cases "0 \<le> i")
    case True
    with IInt wf have "nat i < 2 ^ 64" by simp
    from dec_enc_head [OF _ this, of 0 r] True IInt tail show ?thesis by auto
  next
    case False
    with IInt wf have "nat (- 1 - i) < 2 ^ 64" by simp
    from dec_enc_head [OF _ this, of 1 r] False IInt tail show ?thesis by auto
  qed
next
  case (IBytes b)
  with wf have "length b < 2 ^ 64" by simp
  from dec_enc_head [OF _ this, of 2 "b @ r"] IBytes tail show ?thesis by auto
next
  case (IText y)
  with wf have "length y < 2 ^ 64" by simp
  from dec_enc_head [OF _ this, of 3 "map char_byte y @ r"] IText tail char_bytes [of y] show ?thesis by auto
next
  case (IArray zs)
  with wf have "length zs < 2 ^ 64" by simp
  from dec_enc_head [OF _ this, of 4 "concat (map enc_item zs) @ r"] sub [of zs r] IArray wf size tail
  show ?thesis by auto
next
  case (IMap zs)
  with wf have zs: "length zs < 2 ^ 64" "even (length zs)" by simp_all
  then have half: "length zs div 2 < 2 ^ 64" by simp
  from dec_enc_head [OF _ half, of 5 "concat (map enc_item zs) @ r"] sub [of zs r] IMap wf size zs(2) tail
  show ?thesis by auto
next
  case (IDouble d)
  have "unat d < 256 ^ 8" using unsigned_less [of d, where ?'a = nat] by simp
  with dec_head_byte [of 7 27 "be 8 (unat d) @ r"] IDouble tail show ?thesis
    by (simp del: be.simps dec_head.simps)
next
  case INull
  with dec_head_byte [of 7 22 r] tail show ?thesis by (simp del: dec_head.simps)
qed

lemma dec_enc_items:
  "list_all wf_item xs \<Longrightarrow> items_size xs \<le> f \<Longrightarrow>
     dec_items f (length xs) (concat (map enc_item xs) @ r) = Some (xs, r)"
proof (induction f arbitrary: xs r rule: less_induct)
  case (less f)
  show ?case
  proof (cases xs)
    case (Cons x ys)
    have "1 \<le> item_size x" by (cases x) auto
    with less.prems(2) Cons obtain g where g: "f = Suc g" "items_size ys \<le> g" "item_size x \<le> Suc g"
      by (cases f) auto
    have "dec_items g (length ys) (concat (map enc_item ys) @ r) = Some (ys, r)"
      using less g Cons by simp
    moreover have "dec_items g (length zs) (concat (map enc_item zs) @ t) = Some (zs, t)"
      if "list_all wf_item zs" "items_size zs \<le> g" for zs t
      using less.IH [of g zs t] g(1) that by simp
    moreover have "wf_item x" using less.prems(1) Cons by simp
    ultimately show ?thesis using dec_enc_item [OF _ g(3)] Cons g(1) by simp
  qed simp
qed

lemma item_size_pos [simp]: "0 < item_size x"
  by (cases x) auto

text \<open>What is decoded is no larger than the bytes it took.\<close>

lemma dec_head_shorter: "dec_head bs = Some (m, i, a, r) \<Longrightarrow> length r < length bs"
  by (cases bs) (auto simp: Let_def dec_arg_def split: if_splits)

lemma dec_items_size:
  "dec_items f n bs = Some (xs, r) \<Longrightarrow> items_size xs + length r \<le> length bs"
proof (induction f n bs arbitrary: xs r rule: dec_items.induct)
  case (3 f n bs)
  from 3(4) obtain m i a r0 where head: "dec_head bs = Some (m, i, a, r0)"
    by (auto split: option.splits)
  note shorter = dec_head_shorter [OF head]
  from 3(4) head obtain x r1 ys where x: "(if m = 0 then Some (IInt (int a), r0)
       else if m = 1 then Some (IInt (- 1 - int a), r0)
       else if m = 2 then (if length r0 < a then None else Some (IBytes (take a r0), drop a r0))
       else if m = 3 then (if length r0 < a then None else Some (IText (map byte_char (take a r0)), drop a r0))
       else if m = 4 then map_option (\<lambda>(xs, r). (IArray xs, r)) (dec_items f a r0)
       else if m = 5 then map_option (\<lambda>(xs, r). (IMap xs, r)) (dec_items f (2 * a) r0)
       else if i = 22 then Some (INull, r0)
       else if i = 27 then Some (IDouble (of_nat a), r0)
       else None) = Some (x, r1)" "dec_items f n r1 = Some (ys, r)" "xs = x # ys"
    by (auto simp del: dec_items.simps(1) split: option.splits)
  have "items_size ys + length r \<le> length r1"
    using 3(3) [OF head] x by blast
  moreover have "item_size x + length r1 \<le> Suc (length r0)"
  proof (cases "m = 4 \<or> m = 5")
    case True
    with x(1) obtain zs where "dec_items f (if m = 4 then a else 2 * a) r0 = Some (zs, r1)"
      "item_size x = Suc (items_size zs)"
      by (auto split: if_splits)
    with True 3(1,2) [OF head] show ?thesis by (auto split: if_splits)
  qed (use x(1) in \<open>auto split: if_splits\<close>)
  ultimately show ?case using shorter x(3) by simp
qed auto

section \<open>The reference library\<close>

text \<open>The encoder writes what fits.\<close>

definition rfc_encoder :: cbor_encoder where
  "rfc_encoder = \<lparr>
     enc_buffer = (\<lambda>cap cs. case run_calls cs of Some t \<Rightarrow> take cap (enc_item t @ replicate cap 0) | None \<Rightarrow> replicate cap 0),
     enc_size = (\<lambda>cap cs. case run_calls cs of Some t \<Rightarrow> of_nat (length (enc_item t)) | None \<Rightarrow> 0)\<rparr>"

text \<open>A cursor is the list of the items left in its container.\<close>

definition rfc_int :: "item list \<Rightarrow> i32" where
  "rfc_int v = (case v of IInt i # _ \<Rightarrow> word_of_int i | _ \<Rightarrow> 0)"

definition rfc_double :: "item list \<Rightarrow> u64" where
  "rfc_double v = (case v of IDouble d # _ \<Rightarrow> d | _ \<Rightarrow> 0)"

definition rfc_copy :: "item list \<Rightarrow> char list \<Rightarrow> nat \<Rightarrow> char list \<times> nat" where
  "rfc_copy v b n = (case v of
     IText x # _ \<Rightarrow> if length x < n then (x @ NUL # drop (Suc (length x)) b, length x) else (b, length x)
   | _ \<Rightarrow> (b, n))"

definition rfc_parser :: "item list cbor_parser" where
  "rfc_parser = \<lparr>
     parser_init = (\<lambda>bs. case dec_items (length bs) 1 bs of Some (xs, _) \<Rightarrow> xs | None \<Rightarrow> []),
     enter_container = (\<lambda>v. case v of IArray xs # _ \<Rightarrow> xs | IMap xs # _ \<Rightarrow> xs | _ \<Rightarrow> []),
     at_end = (\<lambda>v. v = []),
     get_type = (\<lambda>v. case v of x # _ \<Rightarrow> item_type x | [] \<Rightarrow> CborOtherType),
     type_code = (\<lambda>ty. if ty = CborDoubleType then 251 else 0),
     is_text_string = (\<lambda>v. case v of IText _ # _ \<Rightarrow> True | _ \<Rightarrow> False),
     get_int = rfc_int, get_double = rfc_double, get_float = (\<lambda>_. 0), u64_of_double = (\<lambda>_. 0),
     get_array_length = (\<lambda>v. case v of IArray xs # _ \<Rightarrow> Some (length xs) | _ \<Rightarrow> None),
     copy_text_string = rfc_copy, advance = tl\<rparr>"

interpretation rfc: cbor_codec rfc_encoder rfc_parser enc_item "\<lambda>v. v"
proof
  fix cs t cap
  assume "run_calls cs = Some t" "length (enc_item t) \<le> cap"
  then show "enc_size rfc_encoder cap cs = of_nat (length (enc_item t))
      \<and> length (enc_buffer rfc_encoder cap cs) = cap
      \<and> take (length (enc_item t)) (enc_buffer rfc_encoder cap cs) = enc_item t"
    by (simp add: rfc_encoder_def)
next
  fix t assume "wf_item t"
  then show "parser_init rfc_parser (enc_item t) = [t]"
    using dec_enc_items [of "[t]" "length (enc_item t)" "[]"] item_size_le [of t]
    by (simp add: rfc_parser_def)
qed (auto simp: rfc_parser_def rfc_int_def rfc_double_def rfc_copy_def split: item.splits)

end
