(* ===== verification/Sample.thy ===== *)
theory Sample
  imports Firmware Printing Rfc8949
begin

text \<open>
  A small concrete state for the witnesses: a node with one task on its board, up to five instances of
  it, a command in memory and its arguments. It is executable: every fact about it is computed.
\<close>

section \<open>The state\<close>

text \<open>
  The task is at 1, the instance of slot \<open>i\<close> at \<open>2 * i + 2\<close> and its return argument behind it, the
  board at 12, the command's arguments at 13 and a string of theirs at 14, the node, its session and
  its publishers at 15 to 18, the command at 19, the system manager at 20.
\<close>

definition sample_task :: "string \<Rightarrow> u32 option list \<Rightarrow> task_t" where
  "sample_task sig ns = (new_task ''f'' INT_TYPE sig 1)\<lparr>
     instances := map2 (\<lambda>q n. case n of None \<Rightarrow> 0 | Some _ \<Rightarrow> q) [2, 4, 6, 8, 10] ns,
     num_instances := of_nat (length (filter (\<lambda>n. n \<noteq> None) ns))\<rparr>"

definition sample_inst :: "bool \<Rightarrow> addr \<Rightarrow> u32 \<Rightarrow> task_instance_t" where
  "sample_inst fin q n = (new_inst 1 n (Suc q))\<lparr>has_finished := fin\<rparr>"

definition sample_result :: arg_t where
  "sample_result = \<lparr>nargs = 1, arg_type = INT_TYPE, arg_val = IVal 42\<rparr>"

fun slot_heap :: "bool \<Rightarrow> addr \<Rightarrow> u32 option list \<Rightarrow> addr \<Rightarrow> obj option" where
  "slot_heap fin q [] p = None"
| "slot_heap fin q (n # ns) p = (case n of
     None \<Rightarrow> slot_heap fin (q + 2) ns p
   | Some k \<Rightarrow> if p = q then Some (OInst (sample_inst fin q k))
       else if p = q + 1 then Some (OArgs [sample_result]) else slot_heap fin (q + 2) ns p)"

definition sample_board :: tboard_t where
  "sample_board = with_task zero_tboard 0 1"

definition sample_node :: cnode_t where
  "sample_node = zero_cnode\<lparr>cn_tboard := 12, cn_zenoh := 16, cn_zenoh_pub_reply := 17,
     cn_zenoh_pub_request := 18, cn_commandQueue := 1, cn_initialized := True\<rparr>"

definition sample_cmd :: "jamcommand_t \<Rightarrow> string \<Rightarrow> string \<Rightarrow> command_t" where
  "sample_cmd code fn sig = zero_command\<lparr>c_cmd := cmd_code code, c_fn_name := put_text (c_fn_name zero_command) fn,
     c_task_id := 7, c_fn_argsig := put_text (c_fn_argsig zero_command) sig, c_args := 13, c_refcount := 1\<rparr>"

definition sample :: "string \<Rightarrow> arg_t list \<Rightarrow> u32 option list \<Rightarrow> bool \<Rightarrow> command_t \<Rightarrow> world" where
  "sample sig as ns fin c = start_world\<lparr>brk := 20, global_tboard := 12,
     heap := (\<lambda>p. if p = 1 then Some (OTask (sample_task sig ns))
       else if p = 12 then Some (OTboard sample_board)
       else if p = 13 then Some (OArgs as)
       else if p = 14 then Some (OChars (''ab'' @ [NUL]))
       else if p = 15 then Some (OCnode sample_node)
       else if p = 16 then Some OZenoh
       else if p = 17 then Some (OPub \<lparr>pub_keyexpr = CNODE_REPLY_PUB_KEYEXPR\<rparr>)
       else if p = 18 then Some (OPub \<lparr>pub_keyexpr = CNODE_REQUEST_PUB_KEYEXPR\<rparr>)
       else if p = 19 then Some (OCmd c)
       else if p = 20 then Some (OSysman zero_sysman)
       else slot_heap fin 2 ns p)\<rparr>"

abbreviation int_arg :: "arg_t list" where
  "int_arg \<equiv> [\<lparr>nargs = 1, arg_type = INT_TYPE, arg_val = IVal 5\<rparr>]"

abbreviation str_arg :: "arg_t list" where
  "str_arg \<equiv> [\<lparr>nargs = 1, arg_type = STRING_TYPE, arg_val = PVal 14\<rparr>]"

section \<open>What holds of it\<close>

lemma slot_heap_range: "slot_heap fin q ns p \<noteq> None \<Longrightarrow> q \<le> p \<and> p < q + 2 * length ns"
  by (induction fin q ns p rule: slot_heap.induct) (auto split: option.splits if_splits)

lemma sample_wf: "length ns = 5 \<Longrightarrow> wf_mem (sample sig as ns fin c)"
  using slot_heap_range [of fin 2 ns] by (force simp: wf_mem_def sample_def)

lemma sample_simps [simp]:
  "brk (sample sig as ns fin c) = 20" "global_tboard (sample sig as ns fin c) = 12"
  "no_oom (sample sig as ns fin c)" "trace (sample sig as ns fin c) = []"
  by (simp_all add: sample_def no_oom_def start_world_def)

lemma sample_heap [simp]:
  "heap (sample sig as ns fin c) 1 = Some (OTask (sample_task sig ns))"
  "heap (sample sig as ns fin c) (Suc 0) = Some (OTask (sample_task sig ns))"
  "heap (sample sig as ns fin c) 12 = Some (OTboard sample_board)"
  "heap (sample sig as ns fin c) 13 = Some (OArgs as)"
  "heap (sample sig as ns fin c) 14 = Some (OChars (''ab'' @ [NUL]))"
  "heap (sample sig as ns fin c) 15 = Some (OCnode sample_node)"
  "heap (sample sig as ns fin c) 17 = Some (OPub \<lparr>pub_keyexpr = CNODE_REPLY_PUB_KEYEXPR\<rparr>)"
  "heap (sample sig as ns fin c) 19 = Some (OCmd c)"
  "heap (sample sig as ns fin c) 20 = Some (OSysman zero_sysman)"
  "2 \<le> p \<Longrightarrow> p \<le> 11 \<Longrightarrow> heap (sample sig as ns fin c) p = slot_heap fin 2 ns p"
  by (simp_all add: sample_def)

lemma sample_task_ok:
  assumes "ns \<in> {[None, None, None, None, None], [Some 7, None, None, None, None], [None, Some 7, None, None, None],
    [Some 7, Some 7, None, None, None], [Some 7, Some 8, None, None, None]}"
  shows "task_ok (sample sig as ns fin c) 1 (sample_task sig ns)"
proof -
  have "wf_mem (sample sig as ns fin c)" by (rule sample_wf) (use assms in auto)
  then show ?thesis
    using assms by (elim insertE emptyE)
      (simp_all add: task_ok_def sample_task_def inst_ok_def inst_ptrs_def inst_args_ok_def sample_inst_def
        new_inst_def zero_inst_def sample_result_def)
qed

lemma sample_board_ok:
  assumes "length ns = 5"
  shows "tboard_ok (sample sig as ns fin c) 12 sample_board"
    "task_map (sample sig as ns fin c) sample_board n = (if n = ''f'' then Some 1 else None)"
proof -
  have tasks: "tb_tasks sample_board = 1 # replicate 19 0"
    by (simp add: sample_board_def zero_tboard_def eval_nat_numeral)
  show "tboard_ok (sample sig as ns fin c) 12 sample_board"
    using sample_wf [OF assms] by (simp add: tboard_ok_def tasks)
  show "task_map (sample sig as ns fin c) sample_board n = (if n = ''f'' then Some 1 else None)"
    using name_of_null [OF sample_wf [OF assms]]
    by (auto simp: task_map_def tasks name_of_def sample_task_def new_task_def)
qed

lemma sample_node_up: "node_up (sample sig as ns fin c) 15 sample_node CNODE_REPLY_PUB_KEYEXPR"
  by (simp add: node_up_def sample_node_def)

lemma sample_node_tboard [simp]: "cn_tboard sample_node = 12"
  by (simp add: sample_node_def)

lemma sample_cmd_simps [simp]:
  "c_cmd (sample_cmd code fn sig) = cmd_code code" "c_task_id (sample_cmd code fn sig) = 7"
  "c_args (sample_cmd code fn sig) = 13" "c_refcount (sample_cmd code fn sig) = 1"
  by (simp_all add: sample_cmd_def)

lemma sample_cmd_at:
  assumes "args_at (sample sig as ns fin (sample_cmd code fn sig')) 13 as vs" "13 \<notin> set (args_ptrs as)" "distinct (args_ptrs as)"
  shows "cmd_at (sample sig as ns fin (sample_cmd code fn sig')) 19 (sample_cmd code fn sig') as vs"
  using assms by (simp add: cmd_at_def)

lemma sample_args:
  "args_at (sample sig int_arg ns fin c) 13 int_arg [VInt 5]"
  "args_at (sample sig str_arg ns fin c) 13 str_arg [VStr ''ab'']"
  by (simp_all add: args_at_def arg_view_def int_view_def str_view_def c_str_def)

lemma sample_names:
  assumes "fn \<in> {''f'', ''g''}" "sig \<in> {''i'', ''s''}"
  shows "c_str (c_fn_name (sample_cmd code fn sig)) = fn" "c_str (c_node_id (sample_cmd code fn sig)) = []"
    "c_str (c_fn_argsig (sample_cmd code fn sig)) = sig" "terminated (sample_cmd code fn sig)"
  using assms by (auto simp: sample_cmd_def zero_command_def terminated_def put_text_def c_str_def eval_nat_numeral)

lemma sample_answerable:
  assumes "fn \<in> {''f'', ''g''}" "sig \<in> {''i'', ''s''}"
  shows "answerable enc_item (sample_cmd code fn sig)"
  using assms sample_names [OF assms]
  by (auto simp: answerable_def names_fit_def is_cstr_def status_item_def cmd_item_def int_item_def enc_head_def
      sample_cmd_def zero_command_def)

end
