(* ===== verification/Witnesses.thy ===== *)
theory Witnesses
  imports Sample
begin

text \<open>
  For every property of a component that has hypotheses, a state or an input at which they hold, with
  the property applied there. The states are those of \<open>Sample\<close>, or the start of the firmware.
\<close>

section \<open>Tasks and the board\<close>

abbreviation none5 :: "u32 option list" where
  "none5 \<equiv> [None, None, None, None, None]"

lemma create_keeps_wf_witness:
  "\<exists>q s' t'. task_instance_create 1 7 (sample ''i'' int_arg [None, Some 7, None, None, None] False zero_command) = Inr (q, s')
    \<and> task_ok s' 1 t'
    \<and> length (live_slots t') = length (live_slots (sample_task ''i'' [None, Some 7, None, None, None])) + (if q = 0 then 0 else 1)"
  by (rule create_keeps_wf [OF sample_task_ok]) simp_all

lemma create_destroy_witness:
  "\<exists>q s'. task_instance_create 1 7 (sample ''i'' int_arg none5 False zero_command) = Inr (q, s') \<and> q \<noteq> 0
    \<and> task_instance_destroy q s' = Inr ((), (sample ''i'' int_arg none5 False zero_command)
        \<lparr>brk := brk (sample ''i'' int_arg none5 False zero_command) + 2\<rparr>)"
proof (rule create_destroy [OF sample_task_ok])
  show "slot_of (sample ''i'' int_arg none5 False zero_command) (sample_task ''i'' none5) 7 = None"
    using serial_of_null [OF sample_wf] by (simp add: slot_of_def sample_task_def)
qed (simp_all add: sample_task_def)

lemma sample_unique: "unique_serials (sample ''i'' int_arg [Some 7, Some 8, None, None, None] fin c)
    (sample_task ''i'' [Some 7, Some 8, None, None, None])"
  using serial_of_null [OF sample_wf, of "[Some 7, Some 8, None, None, None]" "''i''" int_arg fin c]
  by (auto simp: unique_serials_def sample_task_def serial_of_def sample_inst_def new_inst_def nth_Cons'
      less_Suc_eq numeral_eq_Suc)

lemma task_destroy_ok_witness:
  "\<exists>s'. task_destroy 1 (sample ''i'' int_arg [Some 7, Some 8, None, None, None] True zero_command) = Inr ((), s')
    \<and> heap s' 4 = None \<and> heap s' 1 = None \<and> heap s' 12 = Some (OTboard sample_board)"
proof -
  let ?s = "sample ''i'' int_arg [Some 7, Some 8, None, None, None] True zero_command"
    and ?t = "sample_task ''i'' [Some 7, Some 8, None, None, None]"
  have "task_ok ?s 1 ?t" by (rule sample_task_ok) simp
  from task_destroy_ok [OF this sample_unique] show ?thesis
    by (auto simp: sample_task_def inst_ptrs_def sample_inst_def new_inst_def zero_inst_def)
qed

lemma duplicate_behind_hole_witness:
  "task_instance_create 1 7 (sample ''i'' int_arg [None, Some 7, None, None, None] False zero_command)
    = Inr (Suc (brk (sample ''i'' int_arg [None, Some 7, None, None, None] False zero_command)),
        inst_created (sample ''i'' int_arg [None, Some 7, None, None, None] False zero_command) 1
          (sample_task ''i'' [None, Some 7, None, None, None]) 7 0)
    \<and> \<not> unique_serials (inst_created (sample ''i'' int_arg [None, Some 7, None, None, None] False zero_command) 1
          (sample_task ''i'' [None, Some 7, None, None, None]) 7 0)
        (with_inst (sample_task ''i'' [None, Some 7, None, None, None]) 0
          (Suc (brk (sample ''i'' int_arg [None, Some 7, None, None, None] False zero_command))))"
  by (rule duplicate_behind_hole [OF sample_task_ok, where k = 1])
    (simp_all add: sample_task_def serial_of_def sample_inst_def new_inst_def)

lemma destroy_wrong_slot_witness:
  "\<exists>s' t'. task_instance_destroy 4 (sample ''i'' int_arg [Some 7, Some 7, None, None, None] False zero_command) = Inr ((), s')
    \<and> heap s' 1 = Some (OTask t') \<and> instances t' ! 1 = 4 \<and> heap s' 4 = None"
  by (rule destroy_wrong_slot [OF sample_task_ok, where n = 7 and i = 0])
    (simp_all add: sample_task_def serial_of_def sample_inst_def new_inst_def slot_of_def)

lemma task_serves_schedule_witness:
  "\<exists>s' t'. serve (task_instance_create 1) (find_instance_ptr 1) task_instance_destroy
      [Start 9, Finish 7, Start 7, Finish 9, Finish 3]
      (sample ''i'' int_arg [Some 7, Some 8, None, None, None] False zero_command) = Inr ((), s')
    \<and> task_ok s' 1 t' \<and> unique_serials s' t' \<and> dom (inst_map s' t') = {7, 8}"
proof -
  let ?s = "sample ''i'' int_arg [Some 7, Some 8, None, None, None] False zero_command"
    and ?t = "sample_task ''i'' [Some 7, Some 8, None, None, None]"
  have ok: "task_ok ?s 1 ?t" by (rule sample_task_ok) simp
  have d: "dom (inst_map ?s ?t) = {7, 8}"
    using serial_of_null [OF task_okD(1) [OF ok]]
    by (auto simp: dom_inst_map sample_task_def serial_of_def sample_inst_def new_inst_def)
  have "schedule_ok (dom (inst_map ?s ?t)) [Start 9, Finish 7, Start 7, Finish 9, Finish 3]"
    by (simp add: d)
  from task_serves_schedule [OF ok sample_unique _ this]
  show ?thesis by (simp add: d insert_Diff_if insert_commute)
qed

lemma register_refines_map_witness:
  "\<exists>s' tb'. tboard_register_task 12 1 (sample ''i'' int_arg none5 False zero_command) = Inr ((), s')
    \<and> tboard_ok s' 12 tb' \<and> task_map s' tb' ''f'' = Some 1 \<and> num_tasks tb' = num_tasks sample_board"
proof -
  have "tboard_ok (sample ''i'' int_arg none5 False zero_command) 12 sample_board" by (rule sample_board_ok) simp
  from register_refines_map [OF this sample_heap(1)]
    sample_board_ok(2) [of none5 "''i''" int_arg False zero_command "''f''"]
  show ?thesis by (simp add: sample_task_def new_task_def) metis
qed

lemma sample_start:
  "tboard_ok (sample ''i'' as none5 False zero_command) 12 sample_board"
  "task_map (sample ''i'' as none5 False zero_command) sample_board ''f'' = Some 1"
  "task_ok (sample ''i'' as none5 False zero_command) 1 (sample_task ''i'' none5)"
  "length (live_slots (sample_task ''i'' none5)) < 5"
  "slot_of (sample ''i'' as none5 False zero_command) (sample_task ''i'' none5) 7 = None"
  using sample_board_ok [of none5] sample_task_ok [of none5] serial_of_null [OF sample_wf [of none5]]
  by (simp_all add: sample_task_def slot_of_def)


lemma start_leaks_witness:
  "\<exists>s' t'. tboard_start_task 12 ''f'' 7 13 (sample ''i'' [\<lparr>nargs = 2, arg_type = INT_TYPE, arg_val = IVal 5\<rparr>,
        \<lparr>nargs = 2, arg_type = INT_TYPE, arg_val = IVal 6\<rparr>] none5 False zero_command) = Inr (0, s') \<and> task_ok s' 1 t'
    \<and> length (live_slots t') = Suc (length (live_slots (sample_task ''i'' none5))) \<and> inst_map s' t' 7 \<noteq> None"
  by (rule start_leaks [OF sample_start(1-3) _ sample_start(4,5), OF _ sample_heap(4)])
    (simp_all add: sample_task_def new_task_def)

text \<open>An entry point that computes 42.\<close>

abbreviation stub42 :: "nat \<Rightarrow> addr \<Rightarrow> addr \<Rightarrow> addr c_prog" where
  "stub42 \<equiv> plain_stub (IVal 42)"

text \<open>One that puts a return argument of its own, with that value, into the context.\<close>

definition own_arg_stub :: "argvalue_t \<Rightarrow> nat \<Rightarrow> addr \<Rightarrow> addr \<Rightarrow> addr c_prog" where
  "own_arg_stub v ep args ra = alloc (OArgs [\<lparr>nargs = 1, arg_type = INT_TYPE, arg_val = v\<rparr>])"

lemma wrapper_ok_witness:
  "\<exists>s'. task_freertos_entrypoint_wrapper (own_arg_stub (IVal 99)) True 2
      (sample ''i'' int_arg [Some 7, None, None, None, None] False zero_command) = Inr ((), s')
    \<and> heap s' 3 = Some (OArgs [sample_result\<lparr>arg_val := IVal 99\<rparr>])
    \<and> heap s' 12 = Some (OTboard (sample_board\<lparr>last_dead_task_id := 7, num_dead_tasks := num_dead_tasks sample_board + 1\<rparr>))"
proof -
  let ?s = "sample ''i'' int_arg [Some 7, None, None, None, None] False zero_command" and ?i = "sample_inst False 2 7"
  let ?a = "\<lparr>nargs = 1, arg_type = INT_TYPE, arg_val = IVal 99\<rparr>"
  let ?s1 = "?s\<lparr>brk := Suc (brk ?s), heap := (heap ?s)(2 := Some (OInst (?i\<lparr>is_running := True\<rparr>)), Suc (brk ?s) := Some (OArgs [?a]))\<rparr>"
  have h: "heap ?s 2 = Some (OInst ?i)" by simp
  from wrapper_ok [OF h, of "sample_task ''i'' [Some 7, None, None, None, None]" "own_arg_stub (IVal 99)" "Suc (brk ?s)" ?s1
      ?a "[]" "?i\<lparr>is_running := True\<rparr>" sample_result "[]" sample_board True]
  show ?thesis by (simp add: sample_inst_def new_inst_def own_arg_stub_def prog_simps)
qed

section \<open>Two FreeRTOS tasks\<close>

lemma sample_alive: "alive stub42 1 2 3 42 (sample ''i'' int_arg [Some 7, None, None, None, None] False zero_command) W_start"
proof -
  let ?s = "sample ''i'' int_arg [Some 7, None, None, None, None] False zero_command"
    and ?t = "sample_task ''i'' [Some 7, None, None, None, None]"
  have "task_ok ?s 1 ?t" by (rule sample_task_ok) simp
  then show ?thesis
    unfolding alive_def alive_at_def
    by (intro conjI exI [of _ ?t] exI [of _ "sample_inst False 2 7"] exI [of _ sample_result]
        exI [of _ sample_board] exI [of _ 0])
      (simp_all add: sample_inst_def new_inst_def zero_inst_def sample_result_def sample_task_def slot_of_def serial_of_def)
qed

lemma race_witness:
  "\<exists>r. sys_reach stub42 True 2 (Run (sample ''i'' int_arg [Some 7, None, None, None, None] False zero_command) W_start C_poll)
    (Crash UseAfterFree (C_done r))"
  by (rule race [OF sample_alive])

lemma no_race_witness:
  "\<exists>s' r. sys_reach stub42 True 2 (Run (sample ''i'' int_arg [Some 7, None, None, None, None] False zero_command) W_start C_poll)
    (Run s' W_done (C_done r)) \<and> holds_int 42 s' r"
  by (rule no_race [OF sample_alive])

lemma safe_until_collected_witness:
  "case Run (sample ''i'' int_arg [Some 7, None, None, None, None] False zero_command) W_start C_poll of
      Run s' w c \<Rightarrow> (case c of C_done r \<Rightarrow> holds_int 42 s' r | _ \<Rightarrow> alive stub42 1 2 3 42 s' w)
    | Crash f c \<Rightarrow> f = UseAfterFree \<and> (\<exists>r. c = C_done r)"
  by (rule safe_until_collected [OF sample_alive rtranclp.rtrancl_refl])

section \<open>The processing task\<close>

lemma sample_cmd_int:
  "cmd_at (sample ''i'' int_arg ns fin (sample_cmd code fn ''i'')) 19 (sample_cmd code fn ''i'') int_arg [VInt 5]"
  by (rule sample_cmd_at [OF sample_args(1)]) (simp_all add: arg_ptrs_def)

lemma get_result_ok_witness:
  "\<exists>s'. process_get_result good_env rfc_encoder (ret ()) 1 15 19
      (sample ''i'' int_arg [Some 7, None, None, None, None] True (sample_cmd CMD_GET_REXEC_RES ''f'' ''i'')) = Inr ((), s')
    \<and> heap s' 19 = None \<and> heap s' 2 = None \<and> heap s' 3 = None \<and> heap s' 15 = Some (OCnode sample_node)
    \<and> trace s' = [Z_put CNODE_REPLY_PUB_KEYEXPR
        (enc_item (result_item (sample_cmd CMD_GET_REXEC_RES ''f'' ''i'') (VInt 42)))]"
proof -
  let ?c = "sample_cmd CMD_GET_REXEC_RES ''f'' ''i''" and ?ns = "[Some 7, None, None, None, None] :: u32 option list"
  let ?s = "sample ''i'' int_arg ?ns True ?c" and ?t = "sample_task ''i'' ?ns"
  note names = sample_names [of "''f''" "''i''" CMD_GET_REXEC_RES, simplified]
  have t: "task_ok ?s 1 ?t" "slot_of ?s ?t (ucast (c_task_id ?c)) = Some 0" "instances ?t ! 0 = 2"
    using sample_task_ok [of ?ns]
    by (simp_all add: slot_of_def sample_task_def serial_of_def sample_inst_def new_inst_def)
  have tb: "tboard_ok ?s (cn_tboard sample_node) sample_board" "task_map ?s sample_board (c_str (c_fn_name ?c)) = Some 1"
    using sample_board_ok [of ?ns] by (simp_all add: names)
  have ii: "heap ?s 2 = Some (OInst (sample_inst True 2 7))" "has_finished (sample_inst True 2 7)"
    "args_at ?s (i_return_arg (sample_inst True 2 7)) [sample_result] [VInt 42]"
    by (simp_all add: sample_inst_def new_inst_def sample_result_def args_at_def arg_view_def int_view_def)
  have fits: "length (enc_item (result_item ?c (VInt 42))) \<le> 1024"
    by (simp add: result_item_def names cmd_item_def int_item_def enc_head_def)
  have sep: "set (cmd_ptrs 19 ?c int_arg) \<inter> set (inst_ptrs ?s 2) = {}"
    by (simp add: cmd_ptrs_def inst_ptrs_def sample_inst_def new_inst_def zero_inst_def arg_ptrs_def)
  have ans: "answerable enc_item ?c" by (rule sample_answerable) simp_all
  from get_result_ok [where e = good_env and others = "ret ()" and k = 1,
      OF rfc.cbor_codec_axioms sample_node_up sample_cmd_int _ ans tb t ii _ fits sep]
  show ?thesis
    by (auto simp: cmd_ptrs_def inst_ptrs_def sample_inst_def new_inst_def zero_inst_def arg_ptrs_def)
qed

lemma process_rexec_dangling_witness:
  "\<exists>s' q ii. process_rexec good_env rfc_encoder 15 19
      (sample ''s'' str_arg none5 False (sample_cmd CMD_REXEC ''f'' ''s'')) = Inr ((), s')
    \<and> heap s' q = Some (OInst ii) \<and> heap s' (i_args ii) = Some (OArgs str_arg) \<and> heap s' 14 = None"
proof -
  let ?c = "sample_cmd CMD_REXEC ''f'' ''s''"
  let ?s = "sample ''s'' str_arg none5 False ?c" and ?t = "sample_task ''s'' none5"
  note names = sample_names [of "''f''" "''s''" CMD_REXEC, simplified]
  have cmd: "cmd_at ?s 19 ?c str_arg [VStr ''ab'']"
    by (rule sample_cmd_at [OF sample_args(2)]) (simp_all add: arg_ptrs_def)
  have t: "task_ok ?s 1 ?t" "length (live_slots ?t) < 5" "slot_of ?s ?t (ucast (c_task_id ?c)) = None"
    using sample_task_ok [of none5] serial_of_null [OF sample_wf [of none5]] by (simp_all add: slot_of_def sample_task_def)
  have tb: "tboard_ok ?s (cn_tboard sample_node) sample_board" "task_map ?s sample_board (c_str (c_fn_name ?c)) = Some 1"
    using sample_board_ok [of none5] by (simp_all add: names)
  have ans: "answerable enc_item ?c" by (rule sample_answerable) simp_all
  have fit: "args_fit (t_fn_argsig ?t) str_arg"
    by (simp add: args_fit_def arg_fits_def sample_task_def new_task_def char_to_argtype_def)
  show ?thesis
    by (rule process_rexec_dangling [OF rfc.cbor_codec_axioms sample_node_up cmd _ ans _ tb t fit, of 0 14]) simp_all
qed

lemma rexec_unknown_faults_witness:
  "process_rexec good_env rfc_encoder 15 19 (sample ''i'' int_arg none5 False (sample_cmd CMD_REXEC ''g'' ''i''))
    = Inl UseAfterFree"
  by (rule rexec_unknown_faults [where tb = sample_board, OF sample_node_up sample_cmd_int])
    (simp_all add: sample_names sample_board_ok)

lemma get_result_missing_faults_witness:
  "process_get_result good_env rfc_encoder (ret ()) 1 15 19
    (sample ''i'' int_arg none5 False (sample_cmd CMD_GET_REXEC_RES ''g'' ''i'')) = Inl UseAfterFree"
  by (rule get_result_missing_faults [where tb = sample_board, OF sample_node_up sample_cmd_int])
    (simp_all add: sample_names sample_board_ok)

lemma other_cmd_leaks_witness:
  "\<exists>s'. cnode_process_cmd good_env rfc_encoder (ret ()) 1 15 19
      (sample ''i'' int_arg none5 False (sample_cmd CMD_PING ''f'' ''i'')) = Inr ((), s')
    \<and> sent (sample ''i'' int_arg none5 False (sample_cmd CMD_PING ''f'' ''i'')) s' CNODE_REPLY_PUB_KEYEXPR
        (enc_item (status_item CMD_REXEC_ERR (sample_cmd CMD_PING ''f'' ''i'')))
    \<and> heap s' 19 = Some (OCmd (sample_cmd CMD_PING ''f'' ''i''))"
  by (rule other_cmd_leaks [OF rfc.cbor_codec_axioms sample_wf _ sample_node_up])
    (simp_all add: sample_answerable)

text \<open>The other tasks, as one step that finishes the instance.\<close>

abbreviation finish2 :: "unit c_prog" where
  "finish2 \<equiv> wrapper_finish 2"

lemma wait_finished_ends_witness:
  "\<exists>j s'. j \<le> 1 \<and> wait_finished finish2 2 2 (sample ''i'' int_arg [Some 7, None, None, None, None] False zero_command) = Inr ((), s')
    \<and> (case j of 0 \<Rightarrow> False | Suc _ \<Rightarrow> True)"
proof -
  let ?s = "sample ''i'' int_arg [Some 7, None, None, None, None] False zero_command"
  let ?I = "\<lambda>j :: nat. \<lambda>s. \<exists>i. heap s 2 = Some (OInst i) \<and> (has_finished i \<longleftrightarrow> 0 < j)"
  have "\<exists>j s'. j \<le> 1 \<and> wait_finished finish2 2 2 ?s = Inr ((), s') \<and> ?I j s'"
  proof (rule wait_finished_ends [where I = ?I])
    show "?I 0 ?s" by (simp add: sample_inst_def new_inst_def zero_inst_def)
    show "\<exists>s'. finish2 s = Inr ((), s') \<and> ?I (Suc j) s'" if "?I j s" "j < 1" for j s
      using that by (auto simp: wrapper_finish_def prog_simps)
  qed auto
  moreover have "\<not> (j = 0 \<and> wait_finished finish2 2 2 ?s = Inr ((), s') \<and> ?I j s')" for j s'
    by (auto simp: numeral_2_eq_2 prog_simps wrapper_finish_def sample_inst_def new_inst_def zero_inst_def)
  ultimately show ?thesis by (metis (no_types, lifting) not0_implies_Suc old.nat.simps(5))
qed

section \<open>The handler\<close>

lemma task_print_exact_witness:
  "task_print 1 (sample ''i'' int_arg [None, Some 7, None, None, None] True zero_command) = Inl NullDeref"
proof -
  let ?ns = "[None, Some (7 :: u32), None, None, None]"
  have ok: "task_ok (sample ''i'' int_arg ?ns True zero_command) 1 (sample_task ''i'' ?ns)" by (rule sample_task_ok) simp
  have "list_all2 (prints_instance (sample ''i'' int_arg ?ns True zero_command) (sample_task ''i'' ?ns)) (live_slots (sample_task ''i'' ?ns))
      [instance_text (sample_inst True 4 7) [Text ''no arguments''] (listed (VInt 42))]"
    by (auto simp: sample_task_def prints_instance_def prints_args_def sample_inst_def new_inst_def zero_inst_def
        sample_result_def args_at_def arg_view_def int_view_def)
  from task_print_exact [OF ok this] show ?thesis by (auto simp: sample_task_def)
qed

lemma data_handler_long_witness:
  "cnode_data_handler good_env rfc_parser 1 \<lparr>l_length = 0, l_i = 0, l_bytebuf = [], l_strbuf = [], l_keybuf = []\<rparr> 15
    (''app/x'' @ [NUL]) (replicate 1025 0) start_world = Inl OutOfBounds"
  by (rule data_handler_long) (simp_all add: foreign_key_def starts_def c_str_def no_oom_def start_world_def)

section \<open>The core and the system manager\<close>

lemma flake_inj_witness:
  "flake 65537 1025 3 = flake 1 1 3 \<longleftrightarrow>
    uint (65537 :: u64) mod 65536 = uint (1 :: u64) mod 65536 \<and> sint (1025 :: i32) mod 1024 = sint (1 :: i32) mod 1024 \<and> (3 :: i32) = 3"
  by (rule flake_inj) simp_all

lemma discountflake_fits_witness:
  "\<exists>x rc s'. discountflake good_env (replicate 37 NUL) start_world = Inr ((x @ NUL # drop (length x + 1) (replicate 37 NUL), rc), s')
    \<and> is_cstr x \<and> length x \<le> 11 \<and> counter_ok s'
    \<and> sint (flake_counter s') = (sint (flake_counter start_world) + 1) mod 64"
  by (rule discountflake_fits) (simp_all add: counter_ok_def start_world_def)

lemma core_boots_once_witness:
  "\<exists>p s'. core_init good_env 0 start_world = Inr (p, s') \<and> core_init good_env 0 (power_cycle s') = Inl OutOfBounds"
  by (rule core_boots_once [OF good_flash.flash_store_axioms wf_mem_start])
    (simp_all add: counter_ok_def start_world_def no_oom_def)

lemma reconnects_bounded_witness:
  "\<exists>s'. handle_events (WIFI_EVENT_STA_START # replicate 9 WIFI_EVENT_STA_DISCONNECTED) start_world = Inr ((), s')
    \<and> retry_ok s' \<and> connects s' = 6"
  using reconnects_bounded [of start_world "WIFI_EVENT_STA_START # replicate 9 WIFI_EVENT_STA_DISCONNECTED"]
  by (auto simp: retry_ok_def start_world_def connects_def retries_left_def eval_nat_numeral)

lemma good_driver: "driver_ok good_env"
  by (auto simp: driver_ok_def good_env_def)

lemma wifi_init_returns_witness:
  "(\<exists>s'. system_manager_wifi_init good_env [WIFI_EVENT_STA_DISCONNECTED] 20
      (sample ''i'' int_arg none5 False zero_command) = Inr (True, s'))
    \<longleftrightarrow> IP_EVENT_STA_GOT_IP \<in> set [WIFI_EVENT_STA_DISCONNECTED]"
  by (rule wifi_init_returns [OF good_driver]) simp

section \<open>The node\<close>

lemma good_boot: "can_boot good_env [WIFI_EVENT_STA_START, IP_EVENT_STA_GOT_IP] start_world"
  using good_driver good_flash.flash_store_axioms wf_mem_start
  by (simp add: can_boot_def, simp add: good_env_def start_world_def no_oom_def counter_ok_def)

lemma cnode_init_destroy_witness:
  "\<exists>cn s' s''. cnode_init good_env [WIFI_EVENT_STA_START, IP_EVENT_STA_GOT_IP] start_world = Inr (cn, s')
    \<and> cnode_destroy good_env cn s' = Inr ((), s'')
    \<and> heap s'' = (heap start_world)(brk start_world + 3 := Some (OTboard zero_tboard), brk start_world + 5 := Some (OChars [NUL]))
    \<and> cnode_init good_env [WIFI_EVENT_STA_START, IP_EVENT_STA_GOT_IP] s'' = Inl AssertFailed"
  by (rule cnode_init_destroy [OF good_boot])

text \<open>A node that is initialised only, with no memory left.\<close>

definition bare_world :: "cnode_t \<Rightarrow> world" where
  "bare_world n = start_world\<lparr>brk := 2, oom := (\<lambda>k. k = 2),
     heap := [1 \<mapsto> OCnode n, 2 \<mapsto> OSysman zero_sysman]\<rparr>"

lemma bare_wf: "wf_mem (bare_world n)"
  by (simp add: wf_mem_def bare_world_def)

lemma cnode_stop_before_start_witness:
  "cnode_stop good_env 1 (bare_world (zero_cnode\<lparr>cn_initialized := True\<rparr>)) = Inl NullDeref"
  by (rule cnode_stop_before_start [where n = "zero_cnode\<lparr>cn_initialized := True\<rparr>", OF bare_wf])
    (simp_all add: bare_world_def zero_cnode_def)

lemma init_board_no_memory_witness:
  "init_board good_env 1 (bare_world (zero_cnode\<lparr>cn_system_manager := 2\<rparr>)) \<noteq> Inr (1, start_world)"
  by (rule init_board_no_memory [where sm = 2 and m = zero_sysman, OF bare_wf]) (simp_all add: bare_world_def)


section \<open>The firmware\<close>

text \<open>A task that adds one to its argument.\<close>

definition succ_value :: "arg_t list \<Rightarrow> argvalue_t" where
  "succ_value ds = (case int_view (arg_val (ds ! 0)) of Some x \<Rightarrow> IVal (x + 1) | None \<Rightarrow> ZVal)"

fun succ_argv :: "argv list \<Rightarrow> argv" where
  "succ_argv [VInt x] = VInt (x + 1)" | "succ_argv _ = VNull"

lemma succ_computes: "computes succ_value succ_argv INT_TYPE ''i''"
  unfolding computes_def
proof (intro allI impI)
  fix s ds vs
  assume vs: "map (arg_view s) ds = map Some vs" "map char_to_argtype ''i'' = map val_type vs"
  then obtain v where v: "vs = [v]" "val_type v = INT_TYPE" by (cases vs) (auto simp: char_to_argtype_def)
  then obtain x where x: "vs = [VInt x]" by (cases v) auto
  with vs(1) obtain d where d: "ds = [d]" "arg_view s d = Some (VInt x)" by (cases ds) auto
  then have "int_view (arg_val d) = Some x" by (auto simp: arg_view_def split: argtype_t.splits)
  moreover have "int_view (IVal y) = Some y" for y by (simp add: int_view_def)
  ultimately show "arg_view s \<lparr>nargs = 1, arg_type = INT_TYPE, arg_val = succ_value ds\<rparr> = Some (succ_argv vs)
      \<and> plain (succ_argv vs) \<and> sendable (succ_argv vs)"
    using x d(1) by (simp add: arg_view_def succ_value_def plain_def)
qed

definition call_of :: "u64 \<Rightarrow> string \<Rightarrow> i32 \<Rightarrow> request" where
  "call_of tid node x = \<lparr>rq_sub = 0, rq_tid = tid, rq_node = node, rq_sig = ''i'', rq_vals = [VInt x]\<rparr>"

definition some_locals :: locals where
  "some_locals = \<lparr>l_length = 0, l_i = 0, l_bytebuf = replicate 128 NUL, l_strbuf = replicate 128 NUL, l_keybuf = replicate 32 NUL\<rparr>"

lemma succ_works: "works_with good_env rfc_encoder rfc_parser enc_item (\<lambda>v. v) 20 some_locals (calc_stub succ_value)
    (''app/x'' @ [NUL]) succ_argv INT_TYPE ''i'' 1"
  using rfc.cbor_codec_axioms good_queue.command_queue_axioms succ_computes
  by (auto simp: works_with_def foreign_key_def starts_def c_str_def wf_locals_def some_locals_def calc_stub_def)

lemmas call_defs = call_of_def msg_item_def status_msg_def res_msg_def int_id_def names_fit_def
  is_cstr_def plain_def char_to_argtype_def cmd_item_def int_item_def enc_head_def

text \<open>
  Two calls in flight at once, the second collected first, after a poll that finds it unfinished; then a command
  the node does not know.
\<close>

definition overlap :: "node_event list" where
  "overlap = (let a = call_of 7 ''n'' 5; b = call_of 8 ''m'' 41 in
     [Deliver (Rexec a), Deliver (Rexec b), Proc, Work 0, Proc, Echo (CNODE_REPLY_PUB_KEYEXPR @ [NUL]) [1], Work 1,
      Deliver (Get b), Proc, Work 0, Proc] @ replicate 5 (Work 1)
     @ [Proc, Deliver (Get a), Work 0, Deliver (Other 0 a), Proc] @ replicate 3 (Work 0) @ [Proc, Proc])"

definition overlap_replies :: "reply list" where
  "overlap_replies = (let a = call_of 7 ''n'' 5; b = call_of 8 ''m'' 41; key = CNODE_REPLY_PUB_KEYEXPR in
     [(key, enc_item (status_msg CMD_REXEC_ACK ''f'' a)), (key, enc_item (status_msg CMD_REXEC_ACK ''f'' b)),
      (key, enc_item (res_msg ''f'' b (VInt 42))), (key, enc_item (res_msg ''f'' a (VInt 6))),
      (key, enc_item (status_msg CMD_REXEC_ERR ''f'' a))])"

lemma overlap_deliverable:
  "deliverable enc_item ''f'' ''i'' (Rexec (call_of 7 ''n'' 5))" "deliverable enc_item ''f'' ''i'' (Rexec (call_of 8 ''m'' 41))"
  "deliverable enc_item ''f'' ''i'' (Get (call_of 7 ''n'' 5))" "deliverable enc_item ''f'' ''i'' (Get (call_of 8 ''m'' 41))"
  "deliverable enc_item ''f'' ''i'' (Other 0 (call_of 7 ''n'' 5))"
  by (simp_all add: deliverable_def call_defs)

lemma replicates: "replicate 3 x = [x, x, x]" "replicate 5 x = [x, x, x, x, x]" "replicate 6 x = [x, x, x, x, x, x]"
  by (simp_all add: eval_nat_numeral)

lemma call_ids: "rq_tid (call_of tid node x) = tid" "rq_vals (call_of tid node x) = [VInt x]"
  by (simp_all add: call_of_def)

lemma overlap_run:
  "spec_run (spec_step enc_item CNODE_REPLY_PUB_KEYEXPR ''f'' ''i'' succ_argv) spec_init overlap =
    Some (\<lparr>sp_queue = [], sp_calls = [(call_of 7 ''n'' 5, Collected), (call_of 8 ''m'' 41, Collected)], sp_wait = None\<rparr>,
      overlap_replies)"
  by (simp add: overlap_def overlap_replies_def Let_def overlap_deliverable call_ids find_call_def poll_result_def
      own_key_def starts_def c_str_def replicates)

lemma firmware_serves_witness:
  "\<exists>cn p s0 c. app_main good_env [WIFI_EVENT_STA_START, IP_EVENT_STA_GOT_IP] ''f'' INT_TYPE ''i'' 1 start_world = Inr ((cn, p), s0)
    \<and> steps (node_step good_env rfc_encoder rfc_parser 20 some_locals (calc_stub succ_value) True
        enc_item cn (''app/x'' @ [NUL]) ''f'' (length (tasks_started (trace s0)))) overlap (at_rest s0) = Inr c
    \<and> published (trace (cf_world c)) = published (trace s0) @ overlap_replies
    \<and> node_sim enc_item ''f'' CNODE_REPLY_PUB_KEYEXPR succ_argv cn p (length (tasks_started (trace s0))) INT_TYPE ''i'' 1 c
        \<lparr>sp_queue = [], sp_calls = [(call_of 7 ''n'' 5, Collected), (call_of 8 ''m'' 41, Collected)], sp_wait = None\<rparr>"
  by (rule firmware_serves [OF succ_works good_boot _ _ overlap_run])
    (simp_all add: start_world_def good_env_def overlap_replies_def Let_def call_defs)

lemma firmware_answers_witness:
  "\<exists>cn p s0 c n tb t. app_main good_env [WIFI_EVENT_STA_START, IP_EVENT_STA_GOT_IP] ''f'' INT_TYPE ''i'' 1 start_world = Inr ((cn, p), s0)
    \<and> steps (node_step good_env rfc_encoder rfc_parser 20 some_locals (calc_stub succ_value) True
        enc_item cn (''app/x'' @ [NUL]) ''f'' (length (tasks_started (trace s0))))
        (one_by_one 0 [call_of 7 ''n'' 5, call_of 7 ''m'' 41]) (at_rest s0) = Inr c
    \<and> published (trace (cf_world c)) = published (trace s0)
        @ concat (map (replies enc_item CNODE_REPLY_PUB_KEYEXPR ''f'' succ_argv) [call_of 7 ''n'' 5, call_of 7 ''m'' 41])
    \<and> ready (cf_world c) cn n CNODE_REPLY_PUB_KEYEXPR tb ''f'' p t \<and> pending (trace (cf_world c)) = [] \<and> cf_proc c = P_idle
    \<and> live_slots t = []"
proof (rule firmware_answers [OF succ_works good_boot])
  show "\<forall>r \<in> set [call_of 7 ''n'' 5, call_of 7 ''m'' 41]. callable enc_item ''f'' ''i'' r
      \<and> length (enc_item (res_msg ''f'' r (succ_argv (rq_args r)))) \<le> 1024"
    by (simp add: callable_def deliverable_def call_defs)
qed (simp_all add: start_world_def good_env_def)

text \<open>The result asked for twice.\<close>

definition ask_twice :: "node_event list" where
  "ask_twice = one_by_one 0 [call_of 7 ''n'' 5] @ [Deliver (Get (call_of 7 ''n'' 5))]"

lemma ask_twice_run:
  "spec_run (spec_step enc_item CNODE_REPLY_PUB_KEYEXPR ''f'' ''i'' succ_argv) spec_init ask_twice =
    Some (\<lparr>sp_queue = [Get (call_of 7 ''n'' 5)], sp_calls = [(call_of 7 ''n'' 5, Collected)], sp_wait = None\<rparr>,
      replies enc_item CNODE_REPLY_PUB_KEYEXPR ''f'' succ_argv (call_of 7 ''n'' 5))"
  by (simp add: ask_twice_def overlap_deliverable find_call_def poll_result_def replies_def replicates)

lemma firmware_limits_witness:
  "\<exists>cn p s0. app_main good_env [WIFI_EVENT_STA_START, IP_EVENT_STA_GOT_IP] ''f'' INT_TYPE ''i'' 1 start_world = Inr ((cn, p), s0)
    \<and> steps (node_step good_env rfc_encoder rfc_parser 20 some_locals (calc_stub succ_value) True
        enc_item cn (''app/x'' @ [NUL]) ''f'' (length (tasks_started (trace s0)))) (ask_twice @ [Proc]) (at_rest s0) = Inl UseAfterFree"
  by (rule firmware_limits [where m = "Get (call_of 7 ''n'' 5)" and ms = "[]", OF succ_works good_boot _ _ ask_twice_run])
    (simp_all add: start_world_def good_env_def replies_def call_defs find_call_def)

text \<open>The processing task waits; the worker has just set its flag.\<close>

definition early :: "node_event list" where
  "early = (let a = call_of 7 ''n'' 5 in [Deliver (Rexec a), Deliver (Get a), Proc, Proc] @ replicate 3 (Work 0))"

lemma early_run:
  "spec_run (spec_step enc_item CNODE_REPLY_PUB_KEYEXPR ''f'' ''i'' succ_argv) spec_init early =
    Some (\<lparr>sp_queue = [], sp_calls = [(call_of 7 ''n'' 5, Progress 3)], sp_wait = Some (call_of 7 ''n'' 5)\<rparr>,
      [(CNODE_REPLY_PUB_KEYEXPR, enc_item (status_msg CMD_REXEC_ACK ''f'' (call_of 7 ''n'' 5)))])"
  by (simp add: early_def Let_def overlap_deliverable find_call_def replicates)

lemma firmware_race_witness:
  "\<exists>cn p s0. app_main good_env [WIFI_EVENT_STA_START, IP_EVENT_STA_GOT_IP] ''f'' INT_TYPE ''i'' 1 start_world = Inr ((cn, p), s0)
    \<and> steps (node_step good_env rfc_encoder rfc_parser 20 some_locals (calc_stub succ_value) True
        enc_item cn (''app/x'' @ [NUL]) ''f'' (length (tasks_started (trace s0)))) (early @ [Proc, Work 0]) (at_rest s0) = Inl UseAfterFree"
  by (rule firmware_race [where m = 0 and r = "call_of 7 ''n'' 5", OF succ_works good_boot _ _ early_run])
    (simp_all add: start_world_def good_env_def call_defs find_call_def)

text \<open>The worker goes on, and another message arrives.\<close>

definition later :: "node_event list" where
  "later = [Work 0, Deliver (Other 0 (call_of 7 ''n'' 5)), Work 0, Work 0]"

lemma later_run:
  "spec_run (spec_step enc_item CNODE_REPLY_PUB_KEYEXPR ''f'' ''i'' succ_argv)
      \<lparr>sp_queue = [], sp_calls = [(call_of 7 ''n'' 5, Progress 3)], sp_wait = Some (call_of 7 ''n'' 5)\<rparr> later =
    Some (\<lparr>sp_queue = [Other 0 (call_of 7 ''n'' 5)], sp_calls = [(call_of 7 ''n'' 5, Progress 6)], sp_wait = Some (call_of 7 ''n'' 5)\<rparr>, [])"
  by (simp add: later_def overlap_deliverable)

lemma firmware_wait_ends_witness:
  "\<exists>cn p s0 k c out''. app_main good_env [WIFI_EVENT_STA_START, IP_EVENT_STA_GOT_IP] ''f'' INT_TYPE ''i'' 1 start_world = Inr ((cn, p), s0)
    \<and> k \<in> {[], [Proc]}
    \<and> steps (node_step good_env rfc_encoder rfc_parser 20 some_locals (calc_stub succ_value) True
        enc_item cn (''app/x'' @ [NUL]) ''f'' (length (tasks_started (trace s0)))) (early @ later @ k) (at_rest s0) = Inr c
    \<and> published (trace (cf_world c)) = published (trace s0)
        @ [(CNODE_REPLY_PUB_KEYEXPR, enc_item (status_msg CMD_REXEC_ACK ''f'' (call_of 7 ''n'' 5)))] @ out''
    \<and> (CNODE_REPLY_PUB_KEYEXPR, enc_item (res_msg ''f'' (call_of 7 ''n'' 5) (VInt 6))) \<in> set out''"
proof -
  let ?A = "\<lparr>sp_queue = [], sp_calls = [(call_of 7 ''n'' 5, Progress 3)], sp_wait = Some (call_of 7 ''n'' 5)\<rparr>"
  have res: "(CNODE_REPLY_PUB_KEYEXPR, enc_item (res_msg ''f'' (call_of 7 ''n'' 5) (VInt 6)))
      = result_of enc_item CNODE_REPLY_PUB_KEYEXPR ''f'' succ_argv (call_of 7 ''n'' 5) (fst (sp_calls ?A ! 0))"
    by (simp add: call_ids)
  show ?thesis unfolding res
    by (rule firmware_wait_ends [OF succ_works good_boot _ _ early_run _ _ later_run])
      (simp_all add: start_world_def good_env_def call_defs find_call_def later_def)
qed

end
