(* ===== verification/Spec2Isabelle.thy ===== *)
theory Spec2Isabelle
  imports Witnesses
begin

text \<open>
  A model of the JAMScript C runtime for the ESP32 (\<open>src/*.c\<close>, \<open>inc/*.h\<close>), with the theorems that say
  what it does.

  \<^bold>\<open>The program.\<close> A node receives messages over zenoh. A message is a CBOR map, decoded to a command
  (\<open>command.c\<close>); the subscriber puts commands into a queue, and a processing task takes them out
  (\<open>cnode.c\<close>). A \<open>REXEC\<close> command starts an instance of a task: the board finds the task by name
  (\<open>tboard.c\<close>), the task makes an instance with its own copy of the arguments (\<open>task.c\<close>), and a FreeRTOS
  task runs its entry point in a wrapper that stores the result and sets a flag. A \<open>GET_REXEC_RES\<close>
  command waits for the flag, copies the result, destroys the instance and publishes the value. The
  rest brings the node up: the system manager the Wi-Fi (\<open>system_manager.c\<close>), the core an identifier
  kept in flash (\<open>core.c\<close>), the wrappers the zenoh session (\<open>zenoh.c\<close>).

  \<^bold>\<open>How it is modelled.\<close> A function is a \<open>(world, 'a) prog\<close> (\<open>Prelude\<close>): from a state it goes to a fault or
  to a result and a state. The state (\<open>Data_Model\<close>) is a heap of typed objects, the statics, and the
  calls made into libraries so far. An address is never used twice, so a freed object is recognised
  for ever; \<open>oom\<close> says which allocations fail. Undefined behaviour is a fault: a read or write through
  \<open>NULL\<close>, of a freed object, past the end of an array, of the wrong union member. Integers keep their
  width; a struct keeps its fields; an array of pointers is a list, with every index checked. A
  \<open>while\<close> loop that may not end takes the number of its rounds as an argument and is \<open>NoFuel\<close> after
  them. Where a theorem says that something returns, it says how many rounds are enough.

  \<^bold>\<open>The outside.\<close> The CBOR library is a record of functions (\<open>cbor_encoder\<close>, \<open>cbor_parser\<close>), whose laws are the
  locale \<open>cbor_codec\<close> (\<open>Decode\<close>, on the items of \<open>Cbor_Interface\<close>); \<open>Rfc8949\<close> is an encoder and decoder
  that satisfy them, so that no theorem about messages is vacuous. ESP-IDF, FreeRTOS and zenoh-pico are
  a record \<open>env\<close> of functions from the calls made so far to the answer (\<open>Env\<close>), with the locales
  \<open>flash_store\<close> (what is stored last is read) and \<open>command_queue\<close> (first in, first out, 50 places);
  \<open>good_env\<close> satisfies both. Entry points of the application are a parameter \<open>stub\<close>.

  \<^bold>\<open>The theories.\<close>
  \<^item> \<open>Prelude\<close>, \<open>Memory\<close>: the monad, loops, C strings; allocation with the counter of \<open>utils.h\<close>, reads
    and writes, and what allocations leave alone (\<open>grows\<close>, \<open>new_objs\<close>, \<open>keeps_freed\<close>).
  \<^item> \<open>Nvoid\<close>: \<open>nvoid.c\<close>.
  \<^item> \<open>Args\<close>, \<open>Command\<close>, \<open>Decode\<close>: \<open>command.c\<close>. Arrays of arguments (filling, deep copy, release; the two
    fillers are the two interpretations of one locale), building and reference counts, decoding. The
    decoder is shown right on every documented message, and inverse to the encoder; when its loops end is
    said exactly, for any library.
  \<^item> \<open>Task\<close>: \<open>task.c\<close>. The invariant \<open>task_ok\<close> (five slots, distinct live instances, a count), the map from
    serial ids to instances, what each operation does to both, and where the map is lost.
  \<^item> \<open>Tboard\<close>: \<open>tboard.c\<close>. The registry of names as a map, starting a task on every branch, the wrapper.
  \<^item> \<open>Instances\<close>: the locale \<open>instance_table\<close>, interpreted on the functions of \<open>task.c\<close>, and the schedules
    of starts and finishes it can serve.
  \<^item> \<open>Interleave\<close>: the wrapper and the collector as a step relation on one instance; its invariant, a
    schedule that crashes and one that does not.
  \<^item> \<open>Core_State\<close>, \<open>System_Manager\<close>, \<open>Zenoh\<close>: \<open>core.c\<close>, \<open>system_manager.c\<close>, \<open>zenoh.c\<close>.
  \<^item> \<open>Cnode\<close>, \<open>Cnode_Flow\<close>, \<open>Cnode_Life\<close>: \<open>cnode.c\<close>. The handler, the processing task and the replies on
    every branch; what a node that is \<open>ready\<close> to serve a task keeps of it; the life of a node.
  \<^item> \<open>Node_Steps\<close>: the processing task as steps, cut where it polls for a result; the steps are exactly the
    rounds of the loop in \<open>Cnode\<close>, with anything else between two polls.
  \<^item> \<open>Schedule\<close>: the abstract specification, a server with a queue of messages, a list of calls, each so many
    steps on its way or collected, and perhaps a call it waits for; \<open>spec_step\<close> says what each event does and
    what is published.
  \<^item> \<open>Node_Run\<close>: the simulation. An invariant relates the node's memory to the server (which object belongs to
    which queued command or instance, and to nobody else), every step of the server is one of the node
    (locale \<open>simulation\<close>), and so is every schedule. \<open>computes\<close> says what function of values an entry point is.
  \<^item> \<open>Printing\<close>: the functions that print, as programs that return what they print, and \<open>utils.c\<close>.
  \<^item> \<open>Firmware\<close>: the whole, from power-on to the answers, for any schedule the server allows; what happens where it
    allows nothing, and that a wait ends.
  \<^item> \<open>Sample\<close>, \<open>Witnesses\<close>: a concrete state, and the properties of the components applied to it.

  The properties of one component are in its theory, numbered as here; those below are about commands.

  \<^bold>\<open>Fuel.\<close> The decoder's loops take one round for each field before the end of the map and for each announced
  argument, whatever the library does, and none is enough if the library never says that the map is at its end
  (C39); on a well-formed map they end (C7). The loop that
  waits for a task needs one more round than the others need to finish it (C19). The wait for the network
  takes the driver's events as its argument. The processing task never ends: its model runs a number
  of rounds.

  \<^bold>\<open>Not modelled.\<close> Progress messages and log lines (\<open>printf\<close>, \<open>ESP_LOGI\<close>, \<open>log_error\<close>) of functions that do
  something else; \<open>main.c\<close>, which is empty. The delays are not in the model but for the one in which other tasks run
  (\<open>wait_finished\<close>, \<open>proc_step\<close>). Concurrency: the subscriber, the processing task and any number of
  workers run interleaved (\<open>Node_Run\<close>). A worker is cut into the six steps of the wrapper, the processing task before
  each command and at each poll; the handling of a message, of a command and of a result are one step each. Such a
  step uses an instance only before its worker is created or after the worker's flag; what comes after the flag
  is cut finer, with the copy of the result and the destruction of the instance apart, in \<open>Interleave\<close>.
  In the theorems about the whole node the entry points write their result into the instance's return argument;
  \<open>wrapper_ok\<close> is about any entry point, one that puts a return argument of its own into the context included.
  \<open>abs\<close> of the smallest \<open>int\<close> (undefined in C, in \<open>encode_arg\<close>) wraps around, and the test of
  \<open>zenoh_publish_encoded\<close> for a \<open>NULL\<close> buffer is left out, as a buffer is a list here.
  The stack of a FreeRTOS task, and a failure of
  \<open>xTaskCreatePinnedToCore\<close> (whose result the code ignores), are outside the model.
\<close>

section \<open>Commands\<close>



text \<open>C12. \<open>command_from_data\<close> on any documented message: fields in any order before and after the
  arguments, unknown and repeated keys included. The command is \<open>set_fields\<close> of the fields, in order,
  with the arguments as a fresh array.\<close>

theorem command_from_data_message:
  assumes "cbor_codec E P bytes view" "wf_mem s" "no_oom s" "wf_locals l"
    and "wf_item (message kvs xs kvs')" "length (bytes (message kvs xs kvs')) \<le> 1024"
    and "take (length (bytes (message kvs xs kvs'))) data = bytes (message kvs xs kvs')"
    and "list_all (\<lambda>(k, x). field_ok k x) (kvs @ kvs')" "map item_val xs = map Some vs"
    and "length xs < 2 ^ 28" "length kvs + length kvs' + length xs + 1 < fuel"
  shows "\<exists>p s' q ds c.
    command_from_data P fuel l data (of_nat (length (bytes (message kvs xs kvs')))) s = Inr (p, s')
    \<and> created s s' p (decoded (u64_of_double P) kvs kvs' c q (cmd_id s)) ds vs
    \<and> c = zero_command\<lparr>c_buffer := bytes (message kvs xs kvs')
           @ drop (length (bytes (message kvs xs kvs'))) (c_buffer zero_command),
         c_length := of_nat (length (bytes (message kvs xs kvs')))\<rparr>
    \<and> total_mem_usage s' = total_mem_usage s + 1248 + of_nat (length vs) * 16"
  using cbor_codec.command_from_data_ok [OF assms(1) refl assms(5-7) _ _ assms(9,10,2-4)] assms(8,11)
  by simp

lemma command_from_data_message_witness:
  "\<exists>p s' q ds c. command_from_data rfc_parser 9
      \<lparr>l_length = 0, l_i = 0, l_bytebuf = replicate 128 NUL, l_strbuf = replicate 128 NUL,
       l_keybuf = replicate 32 NUL\<rparr>
      (enc_item (message [(''taskid'', IInt (-2)), (''x'', INull)] [IText ''ab'', IArray []] [(''cmd'', IInt 5)]))
      (of_nat (length (enc_item (message [(''taskid'', IInt (-2)), (''x'', INull)] [IText ''ab'', IArray []]
        [(''cmd'', IInt 5)])))) start_world = Inr (p, s')
    \<and> created start_world s' p (decoded (u64_of_double rfc_parser) [(''taskid'', IInt (-2)), (''x'', INull)]
        [(''cmd'', IInt 5)] c q (cmd_id start_world)) ds [VStr ''ab'', VNull]
    \<and> c = zero_command\<lparr>c_buffer := enc_item (message [(''taskid'', IInt (-2)), (''x'', INull)] [IText ''ab'', IArray []] [(''cmd'', IInt 5)])
           @ drop (length (enc_item (message [(''taskid'', IInt (-2)), (''x'', INull)] [IText ''ab'', IArray []] [(''cmd'', IInt 5)]))) (c_buffer zero_command),
         c_length := of_nat (length (enc_item (message [(''taskid'', IInt (-2)), (''x'', INull)] [IText ''ab'', IArray []] [(''cmd'', IInt 5)])))\<rparr>
    \<and> total_mem_usage s' = total_mem_usage start_world + 1248 + of_nat (length [VStr ''ab'', VNull]) * 16"
  by (rule command_from_data_message [OF rfc.cbor_codec_axioms])
    (simp_all add: wf_mem_start, simp_all add: no_oom_def start_world_def wf_locals_def message_def
      field_items_def field_ok_def is_cstr_def is_int_def enc_head_def)

text \<open>C35. Creating a command and dropping its only reference leaves the heap exactly as it was; the
  counter of allocated bytes is off by the bytes of the strings, twice (once for the command, once for
  the array \<open>command_new\<close> collects the arguments in).\<close>

theorem command_new_free:
  assumes "wf_mem s" "no_oom s" "va_vals s sig vs = Some vals" "length sig < 2 ^ 28"
  shows "\<exists>p s' s''. command_new E cmd subcmd (Some fn) tid (Some node) (Some sig) vs s = Inr (p, s')
    \<and> command_free p s' = Inr ((), s'') \<and> heap s'' = heap s
    \<and> total_mem_usage s'' = total_mem_usage s - 2 * of_nat (str_bytes vals)"
proof -
  from command_new_ok [OF assms] obtain p s' q ds where new:
    "command_new E cmd subcmd (Some fn) tid (Some node) (Some sig) vs s = Inr (p, s')"
    "created s s' p (new_cmd E cmd subcmd fn tid node sig vals q (cmd_id s)) ds vals"
    "total_mem_usage s' = (total_mem_usage s - of_nat (str_bytes vals)) + 1248 + of_nat (length vals) * 16"
    by (fastforce simp: algebra_simps)
  from created_free [OF new(2) assms(1) _ new(3)] new(1) show ?thesis
    by (fastforce simp: new_cmd_def)
qed

lemma command_new_free_witness:
  "\<exists>p s' s''. command_new rfc_encoder 1 0 (Some ''f'') 1 (Some ''n'') (Some ''i'') [VaInt 5] start_world
      = Inr (p, s')
    \<and> command_free p s' = Inr ((), s'') \<and> heap s'' = heap start_world
    \<and> total_mem_usage s'' = total_mem_usage start_world - 2 * of_nat (str_bytes [VInt 5])"
  by (rule command_new_free) (simp_all add: wf_mem_start, simp_all add: no_oom_def start_world_def)

text \<open>C38. The calls \<open>command_new_using_arg\<close> makes into the CBOR library, whatever library it is, build a
  well-formed data item, the map of the seven fields, exactly if no argument of the array is \<open>void\<close>: a
  \<open>void\<close> is announced in the array's length and never appended, so the library cannot close the array.\<close>

theorem command_encoding_well_formed:
  assumes "args_opt s args as vs" "wf_mem s" "no_oom s"
  shows "\<exists>calls. run_calls calls = (if VVoid \<in> set vs then None else Some (cmd_item cmd subcmd fn tid node sig vs))
    \<and> (\<forall>E. \<exists>p s' c. command_new_using_arg E cmd subcmd (Some fn) tid (Some node) (Some sig) args s = Inr (p, s')
         \<and> heap s' p = Some (OCmd c) \<and> c_buffer c = enc_buffer E HUGE_CMD_STR_LEN calls
         \<and> c_length c = enc_size E HUGE_CMD_STR_LEN calls)"
proof (rule exI [of _ "cmd_calls cmd subcmd fn tid node sig vs"], intro conjI allI)
  show "run_calls (cmd_calls cmd subcmd fn tid node sig vs)
      = (if VVoid \<in> set vs then None else Some (cmd_item cmd subcmd fn tid node sig vs))"
    by (rule run_calls_cmd)
  fix E
  show "\<exists>p s' c. command_new_using_arg E cmd subcmd (Some fn) tid (Some node) (Some sig) args s = Inr (p, s')
      \<and> heap s' p = Some (OCmd c) \<and> c_buffer c = enc_buffer E HUGE_CMD_STR_LEN (cmd_calls cmd subcmd fn tid node sig vs)
      \<and> c_length c = enc_size E HUGE_CMD_STR_LEN (cmd_calls cmd subcmd fn tid node sig vs)"
    using command_new_using_arg_ok [OF assms, of E cmd subcmd fn tid node sig]
    by (auto simp: created_def cmd_at_def new_cmd_def)
qed

text \<open>An integer and a \<open>void\<close>.\<close>

abbreviation void_args :: "arg_t list" where
  "void_args \<equiv> [\<lparr>nargs = 2, arg_type = INT_TYPE, arg_val = IVal 5\<rparr>, \<lparr>nargs = 2, arg_type = VOID_TYPE, arg_val = IVal 0\<rparr>]"

lemma command_encoding_well_formed_witness:
  "\<exists>calls. run_calls calls = None
    \<and> (\<forall>E. \<exists>p s' c. command_new_using_arg E 1 0 (Some ''f'') 7 (Some ''n'') (Some ''iv'') 1
          (start_world\<lparr>heap := [1 \<mapsto> OArgs void_args], brk := 1\<rparr>) = Inr (p, s')
         \<and> heap s' p = Some (OCmd c) \<and> c_buffer c = enc_buffer E HUGE_CMD_STR_LEN calls
         \<and> c_length c = enc_size E HUGE_CMD_STR_LEN calls)"
  using command_encoding_well_formed [of "start_world\<lparr>heap := [1 \<mapsto> OArgs void_args], brk := 1\<rparr>" 1 void_args
      "[VInt 5, VVoid]" 1 0 "''f''" 7 "''n''" "''iv''"]
  by (simp add: args_opt_def args_at_def arg_view_def int_view_def wf_mem_def no_oom_def start_world_def)

text \<open>C36. \<open>command_args_clone\<close> is a deep copy: a fresh array with the same values, whose strings are
  distinct fresh copies; nothing that existed changes and nothing else is allocated.\<close>

theorem args_clone_deep:
  assumes "args_at s p as vs" "wf_mem s" "no_oom s"
  shows "\<exists>q s' ds. command_args_clone p s = Inr (q, s') \<and> extends s s' \<and> wf_mem s'
    \<and> args_at s' q ds vs \<and> distinct (q # args_ptrs ds)
    \<and> set (q # args_ptrs ds) \<subseteq> {brk s<..brk s'} \<and> new_objs s s' (set (q # args_ptrs ds))
    \<and> total_mem_usage s' = total_mem_usage s + of_nat (length as) * 16"
  using assms by (rule command_args_clone_ok)

text \<open>A state with one array of an integer and a string.\<close>

definition args_world :: world where
  "args_world = start_world\<lparr>heap := [1 \<mapsto> OArgs [\<lparr>nargs = 2, arg_type = INT_TYPE, arg_val = IVal 5\<rparr>,
      \<lparr>nargs = 2, arg_type = STRING_TYPE, arg_val = PVal 2\<rparr>], 2 \<mapsto> OChars (''ab'' @ [NUL])],
    brk := 2\<rparr>"

lemma args_world_at: "args_at args_world 1 [\<lparr>nargs = 2, arg_type = INT_TYPE, arg_val = IVal 5\<rparr>,
      \<lparr>nargs = 2, arg_type = STRING_TYPE, arg_val = PVal 2\<rparr>] [VInt 5, VStr ''ab'']"
  by (simp add: args_at_def args_world_def arg_view_def int_view_def str_view_def c_str_def)

lemma args_world_mem: "wf_mem args_world" "no_oom args_world"
  by (simp_all add: wf_mem_def no_oom_def args_world_def start_world_def)

lemma args_clone_deep_witness:
  "\<exists>q s' ds. command_args_clone 1 args_world = Inr (q, s') \<and> extends args_world s' \<and> wf_mem s'
    \<and> args_at s' q ds [VInt 5, VStr ''ab''] \<and> distinct (q # args_ptrs ds)
    \<and> set (q # args_ptrs ds) \<subseteq> {brk args_world<..brk s'} \<and> new_objs args_world s' (set (q # args_ptrs ds))
    \<and> total_mem_usage s' = total_mem_usage args_world
        + of_nat (length [\<lparr>nargs = 2, arg_type = INT_TYPE, arg_val = IVal 5\<rparr>,
            \<lparr>nargs = 2, arg_type = STRING_TYPE, arg_val = PVal 2\<rparr>]) * 16"
  using args_world_at args_world_mem by (rule args_clone_deep)

text \<open>C37. \<open>command_args_free\<close> releases the array and the strings it owns, no more and no less, and
  takes their sizes off the counter.\<close>

theorem args_free_exact:
  assumes "args_at s p as vs" "distinct (p # args_ptrs as)" "p \<noteq> 0"
  shows "command_args_free p s = Inr ((), released (set (p # args_ptrs as))
     (of_nat (length as) * 16 + of_nat (str_bytes vs)) s)"
  using assms by (rule command_args_free_ok)

lemma args_free_exact_witness:
  "command_args_free 1 args_world = Inr ((), released (set (1 # args_ptrs
       [\<lparr>nargs = 2, arg_type = INT_TYPE, arg_val = IVal 5\<rparr>,
        \<lparr>nargs = 2, arg_type = STRING_TYPE, arg_val = PVal 2\<rparr>]))
     (of_nat (length [\<lparr>nargs = 2, arg_type = INT_TYPE, arg_val = IVal 5\<rparr>,
        \<lparr>nargs = 2, arg_type = STRING_TYPE, arg_val = PVal 2\<rparr>]) * 16
      + of_nat (str_bytes [VInt 5, VStr ''ab''])) args_world)"
  using args_world_at by (rule args_free_exact) (simp_all add: arg_ptrs_def)

text \<open>C39. When \<open>command_from_data\<close> ends, with nothing assumed of the CBOR library. The loop over the fields takes
  two steps of the map's cursor at a time; if the library says at some even step that the map is at its end, the
  function ends within one round for each field before it, and one for each announced element of an array. If
  the library never says so at an even step (after an error the cursor may stay where it is), the function does
  not return, whatever number of rounds it is given.\<close>

theorem command_from_data_terminates:
  assumes "wf_mem s"
  shows "(at_end P (cursor P (take (unat len) data) (2 * n)) \<longrightarrow> n < fuel
      \<longrightarrow> (\<forall>i < n. announced P (cursor P (take (unat len) data) (2 * i + 1)) < fuel)
      \<longrightarrow> command_from_data P fuel l data len s \<noteq> Inl NoFuel)
    \<and> ((\<forall>k. \<not> at_end P (cursor P (take (unat len) data) (2 * k))) \<longrightarrow> command_from_data P fuel l data len s \<noteq> Inr r)"
proof -
  let ?v = "cursor P (take (unat len) data)"
  have step: "?v i = (advance P ^^ i) (?v 0)" for i by (simp add: cursor_def)
  show ?thesis using command_from_data_loop [OF assms, of P l data len]
  proof (elim disjE exE conjE)
    fix cmd s1
    assume wf: "wf_mem s1" and run: "\<forall>fuel. case decode_map P fuel fuel cmd (?v 0) l s1 of
        Inl f \<Rightarrow> command_from_data P fuel l data len s = Inl f
      | Inr r \<Rightarrow> command_from_data P fuel l data len s \<noteq> Inl NoFuel"
    note ends = decode_map_ends [OF wf, of P n "?v 0" fuel fuel cmd l]
      and no_end = decode_map_no_end [of P "?v 0" fuel fuel cmd l s1]
    show ?thesis using run [rule_format, of fuel] ends no_end unfolding step [symmetric]
      by (cases "decode_map P fuel fuel cmd (?v 0) l s1") (simp_all, blast+)
  qed simp
qed

text \<open>The message \<open>{"cmd": 5}\<close>, and a library whose cursor does not move.\<close>

lemma command_from_data_terminates_witness:
  "command_from_data rfc_parser 2 \<lparr>l_length = 0, l_i = 0, l_bytebuf = [], l_strbuf = [],
       l_keybuf = replicate 32 NUL\<rparr> [0xA1, 0x63, 0x63, 0x6D, 0x64, 5] 6 start_world \<noteq> Inl NoFuel
   \<and> (\<nexists>r. command_from_data (rfc_parser\<lparr>advance := \<lambda>v. v\<rparr>) 1000 \<lparr>l_length = 0, l_i = 0, l_bytebuf = [], l_strbuf = [],
       l_keybuf = replicate 32 NUL\<rparr> [0xA1, 0x63, 0x63, 0x6D, 0x64, 5] 6 start_world = Inr r)"
proof -
  let ?items = "[IText ''cmd'', IInt 5]"
  have bs: "[0xA1, 0x63, 0x63, 0x6D, 0x64, 5] = enc_item (IMap ?items)" by (simp add: enc_head_def char_byte_def)
  have v: "cursor rfc_parser (enc_item (IMap ?items)) i = drop i ?items" if "i \<le> 2" for i
    using cbor_codec.view_cursor [OF rfc.cbor_codec_axioms, of ?items i] that by simp
  have stay: "cursor (rfc_parser\<lparr>advance := \<lambda>v. v\<rparr>) bs i = cursor rfc_parser bs 0" for bs i
    by (induction i) (simp_all add: cursor_def rfc_parser_def)
  have len: "take (unat (6 :: i32)) [0xA1, 0x63, 0x63, 0x6D, 0x64, 5] = enc_item (IMap ?items)" unfolding bs by (simp add: enc_head_def)
  have end2: "at_end rfc_parser (cursor rfc_parser (enc_item (IMap ?items)) (2 * 1))" using v [of 2] by (simp add: rfc_parser_def)
  have arr: "\<forall>i < 1. announced rfc_parser (cursor rfc_parser (enc_item (IMap ?items)) (2 * i + 1)) < 2"
    using v [of 1] by (simp add: announced_def rfc_parser_def)
  have stuck: "\<forall>k. \<not> at_end (rfc_parser\<lparr>advance := \<lambda>v. v\<rparr>) (cursor (rfc_parser\<lparr>advance := \<lambda>v. v\<rparr>) (enc_item (IMap ?items)) (2 * k))"
    using v [of 0] by (simp add: stay) (simp add: rfc_parser_def)
  note t = command_from_data_terminates [OF wf_mem_start, of _ 6 "[0xA1, 0x63, 0x63, 0x6D, 0x64, 5]", unfolded len]
  show ?thesis using t(1) [of rfc_parser 1 2] t(1) [of "rfc_parser\<lparr>advance := \<lambda>v. v\<rparr>" 0 1000] end2 arr stuck by simp
qed





text \<open>On a cursor the library does not move any more (it reports an error, which the code
  ignores) the loop over the fields never ends, however many iterations it is given.\<close>

theorem decode_stuck_forever:
  assumes "\<not> at_end P mp" "advance P mp = mp" "get_type P mp \<noteq> CborTextStringType"
    and "list_all (\<lambda>k. \<not> str_is (l_keybuf l) k)
      [''cmd'', ''subcmd'', ''taskid'', ''nodeid'', ''fn_name'', ''fn_argsig'', ''args'']"
  shows "decode_map P k fuel cmd mp l s = Inl NoFuel"
  using assms by (rule decode_map_stuck)

lemma decode_stuck_forever_witness:
  "decode_map (rfc_parser\<lparr>advance := \<lambda>v. v\<rparr>) 1000 1000 1 [INull]
     \<lparr>l_length = 0, l_i = 0, l_bytebuf = [], l_strbuf = [], l_keybuf = replicate 32 NUL\<rparr> start_world
   = Inl NoFuel"
  by (rule decode_stuck_forever) (simp_all add: rfc_parser_def str_is_def)

text \<open>C40. \<open>nvoid_new\<close> never succeeds: its \<open>data\<close> pointer is not set, so the copy goes to \<open>NULL\<close>, and a
  length under 4 makes the block too small to hold the pointer at all. So a byte string among the
  arguments of a message is fatal to \<open>command_from_data\<close>.\<close>

theorem nvoid_new_always_faults:
  assumes "wf_mem s" "no_oom s"
  shows "nvoid_new data len s = Inl (if 8 \<le> 4 + len then NullDeref else OutOfBounds)"
  using nvoid_new_faults [OF assms(1)] assms(2) by simp

lemma nvoid_new_always_faults_witness: "nvoid_new (ret [1, 2, 3, 4]) 4 start_world = Inl NullDeref"
  using nvoid_new_always_faults [of start_world "ret [1, 2, 3, 4]" 4] wf_mem_start
  by (simp add: no_oom_def start_world_def)

end
